(* ===== verification/Prelude.thy ===== *)
theory Prelude
  imports Main "HOL-Library.Word"
begin

text \<open>
  Shared vocabulary of the development.
  \<^item> \<open>panic\<close> and \<open>run\<close>: a Rust computation that may abort the kernel. Every \<open>panic!\<close>,
    \<open>assert!\<close>, \<open>unwrap\<close>/\<open>expect\<close> on an empty value, out-of-range index and arithmetic
    overflow (the kernel is built with the overflow checks of the dev profile) is a
    value on the left of a sum, as is a spin lock that its holder takes again (\<open>Deadlock\<close>).
  \<^item> half-open intervals of natural numbers kept in canonical form: sorted, non-empty,
    neither overlapping nor touching. The boot-time region sets (\<open>dram.rs\<close>) and the free
    list of the page frame allocator (\<open>frames.rs\<close>) are both such lists; the lemmas on
    \<open>canon\<close> and \<open>cover\<close> are proved here once for both.
\<close>

named_theorems run_simps \<open>evaluation of fallible computations\<close>
named_theorems cover_simps \<open>the set of points of an interval list\<close>

section \<open>Computations that may panic\<close>

datatype panic =
    AssertFailed
  | UnwrapNone
  | IndexOutOfBounds
  | ArithOverflow
  | PanicMsg string
  | Deadlock

type_synonym 'a run = "panic + 'a"
type_synonym byte = "8 word"
type_synonym uuid = "128 word"

fun and_then :: "'e + 'a \<Rightarrow> ('a \<Rightarrow> 'e + 'b) \<Rightarrow> 'e + 'b" where
  "and_then (Inl e) f = Inl e"
| "and_then (Inr x) f = f x"

declare and_then.simps [run_simps]

lemma and_then_cong [fundef_cong]:
  "m = m' \<Longrightarrow> (\<And>x. m' = Inr x \<Longrightarrow> f x = g x) \<Longrightarrow> and_then m f = and_then m' g"
  by (cases m') auto

lemma and_then_assoc: "and_then (and_then m f) g = and_then m (\<lambda>x. and_then (f x) g)"
  by (cases m) auto

lemma and_then_Inr_iff: "and_then m f = Inr y \<longleftrightarrow> (\<exists>x. m = Inr x \<and> f x = Inr y)"
  by (cases m) auto

lemma and_then_InrE: "and_then m f = Inr y \<Longrightarrow> (\<And>x. m = Inr x \<Longrightarrow> f x = Inr y \<Longrightarrow> P) \<Longrightarrow> P"
  by (cases m) auto

lemma and_then_Inl_iff:
  "and_then m f = Inl e \<longleftrightarrow> m = Inl e \<or> (\<exists>x. m = Inr x \<and> f x = Inl e)"
  by (cases m) auto

definition is_ok :: "'e + 'a \<Rightarrow> bool" where
  "is_ok m \<longleftrightarrow> (case m of Inl _ \<Rightarrow> False | Inr _ \<Rightarrow> True)"

lemma is_ok_simps [simp, run_simps]: "is_ok (Inr x)" "\<not> is_ok (Inl e)"
  by (simp_all add: is_ok_def)

lemma is_okD: "is_ok m \<Longrightarrow> \<exists>x. m = Inr x"
  by (cases m) (auto simp: is_ok_def)

section \<open>Interval lists\<close>

type_synonym ival = "nat \<times> nat"

primrec cover :: "ival list \<Rightarrow> nat set" where
  "cover [] = {}"
| "cover (i # is) = {fst i..<snd i} \<union> cover is"

text \<open>Sorted, non-empty, and with a gap of at least one point between neighbours.\<close>

fun canon :: "nat \<Rightarrow> ival list \<Rightarrow> bool" where
  "canon lo [] \<longleftrightarrow> True"
| "canon lo ((a, b) # is) \<longleftrightarrow> lo \<le> a \<and> a < b \<and> canon (Suc b) is"

lemma cover_append [simp, cover_simps]: "cover (xs @ ys) = cover xs \<union> cover ys"
  by (induction xs) auto

lemma finite_cover [simp]: "finite (cover xs)"
  by (induction xs) auto

lemma canon_mono: "canon lo xs \<Longrightarrow> lo' \<le> lo \<Longrightarrow> canon lo' xs"
  by (cases xs) auto

lemma canon_cover_ge: "canon lo xs \<Longrightarrow> p \<in> cover xs \<Longrightarrow> lo \<le> p"
  by (induction lo xs rule: canon.induct) fastforce+

lemma canon_cover_lb: "canon lo xs \<Longrightarrow> cover xs \<subseteq> {lo..}"
  by (auto dest: canon_cover_ge)

lemma canon_Cons_disjoint: "canon (Suc b) xs \<Longrightarrow> {a..<b} \<inter> cover xs = {}"
  by (fastforce dest: canon_cover_ge)

lemma canon_ge: "canon lo xs \<Longrightarrow> (a, b) \<in> set xs \<Longrightarrow> lo \<le> a \<and> a < b"
  by (induction lo xs rule: canon.induct) fastforce+

lemma canon_sorted_fst: "canon lo xs \<Longrightarrow> sorted (map fst xs)"
proof (induction lo xs rule: canon.induct)
  case (2 lo a b xs)
  then have "\<forall>x \<in> set xs. a \<le> fst x" using canon_ge by fastforce
  with 2 show ?case by auto
qed simp

lemma canon_distinct: "canon lo xs \<Longrightarrow> distinct (map fst xs)"
proof (induction lo xs rule: canon.induct)
  case (2 lo a b xs)
  then have "a \<notin> fst ` set xs" by (fastforce dest: canon_ge)
  with 2 show ?case by auto
qed simp

lemma canon_append_ub:
  "canon lo xs \<Longrightarrow> \<forall>(x, y) \<in> set xs. y \<le> b \<Longrightarrow> canon (Suc b) ys \<Longrightarrow> lo \<le> Suc b \<Longrightarrow>
     canon lo (xs @ ys)"
proof (induction lo xs rule: canon.induct)
  case (1 lo)
  then show ?case using canon_mono by auto
qed auto

lemma card_cover_canon: "canon lo xs \<Longrightarrow> card (cover xs) = (\<Sum>(a, b)\<leftarrow>xs. b - a)"
proof (induction lo xs rule: canon.induct)
  case (2 lo a b xs)
  then have "card ({a..<b} \<union> cover xs) = card {a..<b} + card (cover xs)"
    by (intro card_Un_disjoint) (auto simp: canon_Cons_disjoint)
  with 2 show ?case by simp
qed simp

text \<open>
  A canonical list is determined by its points: the first interval starts at the
  least point and ends at the least point above it that is not covered.
\<close>

lemma canon_nonempty_cover: "canon lo ((a, b) # xs) \<Longrightarrow> a \<in> cover ((a, b) # xs)"
  by simp

lemma canon_head_start:
  assumes "canon lo ((a, b) # xs)" and "canon lo' ((c, d) # ys)"
    and "cover ((a, b) # xs) = cover ((c, d) # ys)"
  shows "a \<le> c"
proof -
  have "c \<in> cover ((a, b) # xs)" using assms(2,3) by auto
  moreover have "canon a ((a, b) # xs)" using assms(1) by simp
  ultimately show ?thesis by (rule canon_cover_ge [rotated])
qed

lemma canon_head_end:
  assumes "canon lo ((a, b) # xs)" and "canon lo' ((a, d) # ys)"
    and "cover ((a, b) # xs) = cover ((a, d) # ys)"
  shows "d \<le> b"
proof (rule ccontr)
  assume "\<not> d \<le> b"
  then have "b \<in> cover ((a, d) # ys)" using assms(1) by auto
  then have "b \<in> cover xs" using assms(3) by auto
  moreover have "canon (Suc b) xs" using assms(1) by simp
  ultimately show False using canon_cover_ge by fastforce
qed

lemma canon_tail_cover:
  assumes "canon lo ((a, b) # xs)"
  shows "cover xs = cover ((a, b) # xs) - {a..<b}"
  using canon_Cons_disjoint [of b xs a] assms by auto

theorem canon_unique: "canon lo xs \<Longrightarrow> canon lo' ys \<Longrightarrow> cover xs = cover ys \<Longrightarrow> xs = ys"
proof (induction xs arbitrary: lo lo' ys)
  case Nil
  then show ?case by (cases ys) auto
next
  case (Cons x xs)
  obtain a b where x: "x = (a, b)" by fastforce
  show ?case
  proof (cases ys)
    case Nil
    with Cons.prems x show ?thesis by auto
  next
    case (Cons y ys')
    obtain c d where y: "y = (c, d)" by fastforce
    have ac: "a = c"
      using canon_head_start [of lo a b xs lo' c d ys']
        canon_head_start [of lo' c d ys' lo a b xs] Cons.prems Cons x y by auto
    have bd: "b = d"
      using canon_head_end [of lo a b xs lo' d ys'] canon_head_end [of lo' a d ys' lo b xs]
        Cons.prems Cons x y ac by auto
    have "cover xs = cover ys'"
      using canon_tail_cover [of lo a b xs] canon_tail_cover [of lo' a b ys']
        Cons.prems Cons x y ac bd by auto
    then have "xs = ys'"
      using Cons.IH [of "Suc b" "Suc b" ys'] Cons.prems Cons x y bd by auto
    with Cons x y ac bd show ?thesis by simp
  qed
qed

lemma canon_append:
  "canon lo (xs @ ys) \<longleftrightarrow>
     canon lo xs \<and> canon (if xs = [] then lo else Suc (snd (last xs))) ys"
  by (induction lo xs rule: canon.induct) auto

lemma canon_boundary:
  "canon lo xs \<Longrightarrow> (a, b) \<in> set xs \<Longrightarrow>
     {a..<b} \<subseteq> cover xs \<and> b \<notin> cover xs \<and> (0 < a \<longrightarrow> a - 1 \<notin> cover xs)"
proof (induction lo xs rule: canon.induct)
  case (2 lo c d xs)
  have ge: "x \<in> cover xs \<Longrightarrow> Suc d \<le> x" for x using canon_cover_ge 2 by fastforce
  show ?case
  proof (cases "(a, b) \<in> set xs")
    case True
    then have "Suc d \<le> a" "a < b" using canon_ge [of "Suc d" xs a b] 2 by auto
    with True 2 show ?thesis by auto
  next
    case False
    with 2 have "a = c" "b = d" by auto
    with 2 show ?thesis using ge [of b] ge [of "a - 1"] by auto
  qed
qed simp

lemma canon_prefix_below: "canon lo (xs @ (a, b) # ys) \<Longrightarrow> p \<in> cover xs \<Longrightarrow> p < a"
proof (induction xs arbitrary: lo)
  case (Cons x xs)
  then have "canon (Suc (snd x)) (xs @ (a, b) # ys)" by (cases x) auto
  then show ?case using Cons canon_ge [of "Suc (snd x)" "xs @ (a, b) # ys" a b] by auto
qed simp

end
