(* ===== verification/Dram.thy ===== *)
theory Dram
  imports Prelude
begin

text \<open>
  The boot-time memory map, \<open>os/kernel/src/memory/dram.rs\<close>: the sets of available and
  reserved physical regions, their insertion with in-place merging, the subtraction of the
  reserved regions, the complement, and the boot allocator that takes the kernel heap.

  A \<open>RegionSet\<close> is kept as in the code: an array of \<open>MAX_REGIONS\<close> slots of which the
  first \<open>count\<close> are live. Addresses are byte addresses; a \<open>PhysFrame\<close> (a page-aligned
  physical address) is represented by its frame number, so that \<open>start_address\<close> is a
  multiplication by \<open>PAGE_SIZE\<close>. Every loop of the source is a recursive function over
  the loop variables. The four global statics are the record \<open>dram\<close>. Panic messages are
  given without the \<open>available:\<close> or \<open>reserved:\<close> prefix of the code.
\<close>

section \<open>Data\<close>

definition PAGE_SIZE :: nat where
  "PAGE_SIZE = 0x1000"

lemma PAGE_SIZE_pos [simp]: "0 < PAGE_SIZE"
  by (simp add: PAGE_SIZE_def)

lemma PAGE_SIZE_nonzero [simp]: "PAGE_SIZE \<noteq> 0"
  by (simp add: PAGE_SIZE_def)

record phys_frame_range =
  fr_start :: nat
  fr_end :: nat

definition start_address :: "nat \<Rightarrow> nat" where
  "start_address f = f * PAGE_SIZE"

definition MAX_REGIONS :: nat where
  "MAX_REGIONS = 1024"

record region =
  r_start :: nat
  r_end :: nat

definition EMPTY_REGION :: region where
  "EMPTY_REGION = \<lparr>r_start = 0, r_end = 0\<rparr>"

record region_set =
  rs_count :: nat
  rs_regions :: "region list"

definition EMPTY_REGION_SET :: region_set where
  "EMPTY_REGION_SET = \<lparr>rs_count = 0, rs_regions = replicate MAX_REGIONS EMPTY_REGION\<rparr>"

record dram =
  DRAM_LIMIT :: nat
  DRAM_FINALIZED :: bool
  AVAILABLE_REGIONS :: region_set
  RESERVED_REGIONS :: region_set

definition dram_boot :: dram where
  "dram_boot = \<lparr>DRAM_LIMIT = 0, DRAM_FINALIZED = False,
     AVAILABLE_REGIONS = EMPTY_REGION_SET, RESERVED_REGIONS = EMPTY_REGION_SET\<rparr>"

section \<open>Inserting a region\<close>

text \<open>The search for the insertion point.\<close>

function insert_pos :: "region list \<Rightarrow> nat \<Rightarrow> nat \<Rightarrow> nat \<Rightarrow> nat" where
  "insert_pos rs count start insert_at =
     (if insert_at < count \<and> r_start (rs ! insert_at) < start
      then insert_pos rs count start (insert_at + 1) else insert_at)"
  by pat_completeness auto
termination
  by (relation "measure (\<lambda>(rs, count, start, i). count - i)") auto

text \<open>\<open>for i in (insert_at..count).rev() { regions[i + 1] = regions[i]; }\<close>\<close>

function shift_right :: "region list \<Rightarrow> nat \<Rightarrow> nat \<Rightarrow> region list" where
  "shift_right rs insert_at count =
     (if insert_at < count
      then shift_right (rs[count := rs ! (count - 1)]) insert_at (count - 1) else rs)"
  by pat_completeness auto
termination
  by (relation "measure (\<lambda>(rs, i, count). count)") auto

text \<open>The in-place merge: \<open>write\<close> is the last slot written, \<open>read\<close> the next one read.\<close>

function merge_loop :: "region list \<Rightarrow> nat \<Rightarrow> nat \<Rightarrow> nat \<Rightarrow> region list \<times> nat" where
  "merge_loop rs count read write =
     (if read < count then
        (let current = rs ! write; nxt = rs ! read in
         if r_start nxt \<le> r_end current then
           (if r_end nxt > r_end (rs ! write)
            then merge_loop (rs[write := (rs ! write)\<lparr>r_end := r_end nxt\<rparr>]) count (read + 1) write
            else merge_loop rs count (read + 1) write)
         else merge_loop (rs[write + 1 := nxt]) count (read + 1) (write + 1))
      else (rs, write))"
  by pat_completeness auto
termination
  by (relation "measure (\<lambda>(rs, count, read, write). count - read)") auto

text \<open>\<open>for slot in &mut regions[new_count..count] { *slot = EMPTY_REGION; }\<close>\<close>

function clear_slots :: "region list \<Rightarrow> nat \<Rightarrow> nat \<Rightarrow> region list" where
  "clear_slots rs i hi = (if i < hi then clear_slots (rs[i := EMPTY_REGION]) (i + 1) hi else rs)"
  by pat_completeness auto
termination
  by (relation "measure (\<lambda>(rs, i, hi). hi - i)") auto

declare insert_pos.simps [simp del] shift_right.simps [simp del]
  merge_loop.simps [simp del] clear_slots.simps [simp del]

text \<open>
  \<open>insert_region\<close> returns the new \<open>DRAM_LIMIT\<close> with the new set. Slot \<open>count\<close> exists
  because the count is below \<open>MAX_REGIONS\<close>.
\<close>

definition insert_region ::
    "bool \<Rightarrow> nat \<Rightarrow> region_set \<Rightarrow> phys_frame_range \<Rightarrow> (nat \<times> region_set) run" where
  "insert_region finalized limit rset new_region =
     (if finalized then Inl (PanicMsg ''DRAM regions have already been finalized'')
      else
        let start = start_address (fr_start new_region);
            end_a = start_address (fr_end new_region);
            limit' = max limit end_a;
            count = rs_count rset
        in if \<not> count \<le> MAX_REGIONS then Inl AssertFailed
           else if count = MAX_REGIONS then Inl (PanicMsg ''too many regions'')
           else
             let insert_at = insert_pos (rs_regions rset) count start 0;
                 shifted = shift_right (rs_regions rset) insert_at count;
                 placed = shifted[insert_at := \<lparr>r_start = start, r_end = end_a\<rparr>];
                 count' = count + 1;
                 (merged, write) = merge_loop placed count' 1 0;
                 new_count = (if count' = 0 then 0 else write + 1)
             in Inr (limit', \<lparr>rs_count = new_count,
                              rs_regions = clear_slots merged new_count count'\<rparr>))"

definition insert_available :: "dram \<Rightarrow> phys_frame_range \<Rightarrow> dram run" where
  "insert_available d rg =
     (if start_address (fr_start rg) = 0 then
        (if start_address (fr_end rg) \<le> PAGE_SIZE then Inr d
         else and_then (insert_region (DRAM_FINALIZED d) (DRAM_LIMIT d) (AVAILABLE_REGIONS d)
                          (rg\<lparr>fr_start := 1\<rparr>))
                (\<lambda>(l, s). Inr (d\<lparr>DRAM_LIMIT := l, AVAILABLE_REGIONS := s\<rparr>)))
      else and_then (insert_region (DRAM_FINALIZED d) (DRAM_LIMIT d) (AVAILABLE_REGIONS d) rg)
             (\<lambda>(l, s). Inr (d\<lparr>DRAM_LIMIT := l, AVAILABLE_REGIONS := s\<rparr>)))"

definition insert_reserved :: "dram \<Rightarrow> phys_frame_range \<Rightarrow> dram run" where
  "insert_reserved d rg =
     and_then (insert_region (DRAM_FINALIZED d) (DRAM_LIMIT d) (RESERVED_REGIONS d) rg)
       (\<lambda>(l, s). Inr (d\<lparr>DRAM_LIMIT := l, RESERVED_REGIONS := s\<rparr>))"

section \<open>Finalisation\<close>

text \<open>
  The closure \<open>push_region\<close> appends to the output buffer; \<open>result\<close> is the filled part
  of the buffer, its length the variable \<open>result_count\<close>.
\<close>

definition push_region :: "region list \<Rightarrow> nat \<Rightarrow> nat \<Rightarrow> region list run" where
  "push_region result start end_a =
     (if start \<ge> end_a then Inr result
      else if length result \<ge> MAX_REGIONS
        then Inl (PanicMsg ''too many regions after finalization'')
      else Inr (result @ [\<lparr>r_start = start, r_end = end_a\<rparr>]))"

text \<open>Skip the reserved regions that end before the available region starts.\<close>

function skip_reserved :: "region list \<Rightarrow> nat \<Rightarrow> nat \<Rightarrow> nat \<Rightarrow> nat" where
  "skip_reserved res rcount f_start r_idx =
     (if r_idx < rcount \<and> r_end (res ! r_idx) \<le> f_start
      then skip_reserved res rcount f_start (r_idx + 1) else r_idx)"
  by pat_completeness auto
termination
  by (relation "measure (\<lambda>(res, rcount, f_start, i). rcount - i)") auto

text \<open>
  The scan over the reserved regions that overlap the available region \<open>f\<close>: returns
  \<open>cur_start\<close> and the output after the loop.
\<close>

function scan_reserved ::
    "region list \<Rightarrow> nat \<Rightarrow> region \<Rightarrow> nat \<Rightarrow> nat \<Rightarrow> region list \<Rightarrow> (nat \<times> region list) run" where
  "scan_reserved res rcount f scan cur_start result =
     (if scan < rcount then
        let r = res ! scan in
        if r_start r \<ge> r_end f then Inr (cur_start, result)
        else and_then
          (if cur_start < r_start r
           then push_region result cur_start
                  (if r_start r < r_end f then r_start r else r_end f)
           else Inr result)
          (\<lambda>result'.
             let cur' = (if r_end r > cur_start
                         then (if r_end r > r_end f then r_end f else r_end r)
                         else cur_start)
             in if cur' \<ge> r_end f then Inr (cur', result')
                else scan_reserved res rcount f (scan + 1) cur' result')
      else Inr (cur_start, result))"
  by pat_completeness auto
termination
  by (relation "measure (\<lambda>(res, rcount, f, scan, c, r). rcount - scan)") auto

text \<open>The loop over the available regions; \<open>r_idx\<close> is carried from one to the next.\<close>

function avail_loop ::
    "region list \<Rightarrow> nat \<Rightarrow> region list \<Rightarrow> nat \<Rightarrow> nat \<Rightarrow> nat \<Rightarrow> region list \<Rightarrow> region list run" where
  "avail_loop av acount res rcount f_idx r_idx result =
     (if f_idx < acount then
        let f = av ! f_idx in
        if r_start f \<ge> r_end f then avail_loop av acount res rcount (f_idx + 1) r_idx result
        else
          let r_idx' = skip_reserved res rcount (r_start f) r_idx in
          and_then (scan_reserved res rcount f r_idx' (r_start f) result)
            (\<lambda>(cur_start, result').
               and_then (if cur_start < r_end f then push_region result' cur_start (r_end f)
                         else Inr result')
                 (\<lambda>result''. avail_loop av acount res rcount (f_idx + 1) r_idx' result''))
      else Inr result)"
  by pat_completeness auto
termination
  by (relation "measure (\<lambda>(av, acount, res, rcount, f_idx, r_idx, r). acount - f_idx)") auto

declare skip_reserved.simps [simp del] scan_reserved.simps [simp del] avail_loop.simps [simp del]

definition fill_slots :: "region list \<Rightarrow> region_set" where
  "fill_slots result =
     \<lparr>rs_count = length result,
      rs_regions = result @ replicate (MAX_REGIONS - length result) EMPTY_REGION\<rparr>"

definition finalize_available_regions :: "dram \<Rightarrow> dram run" where
  "finalize_available_regions d =
     (if DRAM_FINALIZED d then Inl (PanicMsg ''DRAM regions have already been finalized'')
      else and_then
        (avail_loop (rs_regions (AVAILABLE_REGIONS d)) (rs_count (AVAILABLE_REGIONS d))
           (rs_regions (RESERVED_REGIONS d)) (rs_count (RESERVED_REGIONS d)) 0 0 [])
        (\<lambda>result. Inr (d\<lparr>DRAM_FINALIZED := True, AVAILABLE_REGIONS := fill_slots result\<rparr>)))"

text \<open>The complement of the available regions in \<open>[0, DRAM_LIMIT)\<close>.\<close>

fun complement_loop :: "nat \<Rightarrow> region list \<Rightarrow> nat \<Rightarrow> region list \<Rightarrow> (nat \<times> region list) run" where
  "complement_loop limit [] cur out = Inr (cur, out)"
| "complement_loop limit (rg # rgs) cur out =
     (if \<not> r_start rg \<le> r_end rg then Inl AssertFailed
      else if \<not> r_end rg \<le> limit then Inl AssertFailed
      else and_then
        (if cur < r_start rg then
           (if length out \<ge> MAX_REGIONS
            then Inl (PanicMsg ''too many regions after finalization'')
            else Inr (out @ [\<lparr>r_start = cur, r_end = r_start rg\<rparr>]))
         else Inr out)
        (\<lambda>out'. complement_loop limit rgs (if r_end rg > cur then r_end rg else cur) out'))"

definition live_regions :: "region_set \<Rightarrow> region list" where
  "live_regions s = take (rs_count s) (rs_regions s)"

definition finalize_reserved_regions :: "dram \<Rightarrow> dram run" where
  "finalize_reserved_regions d =
     (if \<not> DRAM_FINALIZED d then Inl (PanicMsg ''DRAM not finalized yet'')
      else if \<not> rs_count (AVAILABLE_REGIONS d) \<le> MAX_REGIONS then Inl AssertFailed
      else if DRAM_LIMIT d = 0 then Inr (d\<lparr>RESERVED_REGIONS := EMPTY_REGION_SET\<rparr>)
      else and_then (complement_loop (DRAM_LIMIT d) (live_regions (AVAILABLE_REGIONS d)) 0 [])
        (\<lambda>(cur, out).
           if cur < DRAM_LIMIT d then
             (if length out \<ge> MAX_REGIONS
              then Inl (PanicMsg ''too many regions after finalization'')
              else Inr (d\<lparr>RESERVED_REGIONS :=
                     fill_slots (out @ [\<lparr>r_start = cur, r_end = DRAM_LIMIT d\<rparr>])\<rparr>))
           else Inr (d\<lparr>RESERVED_REGIONS := fill_slots out\<rparr>)))"

definition finalize :: "dram \<Rightarrow> dram run" where
  "finalize d = and_then (finalize_available_regions d) finalize_reserved_regions"

section \<open>Allocation during boot\<close>

text \<open>\<open>for j in i..last { regions[j] = regions[j + 1]; }\<close>\<close>

function shift_left :: "region list \<Rightarrow> nat \<Rightarrow> nat \<Rightarrow> region list" where
  "shift_left rs j hi = (if j < hi then shift_left (rs[j := rs ! (j + 1)]) (j + 1) hi else rs)"
  by pat_completeness auto
termination
  by (relation "measure (\<lambda>(rs, j, hi). hi - j)") auto

declare shift_left.simps [simp del]

function boot_alloc_loop ::
    "region_set \<Rightarrow> nat \<Rightarrow> nat \<Rightarrow> (phys_frame_range option \<times> region_set) run" where
  "boot_alloc_loop s byte_len i =
     (if i < rs_count s then
        let rg = rs_regions s ! i; start = r_start rg; end_a = r_end rg in
        if start mod PAGE_SIZE \<noteq> 0 \<or> end_a mod PAGE_SIZE \<noteq> 0 \<or> \<not> start < end_a
        then Inl AssertFailed
        else if end_a - start < byte_len then boot_alloc_loop s byte_len (i + 1)
        else
          let alloc_end = start + byte_len in
          if alloc_end \<ge> 2 ^ 64 then Inl ArithOverflow
          else
            let range = \<lparr>fr_start = start div PAGE_SIZE, fr_end = alloc_end div PAGE_SIZE\<rparr> in
            if alloc_end = end_a then
              (let last = rs_count s - 1 in
               Inr (Some range,
                    \<lparr>rs_count = last,
                     rs_regions = (shift_left (rs_regions s) i last)[last := EMPTY_REGION]\<rparr>))
            else Inr (Some range,
                      s\<lparr>rs_regions := (rs_regions s)[i := rg\<lparr>r_start := alloc_end\<rparr>]\<rparr>)
      else Inr (None, s))"
  by pat_completeness auto
termination
  by (relation "measure (\<lambda>(s, b, i). rs_count s - i)") auto

declare boot_alloc_loop.simps [simp del]

definition boot_alloc :: "dram \<Rightarrow> nat \<Rightarrow> (phys_frame_range option \<times> dram) run" where
  "boot_alloc d num_frames =
     (if \<not> num_frames > 0 then Inl AssertFailed
      else if num_frames * PAGE_SIZE \<ge> 2 ^ 64 then Inl ArithOverflow
      else if \<not> rs_count (AVAILABLE_REGIONS d) \<le> MAX_REGIONS then Inl AssertFailed
      else and_then (boot_alloc_loop (AVAILABLE_REGIONS d) (num_frames * PAGE_SIZE) 0)
        (\<lambda>(r, s). Inr (r, d\<lparr>AVAILABLE_REGIONS := s\<rparr>)))"

section \<open>Views of the finalised sets\<close>

definition guard_get :: "region_set \<Rightarrow> nat \<Rightarrow> region option" where
  "guard_get g index = (if index < rs_count g then Some (rs_regions g ! index) else None)"

definition get_all_available :: "dram \<Rightarrow> region list run" where
  "get_all_available d =
     (if \<not> DRAM_FINALIZED d then Inl (PanicMsg ''DRAM not finalized yet'')
      else Inr (live_regions (AVAILABLE_REGIONS d)))"

definition get_all_reserved :: "dram \<Rightarrow> region list run" where
  "get_all_reserved d =
     (if \<not> DRAM_FINALIZED d then Inl (PanicMsg ''DRAM not finalized yet'')
      else Inr (live_regions (RESERVED_REGIONS d)))"

section \<open>Insertion keeps the sets canonical\<close>

definition ivals :: "region list \<Rightarrow> ival list" where
  "ivals rs = map (\<lambda>r. (r_start r, r_end r)) rs"

lemma ivals_simps [simp]:
  "ivals [] = []" "ivals (r # rs) = (r_start r, r_end r) # ivals rs"
  "ivals (rs @ ss) = ivals rs @ ivals ss"
  by (simp_all add: ivals_def)

lemma ivals_eq_Nil [simp]: "ivals rs = [] \<longleftrightarrow> rs = []"
  by (simp add: ivals_def)

definition wf_set :: "region_set \<Rightarrow> bool" where
  "wf_set s \<longleftrightarrow> length (rs_regions s) = MAX_REGIONS \<and> rs_count s \<le> MAX_REGIONS \<and>
     canon 0 (ivals (live_regions s)) \<and>
     drop (rs_count s) (rs_regions s) = replicate (MAX_REGIONS - rs_count s) EMPTY_REGION"

fun merge_acc :: "ival \<Rightarrow> ival list \<Rightarrow> ival list" where
  "merge_acc cur [] = [cur]"
| "merge_acc (a, b) ((c, d) # is) =
     (if c \<le> b then merge_acc (a, max b d) is else (a, b) # merge_acc (c, d) is)"

lemma merge_acc_cover:
  "sorted (map fst ((a, b) # is)) \<Longrightarrow> a < b \<Longrightarrow> \<forall>(c, d) \<in> set is. c < d \<Longrightarrow>
     cover (merge_acc (a, b) is) = {a..<b} \<union> cover is"
  by (induction "(a, b)" "is" arbitrary: a b rule: merge_acc.induct) (force simp: max_def)+

lemma merge_acc_canon:
  "sorted (map fst ((a, b) # is)) \<Longrightarrow> a < b \<Longrightarrow> \<forall>(c, d) \<in> set is. c < d \<Longrightarrow>
     lo \<le> a \<Longrightarrow> canon lo (merge_acc (a, b) is)"
  by (induction "(a, b)" "is" arbitrary: a b lo rule: merge_acc.induct) (force simp: max_def)+

lemma insert_pos_bounds:
  "i \<le> count \<Longrightarrow> i \<le> insert_pos rs count st i \<and> insert_pos rs count st i \<le> count"
  by (induction rs count st i rule: insert_pos.induct) (subst (1 2) insert_pos.simps, auto)

lemma insert_pos_below:
  "i \<le> j \<Longrightarrow> j < insert_pos rs count st i \<Longrightarrow> r_start (rs ! j) < st"
proof (induction rs count st i rule: insert_pos.induct)
  case (1 rs count st i)
  show ?case
  proof (cases "i < count \<and> r_start (rs ! i) < st")
    case True
    with 1 show ?thesis
      by (cases "i = j") (auto simp: insert_pos.simps [of rs count st i])
  next
    case False
    with 1 show ?thesis by (auto simp: insert_pos.simps [of rs count st i])
  qed
qed

lemma insert_pos_above:
  "insert_pos rs count st i < count \<Longrightarrow> st \<le> r_start (rs ! insert_pos rs count st i)"
proof (induction rs count st i rule: insert_pos.induct)
  case (1 rs count st i)
  show ?case
  proof (cases "i < count \<and> r_start (rs ! i) < st")
    case True
    with 1 show ?thesis by (simp add: insert_pos.simps [of rs count st i])
  next
    case False
    with 1 show ?thesis by (auto simp: insert_pos.simps [of rs count st i])
  qed
qed

lemma length_shift_right [simp]: "length (shift_right rs lo hi) = length rs"
  by (induction rs lo hi rule: shift_right.induct) (subst shift_right.simps, simp)

lemma nth_shift_right:
  "hi < length rs \<Longrightarrow> j < length rs \<Longrightarrow>
     shift_right rs lo hi ! j = (if lo < j \<and> j \<le> hi then rs ! (j - 1) else rs ! j)"
proof (induction rs lo hi arbitrary: j rule: shift_right.induct)
  case (1 rs lo hi)
  show ?case
  proof (cases "lo < hi")
    case True
    then have "shift_right rs lo hi ! j =
       shift_right (rs[hi := rs ! (hi - 1)]) lo (hi - 1) ! j"
      by (simp add: shift_right.simps [of rs lo hi])
    also have "\<dots> = (if lo < j \<and> j \<le> hi - 1 then rs[hi := rs ! (hi - 1)] ! (j - 1)
        else rs[hi := rs ! (hi - 1)] ! j)"
      using True 1 by (intro "1.IH") auto
    finally show ?thesis using True 1 by (auto simp: nth_list_update)
  next
    case False
    then show ?thesis by (auto simp: shift_right.simps [of rs lo hi])
  qed
qed

lemma take_shift_place:
  assumes "i \<le> n" and "n < length rs"
  shows "take (Suc n) ((shift_right rs i n)[i := x]) = take i rs @ x # drop i (take n rs)"
proof (rule nth_equalityI)
  show "length (take (Suc n) ((shift_right rs i n)[i := x])) =
      length (take i rs @ x # drop i (take n rs))"
    using assms by simp
next
  fix j
  assume "j < length (take (Suc n) ((shift_right rs i n)[i := x]))"
  with assms have j: "j < Suc n" by simp
  show "take (Suc n) ((shift_right rs i n)[i := x]) ! j =
      (take i rs @ x # drop i (take n rs)) ! j"
    using assms j
    by (cases "j < i"; cases "j = i")
      (auto simp: nth_shift_right nth_append nth_list_update nth_Cons')
qed

lemma drop_shift_place:
  assumes "i \<le> n" and "n < length rs"
  shows "drop (Suc n) ((shift_right rs i n)[i := x]) = drop (Suc n) rs"
  using assms by (intro nth_equalityI) (auto simp: nth_shift_right nth_list_update)

lemma length_merge_loop [simp]: "length (fst (merge_loop rs count read w)) = length rs"
  by (induction rs count read w rule: merge_loop.induct)
    (subst merge_loop.simps, simp add: Let_def)

lemma merge_loop_refines:
  "w < read \<Longrightarrow> read \<le> count \<Longrightarrow> count \<le> length rs \<Longrightarrow>
   merge_loop rs count read w = (rs', w') \<Longrightarrow>
     w' < count \<and> drop count rs' = drop count rs \<and>
     ivals (take (Suc w') rs') =
       ivals (take w rs) @ merge_acc (r_start (rs ! w), r_end (rs ! w)) (ivals (drop read (take count rs)))"
proof (induction rs count read w arbitrary: rs' w' rule: merge_loop.induct)
  case (1 rs count read w)
  show ?case
  proof (cases "read < count")
    case False
    then have "rs' = rs" "w' = w"
      using "1.prems"(4) by (simp_all add: merge_loop.simps [of rs count read w])
    with False "1.prems"(1-3) show ?thesis by (simp add: take_Suc_conv_app_nth)
  next
    case True
    have split: "drop read (take count rs) = rs ! read # drop (Suc read) (take count rs)"
      using Cons_nth_drop_Suc [of read "take count rs"] True "1.prems" by simp
    consider (grow) "r_start (rs ! read) \<le> r_end (rs ! w)" "r_end (rs ! read) > r_end (rs ! w)"
      | (keep) "r_start (rs ! read) \<le> r_end (rs ! w)" "\<not> r_end (rs ! read) > r_end (rs ! w)"
      | (fresh) "\<not> r_start (rs ! read) \<le> r_end (rs ! w)" by blast
    then show ?thesis
    proof cases
      case grow
      let ?rs = "rs[w := (rs ! w)\<lparr>r_end := r_end (rs ! read)\<rparr>]"
      have "merge_loop ?rs count (read + 1) w = (rs', w')"
        using True grow "1.prems"(4) by (simp add: merge_loop.simps [of rs count read w] Let_def)
      then have "w' < count \<and> drop count rs' = drop count ?rs \<and>
        ivals (take (Suc w') rs') = ivals (take w ?rs) @
          merge_acc (r_start (?rs ! w), r_end (?rs ! w)) (ivals (drop (read + 1) (take count ?rs)))"
        using True grow "1.prems"(1-3) by (intro "1.IH"(1) [OF True refl refl]) auto
      moreover have "drop (read + 1) (take count ?rs) = drop (Suc read) (take count rs)"
        using "1.prems"(1) by (simp add: drop_take)
      ultimately show ?thesis
        using True grow "1.prems"(1-3) unfolding split by (simp add: max_def)
    next
      case keep
      have "merge_loop rs count (read + 1) w = (rs', w')"
        using True keep "1.prems"(4) by (simp add: merge_loop.simps [of rs count read w] Let_def)
      then have "w' < count \<and> drop count rs' = drop count rs \<and>
        ivals (take (Suc w') rs') = ivals (take w rs) @
          merge_acc (r_start (rs ! w), r_end (rs ! w)) (ivals (drop (read + 1) (take count rs)))"
        using True keep "1.prems"(1-3) by (intro "1.IH"(2) [OF True refl refl]) auto
      then show ?thesis
        using True keep "1.prems"(1-3) unfolding split by (simp add: max_def)
    next
      case fresh
      let ?rs = "rs[w + 1 := rs ! read]"
      have "merge_loop ?rs count (read + 1) (w + 1) = (rs', w')"
        using True fresh "1.prems"(4) by (simp add: merge_loop.simps [of rs count read w] Let_def)
      then have "w' < count \<and> drop count rs' = drop count ?rs \<and>
        ivals (take (Suc w') rs') = ivals (take (w + 1) ?rs) @
          merge_acc (r_start (?rs ! (w + 1)), r_end (?rs ! (w + 1)))
            (ivals (drop (read + 1) (take count ?rs)))"
        using True fresh "1.prems"(1-3) by (intro "1.IH"(3) [OF True refl refl]) auto
      moreover have "drop (read + 1) (take count ?rs) = drop (Suc read) (take count rs)"
        using "1.prems"(1) by (simp add: drop_take)
      moreover have "take (w + 1) ?rs = take w rs @ [rs ! w]"
        using True "1.prems"(1-3) by (simp add: take_Suc_conv_app_nth)
      ultimately show ?thesis
        using True fresh "1.prems"(1-3) unfolding split by simp
    qed
  qed
qed

lemma clear_slots_eq:
  "lo \<le> hi \<Longrightarrow> hi \<le> length rs \<Longrightarrow>
     clear_slots rs lo hi = take lo rs @ replicate (hi - lo) EMPTY_REGION @ drop hi rs"
proof (induction rs lo hi rule: clear_slots.induct)
  case (1 rs lo hi)
  show ?case
  proof (cases "lo < hi")
    case True
    then have "clear_slots rs lo hi = clear_slots (rs[lo := EMPTY_REGION]) (lo + 1) hi"
      by (simp add: clear_slots.simps [of rs lo hi])
    also have "\<dots> = take (lo + 1) (rs[lo := EMPTY_REGION]) @
        replicate (hi - (lo + 1)) EMPTY_REGION @ drop hi (rs[lo := EMPTY_REGION])"
      using True 1 by (intro "1.IH") auto
    also have "\<dots> = take lo rs @ replicate (hi - lo) EMPTY_REGION @ drop hi rs"
      using True 1 by (simp add: take_Suc_conv_app_nth replicate_Suc [symmetric] Suc_diff_Suc
          del: replicate_Suc)
    finally show ?thesis .
  next
    case False
    with 1 have "lo = hi" by simp
    then show ?thesis by (simp add: clear_slots.simps [of rs hi hi])
  qed
qed

lemma sorted_insert_at:
  assumes "sorted (map fst (xs @ ys))" and "\<forall>x \<in> set xs. fst x < a"
    and "ys = [] \<or> a \<le> fst (hd ys)"
  shows "sorted (map fst (xs @ (a, b) # ys))"
proof -
  have "\<forall>y \<in> set ys. a \<le> fst y"
    using assms by (cases ys) (auto simp: sorted_append)
  with assms show ?thesis by (auto simp: sorted_append less_imp_le)
qed

text \<open>The array after the new region has been put in place, as a list of intervals.\<close>

lemma insert_placed:
  assumes wf: "wf_set s" and room: "rs_count s < MAX_REGIONS" and ne: "a < b"
    and i: "i = insert_pos (rs_regions s) (rs_count s) a 0"
  shows "i \<le> rs_count s"
    and "ivals (take (Suc (rs_count s))
           ((shift_right (rs_regions s) i (rs_count s))[i := \<lparr>r_start = a, r_end = b\<rparr>])) =
         ivals (take i (rs_regions s)) @ (a, b) # ivals (drop i (live_regions s))"
    and "sorted (map fst (ivals (take i (rs_regions s)) @ (a, b) # ivals (drop i (live_regions s))))"
proof -
  show le: "i \<le> rs_count s" using i insert_pos_bounds by blast
  have len: "rs_count s < length (rs_regions s)" using wf room by (simp add: wf_set_def)
  show "ivals (take (Suc (rs_count s))
           ((shift_right (rs_regions s) i (rs_count s))[i := \<lparr>r_start = a, r_end = b\<rparr>])) =
         ivals (take i (rs_regions s)) @ (a, b) # ivals (drop i (live_regions s))"
    using take_shift_place [OF le len] by (simp add: live_regions_def)
  have "take i (rs_regions s) @ drop i (live_regions s) = live_regions s"
    using le append_take_drop_id [of i "live_regions s"]
    by (simp add: live_regions_def min_absorb1)
  then have "sorted (map fst (ivals (take i (rs_regions s)) @ ivals (drop i (live_regions s))))"
    using wf by (metis canon_sorted_fst ivals_simps(3) wf_set_def)
  moreover have "\<forall>x \<in> set (ivals (take i (rs_regions s))). fst x < a"
    using i len le insert_pos_below [of 0 _ "rs_regions s" "rs_count s" a]
    by (auto simp: ivals_def in_set_conv_nth)
  moreover have "ivals (drop i (live_regions s)) = [] \<or>
      a \<le> fst (hd (ivals (drop i (live_regions s))))"
  proof (cases "i < rs_count s")
    case True
    then have "hd (drop i (live_regions s)) = rs_regions s ! i"
      using len by (simp add: live_regions_def hd_drop_conv_nth)
    moreover have "drop i (live_regions s) \<noteq> []" using True len by (simp add: live_regions_def)
    ultimately show ?thesis
      using i True insert_pos_above [of "rs_regions s" "rs_count s" a 0]
      by (simp add: ivals_def hd_map)
  next
    case False
    with le show ?thesis by (simp add: live_regions_def)
  qed
  ultimately show
    "sorted (map fst (ivals (take i (rs_regions s)) @ (a, b) # ivals (drop i (live_regions s))))"
    by (rule sorted_insert_at)
qed

text \<open>Merging and clearing turn a sorted array prefix into a well-formed set.\<close>

lemma merge_clear_wf:
  assumes len: "length placed = MAX_REGIONS" and n: "n < MAX_REGIONS"
    and L: "ivals (take (Suc n) placed) = L" and srt: "sorted (map fst L)"
    and ne: "\<forall>(c, d) \<in> set L. c < d"
    and tail: "drop (Suc n) placed = replicate (MAX_REGIONS - Suc n) EMPTY_REGION"
    and mw: "merge_loop placed (Suc n) 1 0 = (m, w)"
    and s': "s' = \<lparr>rs_count = Suc w, rs_regions = clear_slots m (Suc w) (Suc n)\<rparr>"
  shows "wf_set s' \<and> cover (ivals (live_regions s')) = cover L"
proof -
  have ref: "w < Suc n" "drop (Suc n) m = drop (Suc n) placed"
    "ivals (take (Suc w) m) =
       merge_acc (r_start (placed ! 0), r_end (placed ! 0)) (ivals (drop 1 (take (Suc n) placed)))"
    using merge_loop_refines [OF _ _ _ mw] len n by auto
  have lm: "length m = MAX_REGIONS" using mw length_merge_loop [of placed "Suc n" 1 0] len by simp
  have hd: "take (Suc n) placed = placed ! 0 # drop 1 (take (Suc n) placed)"
    using len n by (cases placed) auto
  obtain h t where ht: "L = h # t" "h = (r_start (placed ! 0), r_end (placed ! 0))"
    "t = ivals (drop 1 (take (Suc n) placed))"
    using L by (subst (asm) hd) simp
  have fin: "ivals (take (Suc w) m) = merge_acc h t" using ref ht by simp
  have can: "canon 0 (merge_acc h t)" "cover (merge_acc h t) = cover L"
    using merge_acc_canon [of "fst h" "snd h" t 0] merge_acc_cover [of "fst h" "snd h" t] srt ne ht
    by auto
  have cs: "clear_slots m (Suc w) (Suc n) =
      take (Suc w) m @ replicate (n - w) EMPTY_REGION @ drop (Suc n) m"
    using clear_slots_eq [of "Suc w" "Suc n" m] ref lm n by simp
  have live': "live_regions s' = take (Suc w) m"
    using cs lm ref n by (simp add: s' live_regions_def)
  have "wf_set s'"
    unfolding wf_set_def live' fin
    using can cs tail lm ref n by (simp add: s' replicate_add [symmetric])
  with live' fin can show ?thesis by simp
qed

lemma insert_region_refines:
  assumes wf: "wf_set s" and room: "rs_count s < MAX_REGIONS"
    and ne: "fr_start r < fr_end r"
    and ab: "a = start_address (fr_start r)" "b = start_address (fr_end r)"
  shows "\<exists>s'. insert_region False limit s r = Inr (max limit b, s') \<and> wf_set s' \<and>
    cover (ivals (live_regions s')) = cover (ivals (live_regions s)) \<union> {a..<b}"
proof -
  define n where "n = rs_count s"
  define i where "i = insert_pos (rs_regions s) n a 0"
  define placed where "placed = (shift_right (rs_regions s) i n)[i := \<lparr>r_start = a, r_end = b\<rparr>]"
  define L where "L = ivals (take i (rs_regions s)) @ (a, b) # ivals (drop i (live_regions s))"
  have lt: "a < b" using ne ab by (simp add: start_address_def)
  have n: "n < MAX_REGIONS" using room n_def by simp
  note pl = insert_placed [OF wf room lt, of i, unfolded i_def n_def, OF refl]
  have L: "ivals (take (Suc n) placed) = L" and srt: "sorted (map fst L)" and le: "i \<le> n"
    using pl by (simp_all add: placed_def L_def i_def n_def)
  have "take i (rs_regions s) @ drop i (live_regions s) = live_regions s"
    using le append_take_drop_id [of i "live_regions s"]
    by (simp add: live_regions_def n_def min_absorb1)
  then have live_iv: "ivals (live_regions s) =
      ivals (take i (rs_regions s)) @ ivals (drop i (live_regions s))"
    by (metis ivals_simps(3))
  have "set L = insert (a, b) (set (ivals (live_regions s)))"
    unfolding L_def by (simp add: live_iv)
  with lt wf have ne_all: "\<forall>(c, d) \<in> set L. c < d" by (auto simp: wf_set_def dest: canon_ge)
  have tail: "drop (Suc n) placed = replicate (MAX_REGIONS - Suc n) EMPTY_REGION"
  proof -
    have "drop (Suc n) placed = drop 1 (drop n (rs_regions s))"
      using drop_shift_place [OF le, of "rs_regions s"] wf n
      by (simp add: placed_def wf_set_def)
    with wf show ?thesis by (simp add: wf_set_def n_def)
  qed
  obtain m w where mw: "merge_loop placed (Suc n) 1 0 = (m, w)" by fastforce
  define s' where "s' = \<lparr>rs_count = Suc w, rs_regions = clear_slots m (Suc w) (Suc n)\<rparr>"
  have "wf_set s' \<and> cover (ivals (live_regions s')) = cover L"
    using merge_clear_wf [OF _ n L srt ne_all tail mw s'_def] wf
    by (simp add: placed_def wf_set_def)
  moreover have "cover L = cover (ivals (live_regions s)) \<union> {a..<b}"
    unfolding L_def by (auto simp: live_iv)
  moreover have "insert_region False limit s r = Inr (max limit b, s')"
    using room mw
    by (simp add: insert_region_def Let_def ab s'_def n_def i_def placed_def)
  ultimately show ?thesis by blast
qed

subsection \<open>Subtraction of the reserved regions\<close>

fun push_all :: "region list \<Rightarrow> ival list \<Rightarrow> region list run" where
  "push_all result [] = Inr result"
| "push_all result ((a, b) # xs) = and_then (push_region result a b) (\<lambda>r. push_all r xs)"

definition regs :: "ival list \<Rightarrow> region list" where
  "regs xs = map (\<lambda>(a, b). \<lparr>r_start = a, r_end = b\<rparr>) xs"

lemma ivals_regs [simp]: "ivals (regs xs) = xs" "length (regs xs) = length xs"
  by (auto simp: ivals_def regs_def comp_def split_def)

lemma push_all_ok:
  "\<forall>(a, b) \<in> set xs. a < b \<Longrightarrow> length result + length xs \<le> MAX_REGIONS \<Longrightarrow>
     push_all result xs = Inr (result @ regs xs)"
  by (induction result xs rule: push_all.induct) (auto simp: push_region_def regs_def)

lemma push_all_append:
  "push_all result (xs @ ys) = and_then (push_all result xs) (\<lambda>r. push_all r ys)"
  by (induction result xs rule: push_all.induct) (auto simp: push_region_def)

text \<open>What is left of one available region, on interval lists.\<close>

fun subtract1 :: "nat \<Rightarrow> nat \<Rightarrow> ival list \<Rightarrow> ival list" where
  "subtract1 a b [] = (if a < b then [(a, b)] else [])"
| "subtract1 a b ((c, d) # rs) =
     (if b \<le> c then (if a < b then [(a, b)] else [])
      else (if a < c then [(a, c)] else []) @ subtract1 (max a (min d b)) b rs)"

definition subtract :: "ival list \<Rightarrow> ival list \<Rightarrow> ival list" where
  "subtract fs rs = concat (map (\<lambda>(a, b). subtract1 a b rs) fs)"

lemma subtract1_empty: "b \<le> a \<Longrightarrow> subtract1 a b rs = []"
  by (induction a b rs rule: subtract1.induct) auto

lemma subtract1_cover:
  "canon lo rs \<Longrightarrow> cover (subtract1 a b rs) = {a..<b} - cover rs"
proof (induction a b rs arbitrary: lo rule: subtract1.induct)
  case (2 a b c d rs)
  have rs: "canon (Suc d) rs" "c < d" using 2 by auto
  then have ge: "\<And>x. x \<in> cover rs \<Longrightarrow> Suc d \<le> x" using canon_cover_ge by blast
  have IH: "\<not> b \<le> c \<Longrightarrow>
      cover (subtract1 (max a (min d b)) b rs) = {max a (min d b)..<b} - cover rs"
    using 2 rs by blast
  show ?case
  proof (rule set_eqI)
    fix x
    show "x \<in> cover (subtract1 a b ((c, d) # rs)) \<longleftrightarrow> x \<in> {a..<b} - cover ((c, d) # rs)"
      using ge [of x] rs IH by (cases "x \<in> cover rs"; cases "b \<le> c") auto
  qed
qed auto

lemma subtract1_bounds:
  "canon lo rs \<Longrightarrow> (x, y) \<in> set (subtract1 a b rs) \<Longrightarrow> a \<le> x \<and> x < y \<and> y \<le> b"
  by (induction a b rs arbitrary: lo rule: subtract1.induct) (fastforce split: if_splits)+

lemma subtract1_canon: "canon lo rs \<Longrightarrow> l \<le> a \<Longrightarrow> canon l (subtract1 a b rs)"
proof (induction a b rs arbitrary: lo l rule: subtract1.induct)
  case (2 a b c d rs)
  show ?case
  proof (cases "b \<le> c")
    case False
    have "canon (Suc c) (subtract1 (max a (min d b)) b rs)"
      if "a < c" using 2 False that by auto
    moreover have "canon l (subtract1 (max a (min d b)) b rs)"
      using 2 False by auto
    ultimately show ?thesis using False 2 by auto
  qed (use 2 in auto)
qed auto

lemma subtract1_skip: "canon lo ((c, d) # rs) \<Longrightarrow> d \<le> a \<Longrightarrow> subtract1 a b ((c, d) # rs) = subtract1 a b rs"
  by (cases "a < b") (auto simp: subtract1_empty max_def min_def)

lemma subtract_canon: "canon lo fs \<Longrightarrow> canon lo' rs \<Longrightarrow> canon lo (subtract fs rs)"
proof (induction lo fs rule: canon.induct)
  case (2 lo a b fs)
  have "canon (Suc b) (subtract fs rs)" using 2 by simp
  moreover have "\<forall>(x, y) \<in> set (subtract1 a b rs). y \<le> b"
    using subtract1_bounds 2 by fastforce
  moreover have "canon lo (subtract1 a b rs)" using 2 by (auto intro: subtract1_canon)
  ultimately show ?case using 2 unfolding subtract_def by (auto intro!: canon_append_ub)
qed (simp add: subtract_def)

lemma subtract_cover: "canon lo rs \<Longrightarrow> cover (subtract fs rs) = cover fs - cover rs"
proof (induction fs)
  case (Cons f fs)
  then have "cover (subtract1 (fst f) (snd f) rs) = {fst f..<snd f} - cover rs"
    by (simp add: subtract1_cover)
  with Cons show ?case by (auto simp: subtract_def split_def)
qed (simp add: subtract_def)

lemma subtract1_starts:
  "fst ` set (subtract1 a b rs) \<subseteq> insert a (snd ` set rs)"
proof (induction a b rs rule: subtract1.induct)
  case (2 a b c d rs)
  show ?case
  proof (cases "b \<le> c")
    case False
    have "max a (min d b) \<in> {a, d, b}" by (auto simp: max_def min_def)
    then have "fst ` set (subtract1 (max a (min d b)) b rs) \<subseteq> insert a (insert d (snd ` set rs))"
      using "2.IH" [OF False] by (auto simp: subtract1_empty)
    with False show ?thesis by auto
  qed auto
qed auto

lemma length_subtract:
  assumes "canon lo fs" and "canon lo' rs"
  shows "length (subtract fs rs) \<le> length fs + length rs"
proof -
  have sub: "fst ` set (subtract fs rs) \<subseteq> fst ` set fs \<union> snd ` set rs"
  proof
    fix x
    assume "x \<in> fst ` set (subtract fs rs)"
    then obtain a b where ab: "(a, b) \<in> set fs" and x: "x \<in> fst ` set (subtract1 a b rs)"
      by (auto simp: subtract_def)
    from x have "x \<in> insert a (snd ` set rs)" using subtract1_starts by blast
    with ab show "x \<in> fst ` set fs \<union> snd ` set rs" by force
  qed
  have "length (subtract fs rs) = card (set (map fst (subtract fs rs)))"
    using distinct_card [OF canon_distinct [OF subtract_canon [OF assms]]] by simp
  also have "\<dots> \<le> card (fst ` set fs \<union> snd ` set rs)"
    using sub by (intro card_mono) simp_all
  also have "\<dots> \<le> card (fst ` set fs) + card (snd ` set rs)" by (rule card_Un_le)
  also have "\<dots> \<le> length fs + length rs"
    by (intro add_mono order_trans [OF card_image_le card_length]) simp_all
  finally show ?thesis .
qed

text \<open>The code's loops compute exactly the pushes of \<open>subtract\<close>.\<close>

definition finish_region :: "region \<Rightarrow> nat \<times> region list \<Rightarrow> region list run" where
  "finish_region f = (\<lambda>(cur, result).
     if cur < r_end f then push_region result cur (r_end f) else Inr result)"

lemma scan_reserved_push:
  "n \<le> length res \<Longrightarrow> cur \<le> r_end f \<Longrightarrow>
   and_then (scan_reserved res n f k cur result) (finish_region f) =
     push_all result (subtract1 cur (r_end f) (ivals (drop k (take n res))))"
proof (induction res n f k cur result rule: scan_reserved.induct)
  case (1 res n f k cur result)
  show ?case
  proof (cases "k < n")
    case False
    then show ?thesis
      by (auto simp: scan_reserved.simps [of res n f k] finish_region_def push_region_def)
  next
    case True
    have split: "ivals (drop k (take n res)) =
        (r_start (res ! k), r_end (res ! k)) # ivals (drop (Suc k) (take n res))"
      using Cons_nth_drop_Suc [of k "take n res"] True "1.prems" by (simp flip: ivals_simps(2))
    show ?thesis
    proof (cases "r_start (res ! k) \<ge> r_end f")
      case ge: True
      then show ?thesis using True unfolding split
        by (auto simp: scan_reserved.simps [of res n f k] finish_region_def push_region_def Let_def)
    next
      case lt: False
      let ?gap = "if cur < r_start (res ! k)
          then push_region result cur (if r_start (res ! k) < r_end f then r_start (res ! k) else r_end f)
          else Inr result"
      let ?cur = "if r_end (res ! k) > cur
          then (if r_end (res ! k) > r_end f then r_end f else r_end (res ! k)) else cur"
      have cur: "?cur = max cur (min (r_end (res ! k)) (r_end f))" and le: "?cur \<le> r_end f"
        using "1.prems"(2) by auto
      have gap: "?gap = push_all result (if cur < r_start (res ! k) then [(cur, r_start (res ! k))] else [])"
        using lt by (auto simp: push_region_def)
      have IH: "and_then (if ?cur \<ge> r_end f then Inr (?cur, r) else scan_reserved res n f (k + 1) ?cur r)
            (finish_region f) =
          push_all r (subtract1 ?cur (r_end f) (ivals (drop (Suc k) (take n res))))"
        if "?gap = Inr r" for r
      proof (cases "?cur \<ge> r_end f")
        case True
        then show ?thesis by (simp add: finish_region_def subtract1_empty)
      next
        case False
        with "1.IH" [OF True refl lt that refl False "1.prems"(1) le] show ?thesis by simp
      qed
      have "and_then (scan_reserved res n f k cur result) (finish_region f) =
          and_then ?gap (\<lambda>r. push_all r (subtract1 ?cur (r_end f) (ivals (drop (Suc k) (take n res)))))"
        using True lt IH by (cases ?gap) (simp_all add: scan_reserved.simps [of res n f k cur] Let_def)
      then show ?thesis
        unfolding gap split cur using lt by (simp add: push_all_append)
    qed
  qed
qed

lemma skip_reserved_bounds:
  "i \<le> skip_reserved res n fs i \<and> (i \<le> n \<longrightarrow> skip_reserved res n fs i \<le> n)"
proof (induction res n fs i rule: skip_reserved.induct)
  case (1 res n fs i)
  then show ?case
    by (cases "i < n \<and> r_end (res ! i) \<le> fs") (auto simp: skip_reserved.simps [of res n fs i])
qed

lemma skip_reserved_below:
  "i \<le> j \<Longrightarrow> j < skip_reserved res n fs i \<Longrightarrow> r_end (res ! j) \<le> fs"
proof (induction res n fs i rule: skip_reserved.induct)
  case (1 res n fs i)
  show ?case
  proof (cases "i < n \<and> r_end (res ! i) \<le> fs")
    case True
    with 1 show ?thesis by (cases "i = j") (auto simp: skip_reserved.simps [of res n fs i])
  next
    case False
    with 1 show ?thesis by (auto simp: skip_reserved.simps [of res n fs i])
  qed
qed

lemma subtract1_drop:
  "canon lo rs \<Longrightarrow> k \<le> length rs \<Longrightarrow> \<forall>j < k. snd (rs ! j) \<le> a \<Longrightarrow>
     subtract1 a b (drop k rs) = subtract1 a b rs"
proof (induction k arbitrary: lo rs)
  case (Suc k)
  then obtain c d rs' where rs: "rs = (c, d) # rs'" by (cases rs) auto
  have "\<forall>j < k. snd (rs' ! j) \<le> a" using Suc.prems(3) rs by (metis Suc_less_eq nth_Cons_Suc)
  then have "subtract1 a b (drop k rs') = subtract1 a b rs'"
    using Suc rs by auto
  moreover have "d \<le> a" using Suc.prems(3) rs by fastforce
  ultimately show ?case using subtract1_skip [of lo c d rs' a b] Suc.prems rs by simp
qed simp

lemma avail_loop_push:
  "na \<le> length av \<Longrightarrow> nr \<le> length res \<Longrightarrow> canon lo (ivals (take nr res)) \<Longrightarrow>
   canon lo' (ivals (drop fi (take na av))) \<Longrightarrow> ri \<le> nr \<Longrightarrow>
   \<forall>f \<in> set (drop fi (take na av)). \<forall>j < ri. r_end (res ! j) \<le> r_start f \<Longrightarrow>
     avail_loop av na res nr fi ri result =
       push_all result (subtract (ivals (drop fi (take na av))) (ivals (take nr res)))"
proof (induction "na - fi" arbitrary: fi ri result lo')
  case 0
  then show ?case by (simp add: avail_loop.simps [of av na res nr fi] subtract_def)
next
  case (Suc n)
  show ?case
  proof -
    have True: "fi < na" using Suc.hyps(2) by simp
    let ?f = "av ! fi" and ?rest = "drop (Suc fi) (take na av)"
    let ?ri = "skip_reserved res nr (r_start ?f) ri"
    let ?rs = "ivals (take nr res)"
    have split: "drop fi (take na av) = ?f # ?rest"
      using Cons_nth_drop_Suc [of fi "take na av"] True Suc.prems(1) by simp
    have f: "r_start ?f < r_end ?f" "canon (Suc (r_end ?f)) (ivals ?rest)"
      using Suc.prems(4) unfolding split by auto
    have ri: "ri \<le> ?ri" "?ri \<le> nr" using skip_reserved_bounds Suc.prems(5) by auto
    have below: "\<forall>j < ?ri. r_end (res ! j) \<le> r_start ?f"
      using Suc.prems(6) skip_reserved_below [of ri _ res nr "r_start ?f"] unfolding split
      by (metis list.set_intros(1) not_le)
    have rest: "\<forall>g \<in> set ?rest. \<forall>j < ?ri. r_end (res ! j) \<le> r_start g"
    proof (intro ballI allI impI)
      fix g j
      assume "g \<in> set ?rest" and j: "j < ?ri"
      then have "(r_start g, r_end g) \<in> set (ivals ?rest)" by (auto simp: ivals_def)
      then have "Suc (r_end ?f) \<le> r_start g" using canon_ge f(2) by blast
      with below j f(1) show "r_end (res ! j) \<le> r_start g" by fastforce
    qed
    have one: "and_then (scan_reserved res nr ?f ?ri (r_start ?f) result) (finish_region ?f) =
        push_all result (subtract1 (r_start ?f) (r_end ?f) ?rs)"
    proof -
      have "subtract1 (r_start ?f) (r_end ?f) (drop ?ri ?rs) = subtract1 (r_start ?f) (r_end ?f) ?rs"
        using below ri Suc.prems(2,3) by (intro subtract1_drop) (auto simp: ivals_def)
      then show ?thesis
        using scan_reserved_push [of nr res "r_start ?f" ?f ?ri result] f Suc.prems(2)
        by (simp add: ivals_def drop_map)
    qed
    have "avail_loop av na res nr fi ri result =
        and_then (and_then (scan_reserved res nr ?f ?ri (r_start ?f) result) (finish_region ?f))
          (\<lambda>r. avail_loop av na res nr (fi + 1) ?ri r)"
      using True f(1)
      by (cases "scan_reserved res nr ?f ?ri (r_start ?f) result")
        (auto simp: avail_loop.simps [of av na res nr fi] Let_def finish_region_def)
    also have "\<dots> = and_then (push_all result (subtract1 (r_start ?f) (r_end ?f) ?rs))
          (\<lambda>r. push_all r (subtract (ivals ?rest) ?rs))"
    proof -
      have "avail_loop av na res nr (fi + 1) ?ri r = push_all r (subtract (ivals ?rest) ?rs)" for r
        using Suc.hyps(1) [of "fi + 1" "Suc (r_end ?f)" ?ri r] Suc.hyps(2) Suc.prems(1-3) f(2) ri(2) rest
        by simp
      then show ?thesis unfolding one by simp
    qed
    finally show ?thesis unfolding split by (simp add: subtract_def push_all_append)
  qed
qed

lemma length_ivals [simp]: "length (ivals rs) = length rs"
  by (simp add: ivals_def)

text \<open>The tail of \<open>finalize_reserved_regions\<close> after its loop.\<close>

definition finish_complement :: "nat \<Rightarrow> nat \<times> region list \<Rightarrow> region list run" where
  "finish_complement limit = (\<lambda>(cur, out).
     if cur < limit then
       (if length out \<ge> MAX_REGIONS
        then Inl (PanicMsg ''too many regions after finalization'')
        else Inr (out @ [\<lparr>r_start = cur, r_end = limit\<rparr>]))
     else Inr out)"

lemma complement_loop_push:
  "canon lo (ivals rgs) \<Longrightarrow> cover (ivals rgs) \<subseteq> {..<limit} \<Longrightarrow> cur \<le> limit \<Longrightarrow>
     and_then (complement_loop limit rgs cur out) (finish_complement limit) =
       push_all out (subtract1 cur limit (ivals rgs))"
proof (induction limit rgs cur out arbitrary: lo rule: complement_loop.induct)
  case (1 limit cur out)
  then show ?case by (auto simp: finish_complement_def push_region_def)
next
  case (2 limit rg rgs cur out)
  have rg: "r_start rg < r_end rg" "canon (Suc (r_end rg)) (ivals rgs)" using "2.prems"(1) by auto
  have "r_end rg - 1 \<in> cover (ivals (rg # rgs))" using rg(1) by auto
  then have le: "r_end rg \<le> limit" using "2.prems"(2) by fastforce
  have IH: "and_then (complement_loop limit rgs (if r_end rg > cur then r_end rg else cur) out')
      (finish_complement limit) = push_all out' (subtract1 (max cur (r_end rg)) limit (ivals rgs))"
    if "(if cur < r_start rg
          then (if length out \<ge> MAX_REGIONS
                then Inl (PanicMsg ''too many regions after finalization'')
                else Inr (out @ [\<lparr>r_start = cur, r_end = r_start rg\<rparr>]))
          else Inr out) = Inr out'" for out'
    using "2.IH" [OF _ _ that rg(2)] "2.prems" le rg(1) by (auto simp: max_def)
  show ?case
  proof (cases "cur < r_start rg")
    case True
    then show ?thesis using IH le rg(1) by (auto simp: push_region_def min_def)
  next
    case False
    then show ?thesis using IH le rg(1) by (cases "cur = limit") (auto simp: subtract1_empty max_def)
  qed
qed

lemma ivals_fill_slots [simp]:
  "live_regions (fill_slots xs) = xs" "rs_count (fill_slots xs) = length xs"
  by (auto simp: fill_slots_def live_regions_def)

lemma wf_fill_slots:
  "canon 0 (ivals xs) \<Longrightarrow> length xs \<le> MAX_REGIONS \<Longrightarrow> wf_set (fill_slots xs)"
  by (auto simp: wf_set_def) (auto simp: fill_slots_def)

text \<open>The bytes of the live regions of a set.\<close>

definition bytes_of :: "region_set \<Rightarrow> nat set" where
  "bytes_of s = cover (ivals (live_regions s))"

lemma wf_set_ivals:
  "wf_set s \<Longrightarrow> canon 0 (ivals (live_regions s)) \<and> length (ivals (live_regions s)) = rs_count s"
  by (auto simp: wf_set_def live_regions_def)

lemma push_all_result:
  "\<forall>(a, b) \<in> set xs. a < b \<Longrightarrow> push_all result xs = Inr r \<Longrightarrow> length result \<le> MAX_REGIONS \<Longrightarrow>
     r = result @ regs xs \<and> length r \<le> MAX_REGIONS"
  by (induction result xs rule: push_all.induct)
    (auto simp: push_region_def regs_def and_then_Inr_iff split: if_splits)

lemma push_all_canon:
  assumes "canon 0 xs"
  shows "push_all [] xs = Inr r \<Longrightarrow>
      wf_set (fill_slots r) \<and> bytes_of (fill_slots r) = cover xs \<and> rs_count (fill_slots r) = length xs"
    and "length xs \<le> MAX_REGIONS \<Longrightarrow> \<exists>r. push_all [] xs = Inr r"
proof -
  have pos: "\<forall>(a, b) \<in> set xs. a < b" using canon_ge assms by blast
  show "wf_set (fill_slots r) \<and> bytes_of (fill_slots r) = cover xs \<and> rs_count (fill_slots r) = length xs"
    if "push_all [] xs = Inr r"
    using push_all_result [OF pos that] assms by (auto simp: wf_fill_slots bytes_of_def)
  show "\<exists>r. push_all [] xs = Inr r" if "length xs \<le> MAX_REGIONS"
    using push_all_ok [OF pos, of "[]"] that by simp
qed

lemma finalize_available_push:
  assumes wf: "wf_set (AVAILABLE_REGIONS d)" "wf_set (RESERVED_REGIONS d)"
    and fresh: "\<not> DRAM_FINALIZED d"
  shows "finalize_available_regions d =
    and_then (push_all [] (subtract (ivals (live_regions (AVAILABLE_REGIONS d)))
                             (ivals (live_regions (RESERVED_REGIONS d)))))
      (\<lambda>r. Inr (d\<lparr>DRAM_FINALIZED := True, AVAILABLE_REGIONS := fill_slots r\<rparr>))"
  using avail_loop_push [of "rs_count (AVAILABLE_REGIONS d)" "rs_regions (AVAILABLE_REGIONS d)"
      "rs_count (RESERVED_REGIONS d)" "rs_regions (RESERVED_REGIONS d)" 0 0 0 0 "[]"] wf fresh
  by (simp add: finalize_available_regions_def wf_set_def live_regions_def)

lemma finalize_reserved_push:
  assumes wf: "wf_set (AVAILABLE_REGIONS d)" and fin: "DRAM_FINALIZED d"
    and sub: "bytes_of (AVAILABLE_REGIONS d) \<subseteq> {..<DRAM_LIMIT d}"
  shows "finalize_reserved_regions d =
    and_then (push_all [] (subtract1 0 (DRAM_LIMIT d) (ivals (live_regions (AVAILABLE_REGIONS d)))))
      (\<lambda>r. Inr (d\<lparr>RESERVED_REGIONS := fill_slots r\<rparr>))"
proof (cases "DRAM_LIMIT d = 0")
  case True
  then show ?thesis using assms
    by (simp add: finalize_reserved_regions_def wf_set_def subtract1_empty fill_slots_def
        EMPTY_REGION_SET_def)
next
  case False
  let ?loop = "complement_loop (DRAM_LIMIT d) (live_regions (AVAILABLE_REGIONS d)) 0 []"
  have "push_all [] (subtract1 0 (DRAM_LIMIT d) (ivals (live_regions (AVAILABLE_REGIONS d)))) =
      and_then ?loop (finish_complement (DRAM_LIMIT d))"
    using complement_loop_push [of 0 "live_regions (AVAILABLE_REGIONS d)" "DRAM_LIMIT d" 0 "[]"]
      wf_set_ivals [OF wf] sub by (simp add: bytes_of_def)
  with False assms show ?thesis
    by (cases ?loop)
      (auto simp: finalize_reserved_regions_def finish_complement_def wf_set_def split: if_splits)
qed

lemma finalize_refines:
  assumes wf: "wf_set (AVAILABLE_REGIONS d)" "wf_set (RESERVED_REGIONS d)"
    and sub: "bytes_of (AVAILABLE_REGIONS d) \<subseteq> {..<DRAM_LIMIT d}"
    and fin: "finalize d = Inr d'"
  shows "DRAM_FINALIZED d' \<and> DRAM_LIMIT d' = DRAM_LIMIT d \<and>
    wf_set (AVAILABLE_REGIONS d') \<and> wf_set (RESERVED_REGIONS d') \<and>
    bytes_of (AVAILABLE_REGIONS d') = bytes_of (AVAILABLE_REGIONS d) - bytes_of (RESERVED_REGIONS d) \<and>
    bytes_of (RESERVED_REGIONS d') = {..<DRAM_LIMIT d} - bytes_of (AVAILABLE_REGIONS d')"
proof -
  let ?a = "ivals (live_regions (AVAILABLE_REGIONS d))"
  let ?r = "ivals (live_regions (RESERVED_REGIONS d))"
  have c: "canon 0 ?a" "canon 0 ?r" using wf wf_set_ivals by auto
  have fresh: "\<not> DRAM_FINALIZED d"
    using fin by (auto simp: finalize_def finalize_available_regions_def)
  obtain r where r: "push_all [] (subtract ?a ?r) = Inr r"
    and fr: "finalize_reserved_regions
      (d\<lparr>DRAM_FINALIZED := True, AVAILABLE_REGIONS := fill_slots r\<rparr>) = Inr d'"
    using fin unfolding finalize_def finalize_available_push [OF wf fresh] by (auto simp: and_then_Inr_iff)
  let ?s = "fill_slots r"
  have s: "wf_set ?s" "bytes_of ?s = bytes_of (AVAILABLE_REGIONS d) - bytes_of (RESERVED_REGIONS d)"
    using push_all_canon(1) [OF subtract_canon [OF c] r] subtract_cover [OF c(2), of ?a]
    by (simp_all add: bytes_of_def)
  let ?e = "d\<lparr>DRAM_FINALIZED := True, AVAILABLE_REGIONS := ?s\<rparr>"
  have eq: "finalize_reserved_regions ?e =
      and_then (push_all [] (subtract1 0 (DRAM_LIMIT d) (ivals (live_regions ?s))))
        (\<lambda>q. Inr (?e\<lparr>RESERVED_REGIONS := fill_slots q\<rparr>))"
    using finalize_reserved_push [of ?e] s sub by auto
  obtain q where q: "push_all [] (subtract1 0 (DRAM_LIMIT d) (ivals (live_regions ?s))) = Inr q"
    and d': "d' = ?e\<lparr>RESERVED_REGIONS := fill_slots q\<rparr>"
    using trans [OF eq [symmetric] fr] by (auto simp: and_then_Inr_iff)
  have cs: "canon 0 (ivals (live_regions ?s))" using wf_set_ivals s(1) by blast
  have "wf_set (fill_slots q) \<and> bytes_of (fill_slots q) = {..<DRAM_LIMIT d} - bytes_of ?s"
    using push_all_canon(1) [OF subtract1_canon [OF cs, of 0 0 "DRAM_LIMIT d"] q]
      subtract1_cover [OF cs, of 0 "DRAM_LIMIT d"] by (auto simp: bytes_of_def lessThan_atLeast0)
  then show ?thesis using s d' by simp
qed

lemma finalize_total:
  assumes wf: "wf_set (AVAILABLE_REGIONS d)" "wf_set (RESERVED_REGIONS d)"
    and sub: "bytes_of (AVAILABLE_REGIONS d) \<subseteq> {..<DRAM_LIMIT d}"
    and fresh: "\<not> DRAM_FINALIZED d"
    and room: "rs_count (AVAILABLE_REGIONS d) + rs_count (RESERVED_REGIONS d) < MAX_REGIONS"
  shows "\<exists>d'. finalize d = Inr d'"
proof -
  let ?a = "ivals (live_regions (AVAILABLE_REGIONS d))"
  let ?r = "ivals (live_regions (RESERVED_REGIONS d))"
  have c: "canon 0 ?a" "canon 0 ?r" and len: "length ?a + length ?r < MAX_REGIONS"
    using wf wf_set_ivals room by auto
  have ls: "length (subtract ?a ?r) < MAX_REGIONS" using length_subtract [OF c] len by linarith
  obtain r where r: "push_all [] (subtract ?a ?r) = Inr r"
    using push_all_canon(2) [OF subtract_canon [OF c]] ls by auto
  have s: "wf_set (fill_slots r)" "bytes_of (fill_slots r) \<subseteq> {..<DRAM_LIMIT d}"
    "rs_count (fill_slots r) < MAX_REGIONS"
    using push_all_canon(1) [OF subtract_canon [OF c] r] subtract_cover [OF c(2), of ?a] sub ls
    by (auto simp: bytes_of_def)
  let ?xs = "subtract1 0 (DRAM_LIMIT d) (ivals (live_regions (fill_slots r)))"
  have cs: "canon 0 (ivals (live_regions (fill_slots r)))" using wf_set_ivals s(1) by blast
  have "length ?xs \<le> MAX_REGIONS"
    using length_subtract [of 0 "[(0, DRAM_LIMIT d)]" 0 "ivals (live_regions (fill_slots r))"] cs s(3)
    by (cases "DRAM_LIMIT d = 0") (auto simp: subtract_def subtract1_empty)
  then obtain q where "push_all [] ?xs = Inr q"
    using push_all_canon(2) [OF subtract1_canon [OF cs]] by blast
  then show ?thesis
    using finalize_reserved_push [of "d\<lparr>DRAM_FINALIZED := True, AVAILABLE_REGIONS := fill_slots r\<rparr>"] s
    unfolding finalize_def finalize_available_push [OF wf fresh] r by simp
qed

text \<open>
  A set of bytes made of whole pages. Closed under union and difference, and a canonical
  list with such a cover has page-aligned ends: this is how the alignment that
  \<open>boot_alloc\<close> asserts is carried through every operation.
\<close>

definition paged :: "nat set \<Rightarrow> bool" where
  "paged S \<longleftrightarrow> (\<forall>x y. x div PAGE_SIZE = y div PAGE_SIZE \<longrightarrow> x \<in> S \<longrightarrow> y \<in> S)"

lemma paged_ops [intro]:
  "paged {}" "paged A \<Longrightarrow> paged B \<Longrightarrow> paged (A \<union> B)" "paged A \<Longrightarrow> paged B \<Longrightarrow> paged (A - B)"
  unfolding paged_def by (blast, blast, metis Diff_iff)

lemma paged_range [intro]: "paged {m * PAGE_SIZE..<n * PAGE_SIZE}"
proof -
  have "m * PAGE_SIZE \<le> x \<longleftrightarrow> m \<le> x div PAGE_SIZE" "x < n * PAGE_SIZE \<longleftrightarrow> x div PAGE_SIZE < n" for x
    by (auto simp: less_eq_div_iff_mult_less_eq div_less_iff_less_mult)
  then show ?thesis by (simp add: paged_def)
qed

lemma mod_pred_page: "x mod PAGE_SIZE \<noteq> 0 \<Longrightarrow> (x - 1) div PAGE_SIZE = x div PAGE_SIZE"
  by (metis Suc_pred' bot_nat_0.not_eq_extremum div_Suc mod_0 )

lemma canon_paged_aligned:
  assumes "canon lo xs" and "paged (cover xs)" and "(a, b) \<in> set xs"
  shows "a mod PAGE_SIZE = 0 \<and> b mod PAGE_SIZE = 0"
proof -
  note bd = canon_boundary [OF assms(1,3)]
  have ab: "a < b" using canon_ge [OF assms(1,3)] by simp
  have pg: "x div PAGE_SIZE = y div PAGE_SIZE \<Longrightarrow> x \<in> cover xs \<Longrightarrow> y \<in> cover xs" for x y
    using assms(2) unfolding paged_def by blast
  have "a mod PAGE_SIZE = 0"
  proof (rule ccontr)
    assume "a mod PAGE_SIZE \<noteq> 0"
    moreover from this have "0 < a" by (cases a) auto
    ultimately show False using pg [of a "a - 1"] mod_pred_page [of a] bd ab by auto
  qed
  moreover have "b mod PAGE_SIZE = 0"
  proof (rule ccontr)
    assume "b mod PAGE_SIZE \<noteq> 0"
    moreover have "b - 1 \<in> cover xs" using bd ab by auto
    ultimately show False using pg [of "b - 1" b] mod_pred_page [of b] bd by auto
  qed
  ultimately show ?thesis ..
qed

subsection \<open>The boot allocator\<close>

lemma length_shift_left [simp]: "length (shift_left rs j hi) = length rs"
proof (induction rs j hi rule: shift_left.induct)
  case (1 rs j hi)
  then show ?case by (cases "j < hi") (auto simp: shift_left.simps [of rs j hi])
qed

lemma nth_shift_left:
  "hi < length rs \<Longrightarrow> m < length rs \<Longrightarrow>
     shift_left rs j hi ! m = (if j \<le> m \<and> m < hi then rs ! (m + 1) else rs ! m)"
proof (induction rs j hi rule: shift_left.induct)
  case (1 rs j hi)
  then show ?case
    by (cases "j < hi") (auto simp: shift_left.simps [of rs j hi] nth_list_update)
qed

lemma take_shift_left:
  assumes "i < n" and "n \<le> length rs"
  shows "take (n - 1) ((shift_left rs i (n - 1))[n - 1 := e]) =
           take i rs @ drop (Suc i) (take n rs)"
  using assms by (intro nth_equalityI) (auto simp: nth_shift_left nth_append split: if_splits)

lemma boot_alloc_loop_skip:
  assumes "i \<le> k" and "k \<le> rs_count s"
    and "\<And>j. i \<le> j \<Longrightarrow> j < k \<Longrightarrow> r_start (rs_regions s ! j) < r_end (rs_regions s ! j) \<and>
      r_start (rs_regions s ! j) mod PAGE_SIZE = 0 \<and> r_end (rs_regions s ! j) mod PAGE_SIZE = 0 \<and>
      r_end (rs_regions s ! j) - r_start (rs_regions s ! j) < n"
  shows "boot_alloc_loop s n i = boot_alloc_loop s n k"
  using assms
proof (induction "k - i" arbitrary: i)
  case (Suc m)
  then have "i < rs_count s" by simp
  then have "boot_alloc_loop s n i = boot_alloc_loop s n (i + 1)"
    using Suc.prems(3) [of i] Suc.hyps(2) by (simp add: boot_alloc_loop.simps [of s n i] Let_def)
  then show ?case using Suc by simp
qed simp

text \<open>Taking the first \<open>n\<close> bytes of one interval of a canonical list.\<close>

lemma carve_canon:
  assumes "canon lo (xs @ (a, b) # ys)" and "a + n \<le> b"
  shows "canon lo (xs @ (if a + n = b then [] else [(a + n, b)]) @ ys)"
  using assms canon_mono [of "Suc b" ys] by (auto simp: canon_append)

lemma carve_cover:
  assumes "canon lo (xs @ (a, b) # ys)" and "a + n \<le> b"
  shows "cover (xs @ (if a + n = b then [] else [(a + n, b)]) @ ys) =
    cover (xs @ (a, b) # ys) - {a..<a + n}"
proof -
  have p: "p < a" if "p \<in> cover xs" for p using canon_prefix_below [OF assms(1) that] .
  have "canon (Suc b) ys" using assms(1) by (simp add: canon_append)
  then have q: "Suc b \<le> p" if "p \<in> cover ys" for p using canon_cover_ge that by blast
  have "cover xs \<inter> {a..<a + n} = {}" "cover ys \<inter> {a..<a + n} = {}"
    using p q assms(2) by fastforce+
  moreover have "{a..<b} - {a..<a + n} = (if a + n = b then {} else {a + n..<b})"
    using assms(2) by auto
  ultimately show ?thesis by auto
qed

lemma live_region_aligned:
  assumes "wf_set s" and "paged (bytes_of s)" and "r \<in> set (live_regions s)"
  shows "r_start r < r_end r \<and> r_start r mod PAGE_SIZE = 0 \<and> r_end r mod PAGE_SIZE = 0"
proof -
  have mem: "(r_start r, r_end r) \<in> set (ivals (live_regions s))"
    using assms(3) by (auto simp: ivals_def)
  have c: "canon 0 (ivals (live_regions s))" using assms(1) by (simp add: wf_set_def)
  show ?thesis
    using canon_ge [OF c mem] canon_paged_aligned [OF c _ mem] assms(2) by (simp add: bytes_of_def)
qed

lemma live_regions_nth: "j < rs_count s \<Longrightarrow> live_regions s ! j = rs_regions s ! j"
  by (simp add: live_regions_def)

lemma live_regions_in: "wf_set s \<Longrightarrow> j < rs_count s \<Longrightarrow> rs_regions s ! j \<in> set (live_regions s)"
  by (auto simp: live_regions_def wf_set_def in_set_conv_nth)

lemma boot_alloc_loop_none:
  assumes wf: "wf_set s" and pg: "paged (bytes_of s)"
    and small: "\<forall>r \<in> set (live_regions s). r_end r - r_start r < n"
  shows "boot_alloc_loop s n 0 = Inr (None, s)"
proof -
  have "boot_alloc_loop s n 0 = boot_alloc_loop s n (rs_count s)"
    using live_region_aligned [OF wf pg] small wf
    by (intro boot_alloc_loop_skip) (auto dest: live_regions_in)
  then show ?thesis by (simp add: boot_alloc_loop.simps [of s n "rs_count s"])
qed

lemma find_Some_first:
  "find P xs = Some x \<Longrightarrow> \<exists>k < length xs. xs ! k = x \<and> P x \<and> (\<forall>j < k. \<not> P (xs ! j))"
  by (auto simp: find_Some_iff)

text \<open>The set after \<open>boot_alloc\<close> took \<open>n\<close> bytes from slot \<open>k\<close>.\<close>

definition carved :: "region_set \<Rightarrow> nat \<Rightarrow> nat \<Rightarrow> region_set" where
  "carved s n k =
     (let rg = rs_regions s ! k in
      if r_start rg + n = r_end rg
      then \<lparr>rs_count = rs_count s - 1,
            rs_regions = (shift_left (rs_regions s) k (rs_count s - 1))[rs_count s - 1 := EMPTY_REGION]\<rparr>
      else s\<lparr>rs_regions := (rs_regions s)[k := rg\<lparr>r_start := r_start rg + n\<rparr>]\<rparr>)"

lemma boot_alloc_loop_some:
  assumes wf: "wf_set s" and pg: "paged (bytes_of s)" and k: "k < rs_count s"
    and fits: "r_start (rs_regions s ! k) + n \<le> r_end (rs_regions s ! k)"
    and first: "\<forall>j < k. r_end (rs_regions s ! j) - r_start (rs_regions s ! j) < n"
    and small: "r_end (rs_regions s ! k) < 2 ^ 64"
  shows "boot_alloc_loop s n 0 = Inr (Some \<lparr>fr_start = r_start (rs_regions s ! k) div PAGE_SIZE,
      fr_end = (r_start (rs_regions s ! k) + n) div PAGE_SIZE\<rparr>, carved s n k)"
proof -
  have al: "r_start (rs_regions s ! j) < r_end (rs_regions s ! j) \<and>
      r_start (rs_regions s ! j) mod PAGE_SIZE = 0 \<and> r_end (rs_regions s ! j) mod PAGE_SIZE = 0"
    if "j \<le> k" for j
    using live_region_aligned [OF wf pg] live_regions_in [OF wf, of j] that k by simp
  have "boot_alloc_loop s n 0 = boot_alloc_loop s n k"
    using k first al by (intro boot_alloc_loop_skip) auto
  also have "\<dots> = Inr (Some \<lparr>fr_start = r_start (rs_regions s ! k) div PAGE_SIZE,
      fr_end = (r_start (rs_regions s ! k) + n) div PAGE_SIZE\<rparr>, carved s n k)"
    using k al [of k] fits small
    by (auto simp: boot_alloc_loop.simps [of s n k] Let_def carved_def)
  finally show ?thesis .
qed

lemma carved_refines:
  assumes wf: "wf_set s" and k: "k < rs_count s" and rg: "rs_regions s ! k = \<lparr>r_start = a, r_end = b\<rparr>"
    and fits: "a + n \<le> b"
  shows "wf_set (carved s n k)" and "bytes_of (carved s n k) = bytes_of s - {a..<a + n}"
proof -
  let ?p = "ivals (take k (rs_regions s))" and ?q = "ivals (drop (Suc k) (live_regions s))"
  have len: "rs_count s \<le> length (rs_regions s)" using wf by (simp add: wf_set_def)
  have live: "ivals (live_regions s) = ?p @ (a, b) # ?q"
  proof -
    have "live_regions s = take k (rs_regions s) @ rs_regions s ! k # drop (Suc k) (live_regions s)"
      using id_take_nth_drop [of k "live_regions s"] k len
      by (simp add: live_regions_def min_absorb1)
    then have "ivals (live_regions s) =
        ivals (take k (rs_regions s) @ rs_regions s ! k # drop (Suc k) (live_regions s))"
      by (rule arg_cong)
    then show ?thesis by (simp add: rg)
  qed
  have new: "ivals (live_regions (carved s n k)) = ?p @ (if a + n = b then [] else [(a + n, b)]) @ ?q"
  proof (cases "a + n = b")
    case True
    then show ?thesis using take_shift_left [OF k len]
      by (simp add: carved_def rg live_regions_def)
  next
    case False
    have "take (rs_count s) ((rs_regions s)[k := r]) =
        take k (rs_regions s) @ r # drop (Suc k) (live_regions s)" for r
      using upd_conv_take_nth_drop [of k "live_regions s" r] k len
      by (simp add: take_update_swap live_regions_def min_absorb1)
    with False show ?thesis by (simp add: carved_def rg live_regions_def)
  qed
  have c: "canon 0 (?p @ (a, b) # ?q)" using wf live by (simp add: wf_set_def)
  have "drop (rs_count (carved s n k)) (rs_regions (carved s n k)) =
      replicate (MAX_REGIONS - rs_count (carved s n k)) EMPTY_REGION"
  proof (cases "a + n = b")
    case True
    have "drop (rs_count s - 1) ((shift_left (rs_regions s) k (rs_count s - 1))[rs_count s - 1 := EMPTY_REGION]) =
        EMPTY_REGION # drop (rs_count s) (rs_regions s)"
      using k len by (intro nth_equalityI) (auto simp: nth_shift_left nth_Cons' nth_list_update)
    moreover have "MAX_REGIONS - (rs_count s - 1) = Suc (MAX_REGIONS - rs_count s)"
      using k wf by (auto simp: wf_set_def)
    ultimately show ?thesis using wf True by (simp add: carved_def rg wf_set_def)
  next
    case False
    with wf k show ?thesis by (simp add: carved_def rg wf_set_def)
  qed
  then show "wf_set (carved s n k)"
    using carve_canon [OF c fits] new wf by (auto simp: wf_set_def carved_def Let_def)
  show "bytes_of (carved s n k) = bytes_of s - {a..<a + n}"
    using carve_cover [OF c fits] new live by (simp add: bytes_of_def)
qed

section \<open>The invariant of the memory map\<close>

definition wf_dram :: "dram \<Rightarrow> bool" where
  "wf_dram d \<longleftrightarrow> wf_set (AVAILABLE_REGIONS d) \<and> wf_set (RESERVED_REGIONS d) \<and>
     paged (bytes_of (AVAILABLE_REGIONS d)) \<and> paged (bytes_of (RESERVED_REGIONS d)) \<and>
     bytes_of (AVAILABLE_REGIONS d) \<subseteq> {PAGE_SIZE..<DRAM_LIMIT d} \<and>
     bytes_of (RESERVED_REGIONS d) \<subseteq> {..<DRAM_LIMIT d} \<and>
     paged {..<DRAM_LIMIT d} \<and> DRAM_LIMIT d < 2 ^ 64 \<and>
     (DRAM_FINALIZED d \<longrightarrow> bytes_of (AVAILABLE_REGIONS d) \<inter> bytes_of (RESERVED_REGIONS d) = {})"

definition range_bytes :: "phys_frame_range \<Rightarrow> nat set" where
  "range_bytes r = {start_address (fr_start r)..<start_address (fr_end r)}"

lemma paged_range_bytes [simp, intro]: "paged (range_bytes r)"
  unfolding range_bytes_def start_address_def by (rule paged_range)

lemma paged_limit: "paged {..<n * PAGE_SIZE}"
  using paged_range [of 0 n] by (simp add: lessThan_atLeast0)

lemma wf_dram_boot: "wf_dram dram_boot"
  by (auto simp: wf_dram_def dram_boot_def wf_set_def EMPTY_REGION_SET_def bytes_of_def
      live_regions_def paged_def)

lemma insert_region_ok:
  assumes "insert_region fin limit s r = Inr (l, s')" and "wf_set s" and "fr_start r < fr_end r"
  shows "\<not> fin \<and> l = max limit (start_address (fr_end r)) \<and> wf_set s' \<and>
    bytes_of s' = bytes_of s \<union> range_bytes r"
proof -
  have fin: "\<not> fin" and "rs_count s \<noteq> MAX_REGIONS"
    using assms(1) by (auto simp: insert_region_def Let_def split: if_splits)
  then have "rs_count s < MAX_REGIONS" using assms(2) by (simp add: wf_set_def)
  then obtain s'' where "insert_region False limit s r = Inr (max limit (start_address (fr_end r)), s'')"
    "wf_set s''" "bytes_of s'' = bytes_of s \<union> range_bytes r"
    using insert_region_refines [OF assms(2) _ assms(3) refl refl, of limit]
    unfolding bytes_of_def range_bytes_def by blast
  with assms(1) fin show ?thesis by simp
qed

lemma paged_max: "paged {..<a} \<Longrightarrow> paged {..<n * PAGE_SIZE} \<Longrightarrow> paged {..<max a (n * PAGE_SIZE)}"
  by (simp add: max_def)

lemma insert_reserved_wf:
  assumes "insert_reserved d r = Inr d'" and wf: "wf_dram d" and ne: "fr_start r < fr_end r"
    and lim: "start_address (fr_end r) < 2 ^ 64"
  shows "wf_dram d' \<and> bytes_of (RESERVED_REGIONS d') = bytes_of (RESERVED_REGIONS d) \<union> range_bytes r \<and>
    AVAILABLE_REGIONS d' = AVAILABLE_REGIONS d"
proof -
  obtain l s where ins: "insert_region (DRAM_FINALIZED d) (DRAM_LIMIT d) (RESERVED_REGIONS d) r = Inr (l, s)"
    and d': "d' = d\<lparr>DRAM_LIMIT := l, RESERVED_REGIONS := s\<rparr>"
    using assms(1) by (auto simp: insert_reserved_def and_then_Inr_iff)
  have s: "\<not> DRAM_FINALIZED d" "l = max (DRAM_LIMIT d) (start_address (fr_end r))" "wf_set s"
    "bytes_of s = bytes_of (RESERVED_REGIONS d) \<union> range_bytes r"
    using insert_region_ok [OF ins _ ne] wf by (auto simp: wf_dram_def)
  have "bytes_of s \<subseteq> {..<l}" using s(2,4) wf by (fastforce simp: wf_dram_def range_bytes_def)
  moreover have "bytes_of (AVAILABLE_REGIONS d) \<subseteq> {PAGE_SIZE..<l}"
    using s(2) wf by (fastforce simp: wf_dram_def)
  moreover have "paged {..<l}" using s(2) wf paged_limit by (simp add: wf_dram_def max_def start_address_def)
  ultimately show ?thesis using s d' wf lim by (auto simp: wf_dram_def)
qed

lemma insert_available_place:
  assumes ins: "insert_region (DRAM_FINALIZED d) (DRAM_LIMIT d) (AVAILABLE_REGIONS d) r = Inr (l, s)"
    and wf: "wf_dram d" and r: "0 < fr_start r" "fr_start r < fr_end r"
    and lim: "start_address (fr_end r) < 2 ^ 64"
  shows "wf_dram (d\<lparr>DRAM_LIMIT := l, AVAILABLE_REGIONS := s\<rparr>) \<and>
    bytes_of s = bytes_of (AVAILABLE_REGIONS d) \<union> range_bytes r"
proof -
  have s: "\<not> DRAM_FINALIZED d" "l = max (DRAM_LIMIT d) (start_address (fr_end r))" "wf_set s"
    "bytes_of s = bytes_of (AVAILABLE_REGIONS d) \<union> range_bytes r"
    using insert_region_ok [OF ins _ r(2)] wf by (auto simp: wf_dram_def)
  have "PAGE_SIZE \<le> start_address (fr_start r)" using r(1) by (simp add: start_address_def)
  then have "bytes_of s \<subseteq> {PAGE_SIZE..<l}"
    using s(2,4) wf by (fastforce simp: wf_dram_def range_bytes_def)
  moreover have "bytes_of (RESERVED_REGIONS d) \<subseteq> {..<l}"
    using s(2) wf by (fastforce simp: wf_dram_def)
  moreover have "paged {..<l}" using s(2) wf paged_limit by (simp add: wf_dram_def max_def start_address_def)
  ultimately show ?thesis using s wf lim by (auto simp: wf_dram_def)
qed

lemma range_bytes_first_page:
  "0 < fr_start r \<Longrightarrow> range_bytes r - {..<PAGE_SIZE} = range_bytes r"
  "fr_start r = 0 \<Longrightarrow> range_bytes r - {..<PAGE_SIZE} = range_bytes (r\<lparr>fr_start := 1\<rparr>)"
  by (cases "fr_start r") (auto simp: range_bytes_def start_address_def)

lemma insert_available_wf:
  assumes ins: "insert_available d r = Inr d'" and wf: "wf_dram d" and ne: "fr_start r < fr_end r"
    and lim: "start_address (fr_end r) < 2 ^ 64"
  shows "wf_dram d' \<and> RESERVED_REGIONS d' = RESERVED_REGIONS d \<and>
    bytes_of (AVAILABLE_REGIONS d') =
      bytes_of (AVAILABLE_REGIONS d) \<union> (range_bytes r - {..<PAGE_SIZE})"
proof (cases "start_address (fr_start r) = 0 \<and> start_address (fr_end r) \<le> PAGE_SIZE")
  case True
  then have "range_bytes r - {..<PAGE_SIZE} = {}" by (auto simp: range_bytes_def)
  with True ins wf show ?thesis by (auto simp: insert_available_def)
next
  case False
  define q where "q = (if fr_start r = 0 then r\<lparr>fr_start := 1\<rparr> else r)"
  have q: "range_bytes r - {..<PAGE_SIZE} = range_bytes q" "0 < fr_start q" "fr_end q = fr_end r"
    "fr_start q < fr_end q"
    using range_bytes_first_page [of r] False ne by (auto simp: q_def start_address_def)
  have eq: "insert_available d r =
      and_then (insert_region (DRAM_FINALIZED d) (DRAM_LIMIT d) (AVAILABLE_REGIONS d) q)
        (\<lambda>(l, s). Inr (d\<lparr>DRAM_LIMIT := l, AVAILABLE_REGIONS := s\<rparr>))"
    using False by (auto simp: insert_available_def q_def start_address_def)
  obtain l s where "insert_region (DRAM_FINALIZED d) (DRAM_LIMIT d) (AVAILABLE_REGIONS d) q = Inr (l, s)"
    and d': "d' = d\<lparr>DRAM_LIMIT := l, AVAILABLE_REGIONS := s\<rparr>"
    using trans [OF eq [symmetric] ins] by (auto simp: and_then_Inr_iff)
  from insert_available_place [OF this(1) wf q(2,4)] lim show ?thesis by (simp add: d' q)
qed

definition fits :: "nat \<Rightarrow> region \<Rightarrow> bool" where
  "fits num_frames r \<longleftrightarrow> num_frames * PAGE_SIZE \<le> r_end r - r_start r"

lemma boot_alloc_some:
  assumes wf: "wf_dram d" and n: "0 < n" "n * PAGE_SIZE < 2 ^ 64"
    and r: "find (fits n) (live_regions (AVAILABLE_REGIONS d)) = Some r"
  obtains d' where
    "boot_alloc d n = Inr (Some \<lparr>fr_start = r_start r div PAGE_SIZE,
                                 fr_end = r_start r div PAGE_SIZE + n\<rparr>, d')"
    "wf_dram d'" "RESERVED_REGIONS d' = RESERVED_REGIONS d"
    "bytes_of (AVAILABLE_REGIONS d') =
       bytes_of (AVAILABLE_REGIONS d) - {r_start r..<r_start r + n * PAGE_SIZE}"
    "{r_start r..<r_start r + n * PAGE_SIZE} \<subseteq> bytes_of (AVAILABLE_REGIONS d)"
proof -
  let ?A = "AVAILABLE_REGIONS d"
  have w: "wf_set ?A" "paged (bytes_of ?A)" "bytes_of ?A \<subseteq> {..<DRAM_LIMIT d}" "DRAM_LIMIT d < 2 ^ 64"
    using wf by (auto simp: wf_dram_def)
  obtain k where k: "k < rs_count ?A" "rs_regions ?A ! k = r" "fits n r"
    "\<forall>j < k. \<not> fits n (rs_regions ?A ! j)"
    using find_Some_first [OF r] by (auto simp: live_regions_def)
  have rin: "r \<in> set (live_regions ?A)" using live_regions_in [OF w(1) k(1)] k(2) by simp
  note al = live_region_aligned [OF w(1,2) rin]
  have "{r_start r..<r_end r} \<subseteq> bytes_of ?A"
    using canon_boundary [of 0 "ivals (live_regions ?A)" "r_start r" "r_end r"] rin wf_set_ivals [OF w(1)]
    by (auto simp: bytes_of_def ivals_def)
  moreover have fit: "r_start r + n * PAGE_SIZE \<le> r_end r" using k(3) al by (auto simp: fits_def)
  ultimately have sub: "{r_start r..<r_start r + n * PAGE_SIZE} \<subseteq> bytes_of ?A"
    and "r_end r - 1 \<in> bytes_of ?A" using al by auto
  then have "r_end r < 2 ^ 64" using w(3,4) by fastforce
  then have loop: "boot_alloc_loop ?A (n * PAGE_SIZE) 0 =
      Inr (Some \<lparr>fr_start = r_start r div PAGE_SIZE, fr_end = r_start r div PAGE_SIZE + n\<rparr>,
           carved ?A (n * PAGE_SIZE) k)"
    using boot_alloc_loop_some [OF w(1,2) k(1), of "n * PAGE_SIZE"] k fit
    by (auto simp: fits_def not_le add.commute)
  have car: "wf_set (carved ?A (n * PAGE_SIZE) k)"
    "bytes_of (carved ?A (n * PAGE_SIZE) k) = bytes_of ?A - {r_start r..<r_start r + n * PAGE_SIZE}"
    using carved_refines [OF w(1) k(1), of "r_start r" "r_end r" "n * PAGE_SIZE"] k(2) fit by auto
  let ?d' = "d\<lparr>AVAILABLE_REGIONS := carved ?A (n * PAGE_SIZE) k\<rparr>"
  have "paged {r_start r..<r_start r + n * PAGE_SIZE}"
    using paged_range [of "r_start r div PAGE_SIZE" "r_start r div PAGE_SIZE + n"] al
    by (auto simp: algebra_simps)
  then have "wf_dram ?d'" using wf car by (auto simp: wf_dram_def)
  moreover have "boot_alloc d n = Inr (Some \<lparr>fr_start = r_start r div PAGE_SIZE,
                                 fr_end = r_start r div PAGE_SIZE + n\<rparr>, ?d')"
    using n loop w(1) by (simp add: boot_alloc_def wf_set_def)
  ultimately show thesis using that sub car(2) by simp
qed

lemma boot_alloc_none:
  assumes wf: "wf_dram d" and n: "0 < n" "n * PAGE_SIZE < 2 ^ 64"
    and "find (fits n) (live_regions (AVAILABLE_REGIONS d)) = None"
  shows "boot_alloc d n = Inr (None, d)"
  using assms boot_alloc_loop_none [of "AVAILABLE_REGIONS d" "n * PAGE_SIZE"]
  by (auto simp: boot_alloc_def wf_dram_def find_None_iff fits_def not_le wf_set_def)

lemma finalize_wf:
  assumes "finalize d = Inr d'" and wf: "wf_dram d"
  shows "wf_dram d'"
proof -
  have "bytes_of (AVAILABLE_REGIONS d) \<subseteq> {..<DRAM_LIMIT d}" using wf by (auto simp: wf_dram_def)
  from finalize_refines [OF _ _ this assms(1)] wf show ?thesis by (auto simp: wf_dram_def)
qed

text \<open>
  The boot sequence: the loader's memory map and the kernel's own reservations are inserted
  in any order, the boot allocator takes frames, and the map is finalised. A range passed
  to an insertion is not empty and lies in the 64-bit physical address space.
\<close>

inductive dram_step :: "dram \<Rightarrow> dram \<Rightarrow> bool" where
  "insert_available d r = Inr d' \<Longrightarrow> fr_start r < fr_end r \<Longrightarrow>
     start_address (fr_end r) < 2 ^ 64 \<Longrightarrow> dram_step d d'"
| "insert_reserved d r = Inr d' \<Longrightarrow> fr_start r < fr_end r \<Longrightarrow>
     start_address (fr_end r) < 2 ^ 64 \<Longrightarrow> dram_step d d'"
| "boot_alloc d n = Inr (res, d') \<Longrightarrow> dram_step d d'"
| "finalize d = Inr d' \<Longrightarrow> dram_step d d'"

inductive dram_reach :: "dram \<Rightarrow> bool" where
  "dram_reach dram_boot"
| "dram_reach d \<Longrightarrow> dram_step d d' \<Longrightarrow> dram_reach d'"

lemma boot_alloc_wf:
  assumes "boot_alloc d n = Inr (res, d')" and wf: "wf_dram d"
  shows "wf_dram d'"
proof -
  have n: "0 < n" "n * PAGE_SIZE < 2 ^ 64"
    using assms(1) by (auto simp: boot_alloc_def not_le split: if_splits)
  show ?thesis
  proof (cases "find (fits n) (live_regions (AVAILABLE_REGIONS d))")
    case None
    then show ?thesis using boot_alloc_none [OF wf n] assms by simp
  next
    case (Some r)
    then show ?thesis using boot_alloc_some [OF wf n Some] assms(1) by (metis Inr_inject prod.inject)
  qed
qed

lemma dram_step_wf: "dram_step d d' \<Longrightarrow> wf_dram d \<Longrightarrow> wf_dram d'"
  by (induction rule: dram_step.induct)
    (use insert_available_wf insert_reserved_wf boot_alloc_wf finalize_wf in blast)+

lemma dram_reach_wf: "dram_reach d \<Longrightarrow> wf_dram d"
  by (induction rule: dram_reach.induct) (auto intro: wf_dram_boot dram_step_wf)

section \<open>Properties\<close>

text \<open>A memory map with one available region of 15 pages, two of them reserved.\<close>

definition example_dram :: dram where
  "example_dram = \<lparr>DRAM_LIMIT = 16 * PAGE_SIZE, DRAM_FINALIZED = False,
     AVAILABLE_REGIONS = fill_slots [\<lparr>r_start = 1 * PAGE_SIZE, r_end = 16 * PAGE_SIZE\<rparr>],
     RESERVED_REGIONS = fill_slots [\<lparr>r_start = 3 * PAGE_SIZE, r_end = 5 * PAGE_SIZE\<rparr>]\<rparr>"

lemma example_dram_wf: "wf_dram example_dram"
proof -
  have "wf_set (AVAILABLE_REGIONS example_dram)" "wf_set (RESERVED_REGIONS example_dram)"
    unfolding example_dram_def by (auto intro!: wf_fill_slots simp: MAX_REGIONS_def PAGE_SIZE_def)
  then show ?thesis
    using paged_range [of 1 16] paged_range [of 3 5] paged_limit [of 16]
    by (auto simp: wf_dram_def bytes_of_def example_dram_def) (auto simp: PAGE_SIZE_def)
qed

text \<open>
  C1. Finalisation turns the loader's memory map into an exact partition. From a well-formed
  map that is not final and has room for the pieces, \<open>finalize\<close> does not panic; afterwards
  the available bytes are the bytes that were available and not reserved, the reserved
  bytes are exactly the rest of physical memory below the limit, and the invariant holds.
\<close>

theorem finalize_partitions:
  assumes "wf_dram d" and "\<not> DRAM_FINALIZED d"
    and "rs_count (AVAILABLE_REGIONS d) + rs_count (RESERVED_REGIONS d) < MAX_REGIONS"
  shows "\<exists>d'. finalize d = Inr d' \<and> wf_dram d' \<and> DRAM_FINALIZED d' \<and>
    bytes_of (AVAILABLE_REGIONS d') = bytes_of (AVAILABLE_REGIONS d) - bytes_of (RESERVED_REGIONS d) \<and>
    bytes_of (RESERVED_REGIONS d') = {..<DRAM_LIMIT d} - bytes_of (AVAILABLE_REGIONS d')"
proof -
  have sub: "bytes_of (AVAILABLE_REGIONS d) \<subseteq> {..<DRAM_LIMIT d}"
    and wf: "wf_set (AVAILABLE_REGIONS d)" "wf_set (RESERVED_REGIONS d)"
    using assms(1) by (auto simp: wf_dram_def)
  obtain d' where "finalize d = Inr d'" using finalize_total [OF wf sub assms(2,3)] by blast
  with finalize_refines [OF wf sub this] finalize_wf [OF this assms(1)] show ?thesis by blast
qed

theorem finalize_partitions_witness:
  "wf_dram example_dram \<and> (\<exists>d'. finalize example_dram = Inr d' \<and>
     bytes_of (AVAILABLE_REGIONS d') =
       {1 * PAGE_SIZE..<16 * PAGE_SIZE} - {3 * PAGE_SIZE..<5 * PAGE_SIZE})"
  using finalize_partitions [OF example_dram_wf] example_dram_wf
  by (auto simp: example_dram_def MAX_REGIONS_def bytes_of_def)

text \<open>
  C2. The boot allocator is an exact first fit: it returns \<open>None\<close> and changes nothing when
  no available region is large enough; otherwise it returns the first \<open>num_frames\<close> frames
  of the first region that is large enough, exactly those bytes leave the available
  set, and the invariant is kept.
\<close>

theorem boot_alloc_first_fit:
  assumes "wf_dram d" and "0 < num_frames" and "num_frames * PAGE_SIZE < 2 ^ 64"
  shows "case find (fits num_frames) (live_regions (AVAILABLE_REGIONS d)) of
      None \<Rightarrow> boot_alloc d num_frames = Inr (None, d)
    | Some r \<Rightarrow> \<exists>range d'. boot_alloc d num_frames = Inr (Some range, d') \<and> wf_dram d' \<and>
        start_address (fr_start range) = r_start r \<and> fr_end range = fr_start range + num_frames \<and>
        range_bytes range \<subseteq> bytes_of (AVAILABLE_REGIONS d) \<and>
        bytes_of (AVAILABLE_REGIONS d') = bytes_of (AVAILABLE_REGIONS d) - range_bytes range"
proof (cases "find (fits num_frames) (live_regions (AVAILABLE_REGIONS d))")
  case None
  then show ?thesis using boot_alloc_none [OF assms] by simp
next
  case (Some r)
  let ?range = "\<lparr>fr_start = r_start r div PAGE_SIZE, fr_end = r_start r div PAGE_SIZE + num_frames\<rparr>"
  have "r \<in> set (live_regions (AVAILABLE_REGIONS d))" using Some by (auto simp: find_Some_iff)
  then have "r_start r mod PAGE_SIZE = 0" using live_region_aligned assms(1) by (auto simp: wf_dram_def)
  then have rb: "range_bytes ?range = {r_start r..<r_start r + num_frames * PAGE_SIZE}"
    "start_address (fr_start ?range) = r_start r"
    by (auto simp: range_bytes_def start_address_def algebra_simps)
  from boot_alloc_some [OF assms Some] obtain d' where
    "boot_alloc d num_frames = Inr (Some ?range, d')" "wf_dram d'"
    "RESERVED_REGIONS d' = RESERVED_REGIONS d"
    "bytes_of (AVAILABLE_REGIONS d') = bytes_of (AVAILABLE_REGIONS d) - range_bytes ?range"
    "range_bytes ?range \<subseteq> bytes_of (AVAILABLE_REGIONS d)"
    unfolding rb(1) .
  note d' = this
  show ?thesis
    unfolding Some option.case by (rule exI [of _ ?range], rule exI [of _ d']) (use d' rb(2) in simp)
qed

theorem boot_alloc_first_fit_witness:
  "wf_dram example_dram \<and> (\<exists>range d'. boot_alloc example_dram 4 = Inr (Some range, d') \<and>
     bytes_of (AVAILABLE_REGIONS d') = {1 * PAGE_SIZE..<16 * PAGE_SIZE} - range_bytes range)"
proof -
  have "find (fits 4) (live_regions (AVAILABLE_REGIONS example_dram)) =
      Some \<lparr>r_start = 1 * PAGE_SIZE, r_end = 16 * PAGE_SIZE\<rparr>"
    "bytes_of (AVAILABLE_REGIONS example_dram) = {1 * PAGE_SIZE..<16 * PAGE_SIZE}"
    by (auto simp: example_dram_def fits_def bytes_of_def)
  then show ?thesis
    using boot_alloc_first_fit [OF example_dram_wf, of 4] example_dram_wf
    by (simp add: PAGE_SIZE_def) blast
qed

text \<open>
  C3. Insertion keeps a region set in normal form (sorted, disjoint, no two regions
  touching, free slots empty), adds exactly the bytes of the new region whatever it
  overlaps, and raises the limit to the end of the region.
\<close>

theorem insert_region_merges:
  assumes "wf_set s" and "rs_count s < MAX_REGIONS" and "fr_start r < fr_end r"
  shows "\<exists>s'. insert_region False limit s r = Inr (max limit (start_address (fr_end r)), s') \<and>
    wf_set s' \<and> bytes_of s' = bytes_of s \<union> range_bytes r"
  using insert_region_refines [OF assms refl refl, of limit]
  by (auto simp: bytes_of_def range_bytes_def)

theorem insert_region_merges_witness:
  "wf_set (AVAILABLE_REGIONS example_dram) \<and>
   (\<exists>s'. insert_region False (16 * PAGE_SIZE) (AVAILABLE_REGIONS example_dram)
       \<lparr>fr_start = 8, fr_end = 20\<rparr> = Inr (20 * PAGE_SIZE, s') \<and>
     bytes_of s' = {1 * PAGE_SIZE..<20 * PAGE_SIZE})"
proof -
  have "{1 * PAGE_SIZE..<16 * PAGE_SIZE} \<union> {8 * PAGE_SIZE..<20 * PAGE_SIZE} =
      {1 * PAGE_SIZE..<20 * PAGE_SIZE}"
    by (auto simp: PAGE_SIZE_def)
  then show ?thesis
    using insert_region_merges [of "AVAILABLE_REGIONS example_dram" "\<lparr>fr_start = 8, fr_end = 20\<rparr>"
        "16 * PAGE_SIZE"] example_dram_wf
    by (auto simp: wf_dram_def example_dram_def MAX_REGIONS_def bytes_of_def range_bytes_def
        start_address_def max_def)
qed



end
