(* ===== verification/FrameAlloc.thy ===== *)
theory FrameAlloc
  imports Dram
begin

text \<open>
  What the kernel asks of a page frame allocator, and the wrappers of
  \<open>os/kernel/src/memory/mod.rs\<close> that count free frames.

  The implementation behind the wrappers is chosen by a build feature: the free list of
  \<open>frames.rs\<close> or the LLFree binding of \<open>frames_lf.rs\<close>. The contract both are used under is the
  locale \<open>frame_allocator\<close>; what its clients rely on (no frame has two owners, frames are
  neither lost nor made up) is proved once from the contract.
\<close>

section \<open>Ranges of frames\<close>

datatype memory_space = Kernel | User

text \<open>The difference of two frames; the subtraction is checked.\<close>

definition frames_len :: "phys_frame_range \<Rightarrow> nat run" where
  "frames_len r = (if fr_start r \<le> fr_end r then Inr (fr_end r - fr_start r) else Inl ArithOverflow)"

definition frame_set :: "phys_frame_range \<Rightarrow> nat set" where
  "frame_set r = {fr_start r..<fr_end r}"

section \<open>The wrappers that count free frames\<close>

text \<open>
  \<open>FREE_FRAMES\<close> is an \<open>AtomicUsize\<close>, whose \<open>fetch_add\<close> and \<open>fetch_sub\<close> wrap around.
  \<open>'s\<close> is the state of the chosen implementation, \<open>alloc\<close> and \<open>free\<close> its operations.
\<close>

record 's frame_memory =
  FREE_FRAMES :: "64 word"
  frames_impl :: 's

definition init_total_free_frames :: "('s \<Rightarrow> nat) \<Rightarrow> 's frame_memory \<Rightarrow> 's frame_memory" where
  "init_total_free_frames total_free m = m\<lparr>FREE_FRAMES := of_nat (total_free (frames_impl m))\<rparr>"

definition alloc_frames ::
    "('s \<Rightarrow> nat \<Rightarrow> (phys_frame_range \<times> 's) run) \<Rightarrow> 's frame_memory \<Rightarrow> nat \<Rightarrow>
     (phys_frame_range \<times> 's frame_memory) run" where
  "alloc_frames alloc m n =
     and_then (alloc (frames_impl m) n)
       (\<lambda>(r, s). Inr (r, m\<lparr>FREE_FRAMES := FREE_FRAMES m - of_nat n, frames_impl := s\<rparr>))"

definition free_frames ::
    "('s \<Rightarrow> phys_frame_range \<Rightarrow> 's run) \<Rightarrow> 's frame_memory \<Rightarrow> phys_frame_range \<Rightarrow>
     's frame_memory run" where
  "free_frames free m r =
     and_then (frames_len r) (\<lambda>n.
     and_then (free (frames_impl m) r)
       (\<lambda>s. Inr (m\<lparr>FREE_FRAMES := FREE_FRAMES m + of_nat n, frames_impl := s\<rparr>)))"

section \<open>Owners of frames\<close>

text \<open>
  A history of the allocator seen by its clients: a list of the ranges that were handed out
  and not yet given back.
\<close>

inductive owned ::
    "('s \<Rightarrow> nat \<Rightarrow> (phys_frame_range \<times> 's) run) \<Rightarrow> ('s \<Rightarrow> phys_frame_range \<Rightarrow> 's run) \<Rightarrow> 's \<Rightarrow>
     's \<Rightarrow> phys_frame_range list \<Rightarrow> bool"
  for alloc free s0 where
  owned_start: "owned alloc free s0 s0 []"
| owned_alloc: "owned alloc free s0 s rs \<Longrightarrow> 0 < n \<Longrightarrow> alloc s n = Inr (r, s') \<Longrightarrow>
     owned alloc free s0 s' (r # rs)"
| owned_free: "owned alloc free s0 s (xs @ r # ys) \<Longrightarrow> free s r = Inr s' \<Longrightarrow>
     owned alloc free s0 s' (xs @ ys)"

definition frames_of :: "phys_frame_range list \<Rightarrow> nat set" where
  "frames_of rs = (\<Union>r \<in> set rs. frame_set r)"

lemma frames_of_simps [simp]:
  "frames_of [] = {}" "frames_of (r # rs) = frame_set r \<union> frames_of rs"
  "frames_of (xs @ ys) = frames_of xs \<union> frames_of ys"
  by (auto simp: frames_of_def)

fun disjoint_ranges :: "phys_frame_range list \<Rightarrow> bool" where
  "disjoint_ranges [] = True"
| "disjoint_ranges (r # rs) \<longleftrightarrow> frame_set r \<inter> frames_of rs = {} \<and> disjoint_ranges rs"

lemma disjoint_ranges_append [simp]:
  "disjoint_ranges (xs @ ys) \<longleftrightarrow>
     disjoint_ranges xs \<and> disjoint_ranges ys \<and> frames_of xs \<inter> frames_of ys = {}"
  by (induction xs) auto

section \<open>The contract\<close>

locale frame_allocator =
  fixes invar :: "'s \<Rightarrow> bool"
    and avail :: "'s \<Rightarrow> nat set"
    and alloc :: "'s \<Rightarrow> nat \<Rightarrow> (phys_frame_range \<times> 's) run"
    and free :: "'s \<Rightarrow> phys_frame_range \<Rightarrow> 's run"
    and valid :: "phys_frame_range \<Rightarrow> bool"
  assumes alloc_ok: "invar s \<Longrightarrow> 0 < n \<Longrightarrow> alloc s n = Inr (r, s') \<Longrightarrow>
      invar s' \<and> valid r \<and> n \<le> fr_end r - fr_start r \<and> frame_set r \<subseteq> avail s \<and>
      avail s' = avail s - frame_set r"
    and free_ok: "invar s \<Longrightarrow> valid r \<Longrightarrow> frame_set r \<inter> avail s = {} \<Longrightarrow>
      \<exists>s'. free s r = Inr s' \<and> invar s' \<and> avail s' = avail s \<union> frame_set r"
    and valid_range: "valid r \<Longrightarrow> fr_start r < fr_end r"
begin

lemma owned_disjoint:
  "owned alloc free s0 s rs \<Longrightarrow> invar s0 \<Longrightarrow>
     invar s \<and> (\<forall>r \<in> set rs. valid r) \<and> disjoint_ranges rs \<and> frames_of rs \<inter> avail s = {} \<and>
     frames_of rs \<union> avail s = avail s0"
proof (induction rule: owned.induct)
  case (owned_alloc s rs n r s')
  then have "invar s' \<and> valid r \<and> frame_set r \<subseteq> avail s \<and> avail s' = avail s - frame_set r"
    using alloc_ok by blast
  with owned_alloc show ?case by auto
next
  case (owned_free s xs r ys s')
  then have "frame_set r \<inter> avail s = {}" "valid r" "invar s" by auto
  then have "invar s'" "avail s' = avail s \<union> frame_set r" using free_ok owned_free(2) by fastforce+
  with owned_free show ?case by auto
qed simp

lemma owned_can_free:
  assumes "owned alloc free s0 s rs" and "invar s0" and "r \<in> set rs"
  shows "\<exists>s'. free s r = Inr s' \<and> invar s' \<and> avail s' = avail s \<union> frame_set r"
proof -
  have "invar s" "valid r" "frame_set r \<inter> avail s = {}"
    using owned_disjoint [OF assms(1,2)] assms(3) by (auto simp: frames_of_def)
  then show ?thesis by (rule free_ok)
qed

end

text \<open>
  An allocator that hands out exactly the number of frames asked for keeps the counter
  \<open>FREE_FRAMES\<close> equal to the number of free frames.
\<close>

locale exact_frame_allocator = frame_allocator +
  assumes exact: "invar s \<Longrightarrow> alloc s n = Inr (r, s') \<Longrightarrow> fr_end r = fr_start r + n"
    and finite_avail: "invar s \<Longrightarrow> finite (avail s)"

definition counted :: "('s \<Rightarrow> bool) \<Rightarrow> ('s \<Rightarrow> nat set) \<Rightarrow> 's frame_memory \<Rightarrow> bool" where
  "counted invar avail m \<longleftrightarrow>
     invar (frames_impl m) \<and> FREE_FRAMES m = of_nat (card (avail (frames_impl m)))"

context exact_frame_allocator
begin

lemma alloc_frames_counted:
  assumes c: "counted invar avail m" and n: "0 < n" and a: "alloc_frames alloc m n = Inr (r, m')"
  shows "counted invar avail m'"
proof -
  obtain s where s: "alloc (frames_impl m) n = Inr (r, s)"
    and m': "m' = m\<lparr>FREE_FRAMES := FREE_FRAMES m - of_nat n, frames_impl := s\<rparr>"
    using a by (auto simp: alloc_frames_def and_then_Inr_iff)
  have i: "invar (frames_impl m)" using c by (simp add: counted_def)
  note ok = alloc_ok [OF i n s]
  have "card (frame_set r) = n" using exact [OF i s] by (simp add: frame_set_def)
  moreover have "card (avail s) = card (avail (frames_impl m)) - card (frame_set r)"
    using ok by (simp add: card_Diff_subset frame_set_def)
  moreover have "card (frame_set r) \<le> card (avail (frames_impl m))"
    using ok finite_avail [OF i] by (simp add: card_mono)
  ultimately show ?thesis using ok c by (simp add: counted_def m' of_nat_diff)
qed

lemma free_frames_counted:
  assumes c: "counted invar avail m" and v: "valid r" and d: "frame_set r \<inter> avail (frames_impl m) = {}"
  shows "\<exists>m'. free_frames free m r = Inr m' \<and> counted invar avail m' \<and>
    avail (frames_impl m') = avail (frames_impl m) \<union> frame_set r"
proof -
  have i: "invar (frames_impl m)" using c by (simp add: counted_def)
  obtain s where s: "free (frames_impl m) r = Inr s" "invar s" "avail s = avail (frames_impl m) \<union> frame_set r"
    using free_ok [OF i v d] by blast
  have len: "frames_len r = Inr (fr_end r - fr_start r)"
    using valid_range [OF v] by (simp add: frames_len_def)
  have "card (avail s) = card (avail (frames_impl m)) + (fr_end r - fr_start r)"
    using s(3) d finite_avail [OF i] by (simp add: card_Un_disjoint frame_set_def inf_commute)
  then show ?thesis using s c len by (simp add: free_frames_def counted_def)
qed

end

text \<open>So the wrappers over such an allocator are an allocator again.\<close>

sublocale exact_frame_allocator \<subseteq> wrapped: frame_allocator
  "counted invar avail" "\<lambda>m. avail (frames_impl m)" "alloc_frames alloc" "free_frames free" valid
proof
  fix m n r m'
  assume c: "counted invar avail m" and n: "0 < n" and a: "alloc_frames alloc m n = Inr (r, m')"
  then have "invar (frames_impl m)" "alloc (frames_impl m) n = Inr (r, frames_impl m')"
    by (auto simp: alloc_frames_def and_then_Inr_iff counted_def)
  from alloc_ok [OF this(1) n this(2)] alloc_frames_counted [OF c n a]
  show "counted invar avail m' \<and> valid r \<and> n \<le> fr_end r - fr_start r \<and>
      frame_set r \<subseteq> avail (frames_impl m) \<and>
      avail (frames_impl m') = avail (frames_impl m) - frame_set r" by blast
qed (use free_frames_counted valid_range in blast)+

end
