(* ===== verification/Frames.thy ===== *)
theory Frames
  imports FrameAlloc
begin

text \<open>
  The page frame allocator \<open>os/kernel/src/memory/frames.rs\<close>, an instance of the contract of
  \<open>FrameAlloc\<close>.

  The free list of the code is threaded through the free frames themselves: a node lives in
  the first frame of the block it describes, so its address is the block's start. The model
  keeps the list of nodes behind \<open>head\<close>, each with its start frame and its
  \<open>frame_count\<close>. A loop over \<open>current.next\<close> is a recursion over that list.
\<close>

section \<open>Data\<close>

record page_frame_node =
  pn_start :: nat
  frame_count :: nat

definition pn_end :: "page_frame_node \<Rightarrow> nat" where
  "pn_end b = pn_start b + frame_count b"

section \<open>Operations on the free list\<close>

fun insert_sorted_node :: "page_frame_node list \<Rightarrow> page_frame_node \<Rightarrow> page_frame_node list" where
  "insert_sorted_node [] new_block = [new_block]"
| "insert_sorted_node (block # next) new_block =
     (if pn_start block > pn_start new_block then new_block # block # next
      else block # insert_sorted_node next new_block)"

definition insert_frames :: "page_frame_node list \<Rightarrow> phys_frame_range \<Rightarrow> page_frame_node list run" where
  "insert_frames head frames =
     and_then (frames_len frames)
       (\<lambda>n. Inr (insert_sorted_node head \<lparr>pn_start = fr_start frames, frame_count = n\<rparr>))"

fun find_free_block ::
    "page_frame_node list \<Rightarrow> nat \<Rightarrow> (page_frame_node \<times> page_frame_node list) option" where
  "find_free_block [] n = None"
| "find_free_block (block # next) n =
     (if frame_count block \<ge> n then Some (block, next)
      else map_option (\<lambda>(b, bs). (b, block # bs)) (find_free_block next n))"

fun find_free_block_at ::
    "page_frame_node list \<Rightarrow> nat \<Rightarrow> nat \<Rightarrow> (page_frame_node \<times> page_frame_node list) option" where
  "find_free_block_at [] addr n = None"
| "find_free_block_at (block # next) addr n =
     (if frame_count block \<ge> n \<and> start_address (pn_start block) < addr \<and>
         start_address (pn_end block) \<ge> addr + PAGE_SIZE * n
      then Some (block, next)
      else map_option (\<lambda>(b, bs). (b, block # bs)) (find_free_block_at next addr n))"

definition alloc_block ::
    "page_frame_node list \<Rightarrow> nat \<Rightarrow> (phys_frame_range \<times> page_frame_node list) run" where
  "alloc_block head n =
     (case find_free_block head n of
        Some (block, head') \<Rightarrow>
          let remaining = \<lparr>fr_start = pn_start block + n, fr_end = pn_end block\<rparr> in
          and_then (frames_len remaining) (\<lambda>rest.
          and_then (if rest > 0 then insert_frames head' remaining else Inr head') (\<lambda>head''.
            Inr (\<lparr>fr_start = pn_start block, fr_end = fr_start remaining\<rparr>, head'')))
      | None \<Rightarrow> Inl (PanicMsg ''PageFrameAllocator: Out of memory!''))"

text \<open>
  The fusion loop of \<open>free_block\<close>: \<open>Some\<close> list when the block was fused and the
  function returned, \<open>None\<close> when the loop ended and the block has to be inserted.
\<close>

fun fuse_block :: "page_frame_node list \<Rightarrow> phys_frame_range \<Rightarrow> page_frame_node list option run" where
  "fuse_block [] frames = Inr None"
| "fuse_block (block # next) frames =
     (if \<not> (fr_end frames \<le> pn_start block \<or> fr_start frames \<ge> pn_end block)
      then Inl (PanicMsg ''free_block: Double-free or overlapping free detected!'')
      else if fr_end frames = pn_start block then
        and_then (frames_len frames) (\<lambda>n.
          Inr (Some (\<lparr>pn_start = fr_start frames, frame_count = frame_count block + n\<rparr> # next)))
      else if pn_end block = fr_start frames then
        and_then (frames_len frames) (\<lambda>n.
          let block' = block\<lparr>frame_count := frame_count block + n\<rparr> in
          Inr (Some (case next of
              [] \<Rightarrow> [block']
            | nxt # rest \<Rightarrow>
                if pn_end block' = pn_start nxt
                then block'\<lparr>frame_count := frame_count block' + frame_count nxt\<rparr> # rest
                else block' # nxt # rest)))
      else if pn_end block > fr_start frames then Inr None
      else and_then (fuse_block next frames) (\<lambda>r. Inr (map_option (Cons block) r)))"

definition free_block :: "page_frame_node list \<Rightarrow> phys_frame_range \<Rightarrow> page_frame_node list run" where
  "free_block head frames =
     and_then (fuse_block head frames)
       (\<lambda>r. case r of Some head' \<Rightarrow> Inr head' | None \<Rightarrow> insert_frames head frames)"

text \<open>
  \<open>reserve_block\<close>: the loop over the list behind \<open>current\<close>; after each round
  \<open>current\<close> becomes \<open>current.next\<close>, which is unwrapped. \<open>None\<close> stands for a loop
  that does not end.
\<close>

partial_function (option) reserve_block ::
    "page_frame_node list \<Rightarrow> phys_frame_range \<Rightarrow> page_frame_node list run option" where
  "reserve_block list reserved =
     (case list of [] \<Rightarrow> Some (Inr [])
      | block # next \<Rightarrow>
        if pn_start block > fr_end reserved then Some (Inr (block # next))
        else if pn_start block < fr_start reserved \<and> pn_end block \<ge> fr_start reserved then
          (if pn_end block \<le> fr_end reserved then
             let block' = block\<lparr>frame_count := frame_count block - (pn_end block - fr_start reserved)\<rparr> in
             Option.bind (reserve_block next reserved) (\<lambda>r. Some (and_then r (\<lambda>l. Inr (block' # l))))
           else
             let block' = block\<lparr>frame_count := fr_start reserved - pn_start block\<rparr>;
                 above = \<lparr>pn_start = fr_end reserved, frame_count = pn_end block - fr_end reserved\<rparr> in
             Option.bind (reserve_block (above # next) reserved)
               (\<lambda>r. Some (and_then r (\<lambda>l. Inr (block' # l)))))
        else if pn_start block \<le> fr_end reserved \<and> pn_end block \<ge> fr_start reserved then
          (if pn_end block \<le> fr_end reserved then
             (case next of
                [] \<Rightarrow> Some (Inl UnwrapNone)
              | block' # next' \<Rightarrow>
                  Option.bind (reserve_block next' reserved)
                    (\<lambda>r. Some (and_then r (\<lambda>l. Inr (block' # l)))))
           else
             let overlapping = fr_end reserved - pn_start block;
                 block' = \<lparr>pn_start = pn_start block + overlapping,
                           frame_count = frame_count block - overlapping\<rparr> in
             Option.bind (reserve_block next reserved) (\<lambda>r. Some (and_then r (\<lambda>l. Inr (block' # l)))))
        else Option.bind (reserve_block next reserved) (\<lambda>r. Some (and_then r (\<lambda>l. Inr (block # l)))))"

section \<open>The interface of the module\<close>

fun get_total_free_frames :: "page_frame_node list \<Rightarrow> nat" where
  "get_total_free_frames [] = 0"
| "get_total_free_frames (block # next) = frame_count block + get_total_free_frames next"

definition mark_avail :: "page_frame_node list \<Rightarrow> phys_frame_range \<Rightarrow> page_frame_node list run" where
  "mark_avail head rg =
     (if start_address (fr_start rg) = 0 then
        (if fr_end rg \<le> 1 then Inr head else free_block head (rg\<lparr>fr_start := 1\<rparr>))
      else free_block head rg)"

text \<open>The loop of \<open>init\<close> over the available regions of the memory map.\<close>

fun init_loop :: "region list \<Rightarrow> page_frame_node list \<Rightarrow> page_frame_node list run" where
  "init_loop [] head = Inr head"
| "init_loop (r # rs) head =
     (if r_end r - r_start r = 0 then init_loop rs head
      else if r_start r mod PAGE_SIZE \<noteq> 0 \<or> r_end r mod PAGE_SIZE \<noteq> 0 then Inl AssertFailed
      else and_then (mark_avail head \<lparr>fr_start = r_start r div PAGE_SIZE, fr_end = r_end r div PAGE_SIZE\<rparr>)
             (\<lambda>head'. init_loop rs head'))"

definition frames_init :: "dram \<Rightarrow> page_frame_node list \<Rightarrow> page_frame_node list run" where
  "frames_init d head = and_then (get_all_available d) (\<lambda>free. init_loop free head)"

section \<open>The invariant of the free list\<close>

definition node_ivals :: "page_frame_node list \<Rightarrow> ival list" where
  "node_ivals bs = map (\<lambda>b. (pn_start b, pn_end b)) bs"

lemma node_ivals_simps [simp]:
  "node_ivals [] = []" "node_ivals (b # bs) = (pn_start b, pn_end b) # node_ivals bs"
  by (simp_all add: node_ivals_def)

definition free_set :: "page_frame_node list \<Rightarrow> nat set" where
  "free_set bs = cover (node_ivals bs)"

text \<open>Frame 0 is never free.\<close>

definition wf_list :: "page_frame_node list \<Rightarrow> bool" where
  "wf_list bs \<longleftrightarrow> canon 1 (node_ivals bs)"

lemma node_ivals_inj: "node_ivals xs = node_ivals ys \<Longrightarrow> xs = ys"
proof (induction xs arbitrary: ys)
  case Nil
  then show ?case by (cases ys) auto
next
  case (Cons x xs)
  then obtain y ys' where "ys = y # ys'" by (cases ys) auto
  with Cons show ?case by (auto simp: pn_end_def intro!: page_frame_node.equality)
qed

lemma wf_list_unique: "wf_list xs \<Longrightarrow> wf_list ys \<Longrightarrow> free_set xs = free_set ys \<Longrightarrow> xs = ys"
  unfolding wf_list_def free_set_def by (intro node_ivals_inj) (rule canon_unique)

lemma total_free_sum: "get_total_free_frames bs = (\<Sum>(a, b)\<leftarrow>node_ivals bs. b - a)"
  by (induction bs) (auto simp: pn_end_def)

lemma total_free_card: "wf_list bs \<Longrightarrow> get_total_free_frames bs = card (free_set bs)"
  by (simp add: total_free_sum wf_list_def free_set_def card_cover_canon)

subsection \<open>Allocation\<close>

lemma find_free_block_None:
  "find_free_block bs n = None \<longleftrightarrow> (\<forall>b \<in> set bs. frame_count b < n)"
  by (induction bs) auto

lemma find_free_block_Some:
  "find_free_block bs n = Some (b, bs') \<Longrightarrow>
     \<exists>xs ys. bs = xs @ b # ys \<and> bs' = xs @ ys \<and> n \<le> frame_count b \<and> (\<forall>x \<in> set xs. frame_count x < n)"
proof (induction bs arbitrary: bs')
  case (Cons c bs)
  show ?case
  proof (cases "n \<le> frame_count c")
    case True
    with Cons.prems show ?thesis by fastforce
  next
    case False
    with Cons.prems obtain bs'' where "find_free_block bs n = Some (b, bs'')" "bs' = c # bs''" by auto
    with Cons.IH [of bs''] False show ?thesis by (metis append_Cons not_le set_ConsD)
  qed
qed simp

lemma find_free_block_find:
  "find_free_block bs n = Some (b, bs') \<Longrightarrow> find (\<lambda>b. n \<le> frame_count b) bs = Some b"
  by (induction bs n arbitrary: bs' rule: find_free_block.induct) (auto split: if_splits)

lemma insert_sorted_node_middle:
  assumes "canon lo (node_ivals xs @ (a, b) # node_ivals ys)" and "a \<le> pn_start nb" and "pn_start nb < b"
  shows "insert_sorted_node (xs @ ys) nb = xs @ nb # ys"
  using assms
proof (induction xs arbitrary: lo)
  case Nil
  show ?case
  proof (cases ys)
    case (Cons y ys')
    with Nil show ?thesis by auto
  qed simp
next
  case (Cons x xs)
  have "canon (Suc (pn_end x)) (node_ivals xs @ (a, b) # node_ivals ys)" "pn_start x < pn_end x"
    using Cons.prems(1) by auto
  moreover from this have "Suc (pn_end x) \<le> a" using canon_ge by fastforce
  ultimately show ?case using Cons by auto
qed

lemma alloc_block_found:
  assumes wf: "wf_list bs" and f: "find_free_block bs n = Some (b, bs')"
  shows "\<exists>xs ys. bs = xs @ b # ys \<and> (\<forall>x \<in> set xs. frame_count x < n) \<and> n \<le> frame_count b \<and>
    alloc_block bs n = Inr (\<lparr>fr_start = pn_start b, fr_end = pn_start b + n\<rparr>,
      xs @ (if n = frame_count b then [] else
        [\<lparr>pn_start = pn_start b + n, frame_count = frame_count b - n\<rparr>]) @ ys)"
proof -
  obtain xs ys where s: "bs = xs @ b # ys" "bs' = xs @ ys" "n \<le> frame_count b" "\<forall>x \<in> set xs. frame_count x < n"
    using find_free_block_Some [OF f] by blast
  have "canon 1 (node_ivals xs @ (pn_start b, pn_end b) # node_ivals ys)"
    using wf s(1) by (simp add: wf_list_def node_ivals_def)
  note ins = insert_sorted_node_middle [OF this]
  have "alloc_block bs n = Inr (\<lparr>fr_start = pn_start b, fr_end = pn_start b + n\<rparr>,
      xs @ (if n = frame_count b then [] else
        [\<lparr>pn_start = pn_start b + n, frame_count = frame_count b - n\<rparr>]) @ ys)"
    using ins s(3) by (auto simp: alloc_block_def f s(2) frames_len_def pn_end_def insert_frames_def)
  with s show ?thesis by blast
qed

lemma alloc_block_some:
  assumes wf: "wf_list bs" and f: "find_free_block bs n = Some (b, bs'')"
  obtains bs' where
    "alloc_block bs n = Inr (\<lparr>fr_start = pn_start b, fr_end = pn_start b + n\<rparr>, bs')" "wf_list bs'"
    "{pn_start b..<pn_start b + n} \<subseteq> free_set bs" "0 < pn_start b"
    "free_set bs' = free_set bs - {pn_start b..<pn_start b + n}"
proof -
  obtain xs ys where s: "bs = xs @ b # ys" "n \<le> frame_count b" and al:
    "alloc_block bs n = Inr (\<lparr>fr_start = pn_start b, fr_end = pn_start b + n\<rparr>,
      xs @ (if n = frame_count b then [] else
        [\<lparr>pn_start = pn_start b + n, frame_count = frame_count b - n\<rparr>]) @ ys)" (is "_ = Inr (_, ?bs')")
    using alloc_block_found [OF wf f] by blast
  have iv: "node_ivals bs = node_ivals xs @ (pn_start b, pn_end b) # node_ivals ys"
    by (simp add: s(1) node_ivals_def)
  have iv': "node_ivals ?bs' = node_ivals xs @
      (if pn_start b + n = pn_end b then [] else [(pn_start b + n, pn_end b)]) @ node_ivals ys"
    using s(2) by (auto simp: node_ivals_def pn_end_def)
  have c: "canon 1 (node_ivals xs @ (pn_start b, pn_end b) # node_ivals ys)"
    using wf iv by (simp add: wf_list_def)
  have le: "pn_start b + n \<le> pn_end b" using s(2) by (simp add: pn_end_def)
  have "wf_list ?bs'" using carve_canon [OF c le] iv' by (simp add: wf_list_def)
  moreover have "free_set ?bs' = free_set bs - {pn_start b..<pn_start b + n}"
    using carve_cover [OF c le] iv iv' by (simp add: free_set_def)
  moreover have "0 < pn_start b" using canon_ge [OF c, of "pn_start b" "pn_end b"] by auto
  moreover have "{pn_start b..<pn_start b + n} \<subseteq> free_set bs" using le by (auto simp: free_set_def iv)
  ultimately show thesis using that al by blast
qed
subsection \<open>Release\<close>

lemma free_block_Cons:
  assumes "pn_end b < fr_start f" and "fr_start f < fr_end f"
  shows "free_block (b # bs) f = and_then (free_block bs f) (\<lambda>l. Inr (b # l))"
proof -
  have "\<not> pn_start b > fr_start f" using assms by (simp add: pn_end_def)
  moreover have "fuse_block (b # bs) f = and_then (fuse_block bs f) (\<lambda>r. Inr (map_option (Cons b) r))"
    using assms by (auto simp: pn_end_def)
  ultimately show ?thesis
    using assms
    by (cases "fuse_block bs f")
      (auto simp: free_block_def insert_frames_def frames_len_def split: option.splits
        simp del: fuse_block.simps)
qed

lemma free_block_before:
  assumes "fr_start f < fr_end f" and "fr_end f < pn_start b" and "pn_start b < pn_end b"
  shows "free_block (b # bs) f =
    Inr (\<lparr>pn_start = fr_start f, frame_count = fr_end f - fr_start f\<rparr> # b # bs)"
  using assms by (simp add: free_block_def insert_frames_def frames_len_def)

lemma free_block_below:
  assumes "fr_start f < fr_end f" and "fr_end f = pn_start b" and "pn_start b < pn_end b"
  shows "free_block (b # bs) f =
    Inr (\<lparr>pn_start = fr_start f, frame_count = frame_count b + (fr_end f - fr_start f)\<rparr> # bs)"
  using assms by (simp add: free_block_def frames_len_def)

lemma free_block_above:
  assumes "fr_start f < fr_end f" and "pn_end b = fr_start f" and "pn_start b < pn_end b"
  shows "free_block (b # bs) f = Inr (case bs of
      [] \<Rightarrow> [b\<lparr>frame_count := frame_count b + (fr_end f - fr_start f)\<rparr>]
    | c # cs \<Rightarrow> if fr_end f = pn_start c
        then b\<lparr>frame_count := frame_count b + (fr_end f - fr_start f) + frame_count c\<rparr> # cs
        else b\<lparr>frame_count := frame_count b + (fr_end f - fr_start f)\<rparr> # c # cs)"
  using assms
  by (auto simp: free_block_def frames_len_def Let_def pn_end_def split: list.split)

lemma free_block_touch_above:
  assumes "fr_start f < fr_end f" and touch: "pn_end b = fr_start f"
    and c: "canon lo (node_ivals (b # bs))" and dis: "frame_set f \<inter> free_set (b # bs) = {}"
  shows "\<exists>bs'. free_block (b # bs) f = Inr bs' \<and> canon lo (node_ivals bs') \<and>
    free_set bs' = free_set (b # bs) \<union> frame_set f"
proof -
  have b: "pn_start b < pn_end b" "lo \<le> pn_start b" "canon (Suc (pn_end b)) (node_ivals bs)"
    using c by auto
  note above = free_block_above [OF assms(1) touch b(1)]
  show ?thesis
  proof (cases bs)
    case Nil
    then show ?thesis using above b touch assms(1)
      by (auto simp: free_set_def frame_set_def pn_end_def)
  next
    case bs: (Cons c cs)
    have c: "pn_start c < pn_end c" "pn_end b < pn_start c" "canon (Suc (pn_end c)) (node_ivals cs)"
      using b(3) bs by auto
    have "fr_end f \<le> pn_start c"
    proof (rule ccontr)
      assume "\<not> ?thesis"
      then have "pn_start c \<in> frame_set f \<inter> free_set (b # bs)"
        using c touch bs by (auto simp: frame_set_def free_set_def)
      with dis show False by blast
    qed
    moreover have "fr_end f = pn_start c \<Longrightarrow>
        pn_end (b\<lparr>frame_count := frame_count b + (fr_end f - fr_start f) + frame_count c\<rparr>) = pn_end c"
      "pn_end (b\<lparr>frame_count := frame_count b + (fr_end f - fr_start f)\<rparr>) = fr_end f"
      using touch assms(1) by (auto simp: pn_end_def)
    ultimately show ?thesis using above b c touch assms(1) bs
      by (cases "fr_end f = pn_start c") (auto simp: free_set_def frame_set_def)
  qed
qed

lemma free_block_canon:
  assumes "fr_start f < fr_end f"
  shows "canon lo (node_ivals bs) \<Longrightarrow> lo \<le> fr_start f \<Longrightarrow> frame_set f \<inter> free_set bs = {} \<Longrightarrow>
    \<exists>bs'. free_block bs f = Inr bs' \<and> canon lo (node_ivals bs') \<and>
      free_set bs' = free_set bs \<union> frame_set f"
proof (induction bs arbitrary: lo)
  case Nil
  then show ?case
    using assms
    by (auto simp: free_block_def insert_frames_def frames_len_def free_set_def frame_set_def pn_end_def)
next
  case (Cons b bs)
  have b: "pn_start b < pn_end b" "lo \<le> pn_start b" "canon (Suc (pn_end b)) (node_ivals bs)"
    using Cons.prems(1) by auto
  have "fr_end f \<le> pn_start b \<or> pn_end b \<le> fr_start f"
  proof (rule ccontr)
    assume "\<not> ?thesis"
    then have "max (fr_start f) (pn_start b) \<in> frame_set f \<inter> free_set (b # bs)"
      using b(1) assms by (auto simp: frame_set_def free_set_def)
    with Cons.prems(3) show False by blast
  qed
  then consider "fr_end f < pn_start b" | "fr_end f = pn_start b" | "pn_end b = fr_start f"
    | "pn_end b < fr_start f" by linarith
  then show ?case
  proof cases
    case 1
    then show ?thesis using free_block_before [OF assms 1 b(1)] b Cons.prems assms
      by (auto simp: free_set_def frame_set_def pn_end_def)
  next
    case 2
    then show ?thesis using free_block_below [OF assms 2 b(1)] b Cons.prems assms
      by (auto simp: free_set_def frame_set_def pn_end_def add.commute)
  next
    case 3
    then show ?thesis using free_block_touch_above [OF assms 3 Cons.prems(1,3)] by blast
  next
    case 4
    have "frame_set f \<inter> free_set bs = {}" using Cons.prems(3) by (auto simp: free_set_def)
    then obtain bs' where "free_block bs f = Inr bs'" "canon (Suc (pn_end b)) (node_ivals bs')"
      "free_set bs' = free_set bs \<union> frame_set f"
      using Cons.IH [OF b(3)] 4 by auto
    then show ?thesis using free_block_Cons [OF 4 assms] b by (auto simp: free_set_def)
  qed
qed

lemma free_block_double:
  assumes "fr_start f < fr_end f"
  shows "canon lo (node_ivals bs) \<Longrightarrow> fr_start f \<in> free_set bs \<Longrightarrow>
    free_block bs f = Inl (PanicMsg ''free_block: Double-free or overlapping free detected!'')"
proof (induction bs arbitrary: lo)
  case (Cons b bs)
  show ?case
  proof (cases "pn_start b \<le> fr_start f \<and> fr_start f < pn_end b")
    case True
    with assms show ?thesis by (simp add: free_block_def)
  next
    case False
    then have s: "fr_start f \<in> free_set bs" using Cons.prems by (auto simp: free_set_def)
    moreover have c: "canon (Suc (pn_end b)) (node_ivals bs)" using Cons.prems by auto
    ultimately have "pn_end b < fr_start f" using canon_cover_ge [OF c] by (fastforce simp: free_set_def)
    then show ?thesis using free_block_Cons [OF _ assms, of b bs] Cons.IH [OF c s] by simp
  qed
qed (simp add: free_set_def)

section \<open>The free list is a frame allocator\<close>

definition valid_range :: "phys_frame_range \<Rightarrow> bool" where
  "valid_range r \<longleftrightarrow> 0 < fr_start r \<and> fr_start r < fr_end r"

lemma alloc_block_ok:
  assumes wf: "wf_list bs" and al: "alloc_block bs n = Inr (r, bs')"
  shows "wf_list bs' \<and> 0 < fr_start r \<and> fr_end r = fr_start r + n \<and> frame_set r \<subseteq> free_set bs \<and>
    free_set bs' = free_set bs - frame_set r"
proof -
  obtain b bs'' where f: "find_free_block bs n = Some (b, bs'')"
    using al by (auto simp: alloc_block_def split: option.splits)
  show ?thesis
    by (rule alloc_block_some [OF wf f]) (use al in \<open>auto simp: frame_set_def\<close>)
qed

lemma free_block_ok:
  assumes "wf_list bs" and "valid_range r" and "frame_set r \<inter> free_set bs = {}"
  shows "\<exists>bs'. free_block bs r = Inr bs' \<and> wf_list bs' \<and> free_set bs' = free_set bs \<union> frame_set r"
  using free_block_canon [of r 1 bs] assms by (simp add: wf_list_def valid_range_def Suc_le_eq)

lemma finite_free_set [simp]: "finite (free_set bs)"
  by (simp add: free_set_def)

interpretation fl: exact_frame_allocator wf_list free_set alloc_block free_block valid_range
proof
  show "wf_list s' \<and> valid_range r \<and> n \<le> fr_end r - fr_start r \<and> frame_set r \<subseteq> free_set s \<and>
      free_set s' = free_set s - frame_set r"
    if "wf_list s" "0 < n" "alloc_block s n = Inr (r, s')" for s n r s'
    using alloc_block_ok [OF that(1,3)] that(2) by (simp add: valid_range_def)
  show "fr_end r = fr_start r + n" if "wf_list s" "alloc_block s n = Inr (r, s')" for s n r s'
    using alloc_block_ok [OF that] by simp
qed (auto simp: valid_range_def intro: free_block_ok)

subsection \<open>Initialisation from the memory map\<close>

lemma frames_of_region:
  assumes "a mod PAGE_SIZE = 0" and "b mod PAGE_SIZE = 0"
  shows "{f. f * PAGE_SIZE \<in> {a..<b}} = {a div PAGE_SIZE..<b div PAGE_SIZE}"
proof -
  obtain s e where "a = s * PAGE_SIZE" "b = e * PAGE_SIZE"
    using assms by (metis dvd_div_mult_self mod_0_imp_dvd)
  then show ?thesis by auto
qed

lemma init_loop_ok:
  "canon lo (ivals rs) \<Longrightarrow> PAGE_SIZE \<le> lo \<Longrightarrow>
   \<forall>r \<in> set rs. r_start r mod PAGE_SIZE = 0 \<and> r_end r mod PAGE_SIZE = 0 \<Longrightarrow>
   wf_list head \<Longrightarrow> free_set head \<inter> {f. f * PAGE_SIZE \<in> cover (ivals rs)} = {} \<Longrightarrow>
     \<exists>head'. init_loop rs head = Inr head' \<and> wf_list head' \<and>
       free_set head' = free_set head \<union> {f. f * PAGE_SIZE \<in> cover (ivals rs)}"
proof (induction rs arbitrary: lo head)
  case (Cons r rs)
  let ?a = "r_start r" and ?b = "r_end r"
  let ?f = "\<lparr>fr_start = ?a div PAGE_SIZE, fr_end = ?b div PAGE_SIZE\<rparr>"
  have r: "lo \<le> ?a" "?a < ?b" "canon (Suc ?b) (ivals rs)" "?a mod PAGE_SIZE = 0" "?b mod PAGE_SIZE = 0"
    using Cons.prems by auto
  have fs: "frame_set ?f = {f. f * PAGE_SIZE \<in> {?a..<?b}}"
    using frames_of_region [OF r(4,5)] by (simp add: frame_set_def)
  have "PAGE_SIZE \<le> ?a" using r(1) Cons.prems(2) by simp
  then have pos: "0 < ?a div PAGE_SIZE" by (simp add: div_greater_zero_iff)
  moreover have "?a div PAGE_SIZE < ?b div PAGE_SIZE"
    using r(2,4,5) by (metis div_mult_mod_eq add.right_neutral mult_less_cancel2)
  ultimately have v: "valid_range ?f" by (simp add: valid_range_def)
  have dis: "frame_set ?f \<inter> free_set head = {}" using Cons.prems(5) fs by auto
  obtain head1 where h1: "free_block head ?f = Inr head1" "wf_list head1"
    "free_set head1 = free_set head \<union> frame_set ?f"
    using free_block_ok [OF Cons.prems(4) v dis] by blast
  have mark: "mark_avail head ?f = Inr head1"
    using h1(1) pos by (simp add: mark_avail_def start_address_def)
  have "free_set head1 \<inter> {f. f * PAGE_SIZE \<in> cover (ivals rs)} = {}"
    using Cons.prems(5) h1(3) fs canon_Cons_disjoint [OF r(3), of ?a] by auto
  then obtain head2 where "init_loop rs head1 = Inr head2" "wf_list head2"
    "free_set head2 = free_set head1 \<union> {f. f * PAGE_SIZE \<in> cover (ivals rs)}"
    using Cons.IH [OF r(3) _ _ h1(2)] Cons.prems(2,3) r(1,2) by fastforce
  then show ?case using mark r h1(3) fs by auto
qed (simp add: free_set_def)

lemma frames_init_ok:
  assumes wf: "wf_dram d" and fin: "DRAM_FINALIZED d"
  shows "\<exists>head. frames_init d [] = Inr head \<and> wf_list head \<and>
    free_set head = {f. f * PAGE_SIZE \<in> bytes_of (AVAILABLE_REGIONS d)}"
proof -
  let ?rs = "live_regions (AVAILABLE_REGIONS d)"
  have w: "wf_set (AVAILABLE_REGIONS d)" "paged (bytes_of (AVAILABLE_REGIONS d))"
    "bytes_of (AVAILABLE_REGIONS d) \<subseteq> {PAGE_SIZE..<DRAM_LIMIT d}"
    using wf by (auto simp: wf_dram_def)
  have "canon PAGE_SIZE (ivals ?rs)"
    using wf_set_ivals [OF w(1)] w(3) by (cases "ivals ?rs") (auto simp: bytes_of_def)
  then show ?thesis
    using init_loop_ok [of PAGE_SIZE ?rs "[]"] live_region_aligned [OF w(1,2)] fin
    by (simp add: frames_init_def get_all_available_def wf_list_def free_set_def bytes_of_def)
qed

section \<open>Properties\<close>

text \<open>
  C5. Allocation is an exact first fit over the free list: out of memory exactly when no
  block has enough frames; otherwise the first frames of the first block that is large
  enough, they leave the free set and nothing else does, and the list stays sorted and fused.
\<close>

theorem alloc_block_first_fit:
  assumes "wf_list head"
  shows "case find (\<lambda>b. n \<le> frame_count b) head of
      None \<Rightarrow> alloc_block head n = Inl (PanicMsg ''PageFrameAllocator: Out of memory!'')
    | Some b \<Rightarrow> \<exists>head'. alloc_block head n =
          Inr (\<lparr>fr_start = pn_start b, fr_end = pn_start b + n\<rparr>, head') \<and> wf_list head' \<and>
          {pn_start b..<pn_start b + n} \<subseteq> free_set head \<and>
          free_set head' = free_set head - {pn_start b..<pn_start b + n}"
proof (cases "find_free_block head n")
  case None
  then have "find (\<lambda>b. n \<le> frame_count b) head = None"
    by (auto simp: find_free_block_None find_None_iff)
  then show ?thesis using None by (simp add: alloc_block_def)
next
  case (Some p)
  then obtain b bs where p: "find_free_block head n = Some (b, bs)" by (cases p) auto
  show ?thesis
    by (rule alloc_block_some [OF assms p]) (auto simp: find_free_block_find [OF p])
qed

theorem alloc_block_first_fit_witness:
  "alloc_block [\<lparr>pn_start = 2, frame_count = 1\<rparr>, \<lparr>pn_start = 5, frame_count = 4\<rparr>] 3 =
     Inr (\<lparr>fr_start = 5, fr_end = 8\<rparr>, [\<lparr>pn_start = 2, frame_count = 1\<rparr>, \<lparr>pn_start = 8, frame_count = 1\<rparr>]) \<and>
   wf_list [\<lparr>pn_start = 2, frame_count = 1\<rparr>, \<lparr>pn_start = 8, frame_count = 1\<rparr>]"
proof -
  have "wf_list [\<lparr>pn_start = 2, frame_count = 1\<rparr>, \<lparr>pn_start = 5, frame_count = 4\<rparr>]"
    by (simp add: wf_list_def pn_end_def)
  from alloc_block_first_fit [OF this, of 3] show ?thesis
    by (simp add: alloc_block_def frames_len_def insert_frames_def pn_end_def)
qed

text \<open>
  C6. Releasing a range of frames none of which is free succeeds, adds exactly these frames
  to the free set and fuses them with both neighbours; releasing a range whose first frame
  is already free is always detected and panics.
\<close>

theorem free_block_fuses:
  assumes "wf_list head" and "0 < fr_start r" and "fr_start r < fr_end r"
  shows "(frame_set r \<inter> free_set head = {} \<longrightarrow>
      (\<exists>head'. free_block head r = Inr head' \<and> wf_list head' \<and>
         free_set head' = free_set head \<union> frame_set r)) \<and>
    (fr_start r \<in> free_set head \<longrightarrow>
      free_block head r = Inl (PanicMsg ''free_block: Double-free or overlapping free detected!''))"
  using free_block_ok [of head r] free_block_double [of r 1 head] assms
  by (simp_all add: valid_range_def wf_list_def)

theorem free_block_fuses_witness:
  "wf_list [\<lparr>pn_start = 2, frame_count = 2\<rparr>, \<lparr>pn_start = 7, frame_count = 1\<rparr>] \<and>
   (\<exists>head'. free_block [\<lparr>pn_start = 2, frame_count = 2\<rparr>, \<lparr>pn_start = 7, frame_count = 1\<rparr>]
       \<lparr>fr_start = 4, fr_end = 7\<rparr> = Inr head' \<and> wf_list head' \<and> free_set head' = {2..<8})"
proof -
  let ?h = "[\<lparr>pn_start = 2, frame_count = 2\<rparr>, \<lparr>pn_start = 7, frame_count = 1\<rparr>]"
  let ?r = "\<lparr>fr_start = 4, fr_end = 7\<rparr>"
  have wf: "wf_list ?h" by (simp add: wf_list_def pn_end_def)
  have "free_set ?h \<union> frame_set ?r = {2..<8}" "frame_set ?r \<inter> free_set ?h = {}"
    by (auto simp: free_set_def frame_set_def pn_end_def)
  then show ?thesis using free_block_fuses [OF wf, of ?r] wf by simp
qed

text \<open>
  C7. Giving back what was allocated restores the free list exactly, node by node: allocation
  followed by release of the returned range is the identity on the allocator.
\<close>

theorem alloc_free_roundtrip:
  assumes "wf_list head" and "0 < n" and "alloc_block head n = Inr (r, head')"
  shows "free_block head' r = Inr head"
proof -
  have a: "wf_list head'" "valid_range r" "frame_set r \<subseteq> free_set head"
    "free_set head' = free_set head - frame_set r"
    using fl.alloc_ok [OF assms] by auto
  then obtain h where h: "free_block head' r = Inr h" "wf_list h" "free_set h = free_set head' \<union> frame_set r"
    using free_block_ok [of head' r] by blast
  then have "free_set h = free_set head" using a by blast
  with h(1,2) wf_list_unique [OF h(2) assms(1)] show ?thesis by simp
qed

theorem alloc_free_roundtrip_witness:
  "alloc_block [\<lparr>pn_start = 5, frame_count = 4\<rparr>] 3 =
     Inr (\<lparr>fr_start = 5, fr_end = 8\<rparr>, [\<lparr>pn_start = 8, frame_count = 1\<rparr>]) \<and>
   free_block [\<lparr>pn_start = 8, frame_count = 1\<rparr>] \<lparr>fr_start = 5, fr_end = 8\<rparr> =
     Inr [\<lparr>pn_start = 5, frame_count = 4\<rparr>]"
proof -
  have "wf_list [\<lparr>pn_start = 5, frame_count = 4\<rparr>]" by (simp add: wf_list_def pn_end_def)
  moreover have al: "alloc_block [\<lparr>pn_start = 5, frame_count = 4\<rparr>] 3 =
      Inr (\<lparr>fr_start = 5, fr_end = 8\<rparr>, [\<lparr>pn_start = 8, frame_count = 1\<rparr>])"
    by (simp add: alloc_block_def frames_len_def insert_frames_def pn_end_def)
  ultimately show ?thesis using alloc_free_roundtrip [of _ 3] by simp
qed



text \<open>
  The overlap check of \<open>free_block\<close> is not complete: when the released range starts where a
  free block ends, the block is extended without a check against its successor. The list then
  has overlapping blocks, and the same frame is handed out twice.
\<close>

theorem free_block_misses_overlap:
  "free_block [\<lparr>pn_start = 1, frame_count = 2\<rparr>, \<lparr>pn_start = 5, frame_count = 2\<rparr>] \<lparr>fr_start = 3, fr_end = 6\<rparr> =
     Inr [\<lparr>pn_start = 1, frame_count = 5\<rparr>, \<lparr>pn_start = 5, frame_count = 2\<rparr>] \<and>
   alloc_block [\<lparr>pn_start = 1, frame_count = 5\<rparr>, \<lparr>pn_start = 5, frame_count = 2\<rparr>] 5 =
     Inr (\<lparr>fr_start = 1, fr_end = 6\<rparr>, [\<lparr>pn_start = 5, frame_count = 2\<rparr>]) \<and>
   alloc_block [\<lparr>pn_start = 5, frame_count = 2\<rparr>] 1 =
     Inr (\<lparr>fr_start = 5, fr_end = 6\<rparr>, [\<lparr>pn_start = 6, frame_count = 1\<rparr>])"
  by (simp add: free_block_def alloc_block_def frames_len_def insert_frames_def pn_end_def)

text \<open>
  \<open>reserve_block\<close> does not reserve: a block that lies inside the reserved region is
  removed, and then the block behind it is skipped (it stays free although it overlaps the
  region), or, when there is none, the unwrap of \<open>current.next\<close> panics.
\<close>

theorem reserve_block_skips:
  "reserve_block [\<lparr>pn_start = 2, frame_count = 1\<rparr>, \<lparr>pn_start = 4, frame_count = 1\<rparr>] \<lparr>fr_start = 1, fr_end = 8\<rparr> =
     Some (Inr [\<lparr>pn_start = 4, frame_count = 1\<rparr>]) \<and>
   reserve_block [\<lparr>pn_start = 2, frame_count = 1\<rparr>] \<lparr>fr_start = 1, fr_end = 8\<rparr> = Some (Inl UnwrapNone)"
  by (simp add: reserve_block.simps pn_end_def)

end
