(* ===== verification/FramesLf.thy ===== *)
theory FramesLf
  imports FrameAlloc
begin

text \<open>
  The page frame allocator of the default build, \<open>os/kernel/src/memory/frames_lf.rs\<close>: a binding
  of the LLFree library. The library is a parameter: \<open>get\<close> and \<open>put\<close> are its two operations
  (\<open>None\<close> for \<open>Err\<close>), \<open>max_order\<close> its constant \<open>MAX_ORDER\<close>. A request is built from an
  order and the fixed core number, so the order stands for it. What the kernel relies on is
  the predicate \<open>llfree_spec\<close>.
\<close>

section \<open>Bit arithmetic of the standard library\<close>

fun bit_length :: "nat \<Rightarrow> nat" where
  "bit_length n = (if n = 0 then 0 else Suc (bit_length (n div 2)))"

definition leading_zeros :: "nat \<Rightarrow> nat" where
  "leading_zeros n = 64 - bit_length n"

fun trailing_zeros :: "nat \<Rightarrow> nat" where
  "trailing_zeros n = (if n = 0 then 64 else if even n then Suc (trailing_zeros (n div 2)) else 0)"

declare bit_length.simps [simp del] trailing_zeros.simps [simp del]

definition is_power_of_two :: "nat \<Rightarrow> bool" where
  "is_power_of_two n \<longleftrightarrow> n \<noteq> 0 \<and> n = 2 ^ trailing_zeros n"

definition next_power_of_two :: "nat \<Rightarrow> nat run" where
  "next_power_of_two n =
     (let p = (if n \<le> 1 then 1 else 2 ^ bit_length (n - 1)) in
      if p \<ge> 2 ^ 64 then Inl ArithOverflow else Inr p)"

section \<open>Operations\<close>

definition round_up_pow2 :: "nat \<Rightarrow> nat option run" where
  "round_up_pow2 n =
     (if n = 0 then Inr None
      else and_then (next_power_of_two n) (\<lambda>next. Inr (if next = 0 then None else Some next)))"

definition unwrap :: "'a option \<Rightarrow> 'a run" where
  "unwrap x = (case x of None \<Rightarrow> Inl UnwrapNone | Some v \<Rightarrow> Inr v)"

definition alloc_internal ::
    "('a \<Rightarrow> nat option \<Rightarrow> nat \<Rightarrow> (nat \<times> 'a) option) \<Rightarrow> 'a \<Rightarrow> nat option \<Rightarrow> nat \<Rightarrow>
     (phys_frame_range \<times> 'a) run" where
  "alloc_internal get s frame_start frame_count =
     and_then (round_up_pow2 frame_count) (\<lambda>r.
     and_then (unwrap r) (\<lambda>rounded_frame_count.
     let order = trailing_zeros rounded_frame_count in
     case get s frame_start order of
       Some (frame_id, s') \<Rightarrow>
         Inr (\<lparr>fr_start = frame_id, fr_end = frame_id + rounded_frame_count\<rparr>, s')
     | None \<Rightarrow> Inl (PanicMsg ''PageFrameAllocator: error'')))"

definition lf_alloc ::
    "('a \<Rightarrow> nat option \<Rightarrow> nat \<Rightarrow> (nat \<times> 'a) option) \<Rightarrow> 'a \<Rightarrow> nat \<Rightarrow> (phys_frame_range \<times> 'a) run" where
  "lf_alloc get s frame_count = alloc_internal get s None frame_count"

definition lf_free :: "('a \<Rightarrow> nat \<Rightarrow> nat \<Rightarrow> 'a option) \<Rightarrow> 'a \<Rightarrow> phys_frame_range \<Rightarrow> 'a run" where
  "lf_free put s frames =
     and_then (frames_len frames) (\<lambda>nr_of_frames.
     if \<not> is_power_of_two nr_of_frames then Inl AssertFailed
     else
       let order = trailing_zeros nr_of_frames in
       case put s (fr_start frames) order of
         Some s' \<Rightarrow> Inr s'
       | None \<Rightarrow> Inl (PanicMsg ''PageFrameAllocator: free error!''))"

definition lf_get_total_free_frames :: "'a \<Rightarrow> nat" where
  "lf_get_total_free_frames s = 1"

text \<open>\<open>while current_frame % chunk != 0 { chunk >>= 1; }\<close>\<close>

function reduce_chunk :: "nat \<Rightarrow> nat \<Rightarrow> nat run" where
  "reduce_chunk current_frame chunk =
     (if chunk = 0 then Inl ArithOverflow
      else if current_frame mod chunk \<noteq> 0 then reduce_chunk current_frame (chunk div 2)
      else Inr chunk)"
  by pat_completeness auto
termination
  by (relation "measure snd") auto

declare reduce_chunk.simps [simp del]

lemma reduce_chunk_pos: "reduce_chunk f c = Inr d \<Longrightarrow> 0 < d"
  by (induction f c rule: reduce_chunk.induct) (auto simp: reduce_chunk.simps split: if_splits)

definition first_chunk :: "nat \<Rightarrow> nat \<Rightarrow> nat" where
  "first_chunk max_order remaining =
     (if remaining \<ge> 2 ^ max_order then 2 ^ max_order else 2 ^ (64 - 1 - leading_zeros remaining))"

function mark_reserved_loop ::
    "('a \<Rightarrow> nat option \<Rightarrow> nat \<Rightarrow> (nat \<times> 'a) option) \<Rightarrow> nat \<Rightarrow> 'a \<Rightarrow> nat \<Rightarrow> nat \<Rightarrow> 'a run" where
  "mark_reserved_loop get max_order s current_addr remaining =
     (if remaining > 0 then
        let current_frame = current_addr div PAGE_SIZE in
        and_then (reduce_chunk current_frame (first_chunk max_order remaining)) (\<lambda>chunk.
        and_then (alloc_internal get s (Some current_frame) chunk) (\<lambda>(r, s').
        if current_addr + chunk * PAGE_SIZE \<ge> 2 ^ 64 \<or> chunk > remaining then Inl ArithOverflow
        else mark_reserved_loop get max_order s' (current_addr + chunk * PAGE_SIZE) (remaining - chunk)))
      else Inr s)"
  by pat_completeness auto
termination
  by (relation "measure (\<lambda>(get, mo, s, a, remaining). remaining)") (auto dest: reduce_chunk_pos)

declare mark_reserved_loop.simps [simp del]

definition mark_reserved ::
    "('a \<Rightarrow> nat option \<Rightarrow> nat \<Rightarrow> (nat \<times> 'a) option) \<Rightarrow> nat \<Rightarrow> 'a \<Rightarrow> nat \<Rightarrow> nat \<Rightarrow> 'a run" where
  "mark_reserved get max_order s at_phys_addr frame_count =
     (if at_phys_addr mod PAGE_SIZE \<noteq> 0 then Inl AssertFailed
      else if \<not> frame_count > 0 then Inl AssertFailed
      else mark_reserved_loop get max_order s at_phys_addr frame_count)"

fun lf_finalize_loop ::
    "('a \<Rightarrow> nat option \<Rightarrow> nat \<Rightarrow> (nat \<times> 'a) option) \<Rightarrow> nat \<Rightarrow> region list \<Rightarrow> 'a \<Rightarrow> 'a run" where
  "lf_finalize_loop get max_order [] s = Inr s"
| "lf_finalize_loop get max_order (r # rs) s =
     (if r_end r - r_start r = 0 then lf_finalize_loop get max_order rs s
      else if r_start r mod PAGE_SIZE \<noteq> 0 \<or> r_end r mod PAGE_SIZE \<noteq> 0 then Inl AssertFailed
      else and_then (mark_reserved get max_order s (r_start r) ((r_end r - r_start r) div PAGE_SIZE))
             (\<lambda>s'. lf_finalize_loop get max_order rs s'))"

definition lf_finalize ::
    "('a \<Rightarrow> nat option \<Rightarrow> nat \<Rightarrow> (nat \<times> 'a) option) \<Rightarrow> nat \<Rightarrow> dram \<Rightarrow> 'a \<Rightarrow> 'a run" where
  "lf_finalize get max_order d s =
     and_then (get_all_reserved d) (\<lambda>rs. lf_finalize_loop get max_order rs s)"

text \<open>
  \<open>new\<close> is the library's constructor with \<open>Init::FreeAll\<close>: a number of frames, all of them
  free, to an allocator.
\<close>

definition lf_init ::
    "(nat \<Rightarrow> 'a option) \<Rightarrow> ('a \<Rightarrow> nat option \<Rightarrow> nat \<Rightarrow> (nat \<times> 'a) option) \<Rightarrow> nat \<Rightarrow> dram \<Rightarrow> 'a run" where
  "lf_init new get max_order d =
     and_then (unwrap (new (DRAM_LIMIT d div PAGE_SIZE))) (\<lambda>s. lf_finalize get max_order d s)"

section \<open>What the kernel relies on\<close>

definition block :: "nat \<Rightarrow> nat \<Rightarrow> nat set" where
  "block f order = {f..<f + 2 ^ order}"

definition llfree_spec ::
    "nat \<Rightarrow> nat \<Rightarrow> ('a \<Rightarrow> bool) \<Rightarrow> ('a \<Rightarrow> nat set) \<Rightarrow>
     ('a \<Rightarrow> nat option \<Rightarrow> nat \<Rightarrow> (nat \<times> 'a) option) \<Rightarrow> ('a \<Rightarrow> nat \<Rightarrow> nat \<Rightarrow> 'a option) \<Rightarrow> bool" where
  "llfree_spec max_order num_frames linv lfree get put \<longleftrightarrow>
     (\<forall>s. linv s \<longrightarrow> lfree s \<subseteq> {..<num_frames}) \<and>
     (\<forall>s start order f s'. linv s \<longrightarrow> get s start order = Some (f, s') \<longrightarrow>
        order \<le> max_order \<and> 2 ^ order dvd f \<and> (start = None \<or> start = Some f) \<and>
        block f order \<subseteq> lfree s \<and> linv s' \<and> lfree s' = lfree s - block f order) \<and>
     (\<forall>s order f. linv s \<longrightarrow> order \<le> max_order \<longrightarrow> 2 ^ order dvd f \<longrightarrow> block f order \<subseteq> lfree s \<longrightarrow>
        get s (Some f) order \<noteq> None) \<and>
     (\<forall>s order f. linv s \<longrightarrow> order \<le> max_order \<longrightarrow> 2 ^ order dvd f \<longrightarrow>
        block f order \<subseteq> {..<num_frames} \<longrightarrow> block f order \<inter> lfree s = {} \<longrightarrow>
        (\<exists>s'. put s f order = Some s' \<and> linv s' \<and> lfree s' = lfree s \<union> block f order))"

section \<open>Powers of two\<close>

lemma bit_length_bounds: "0 < n \<Longrightarrow> 2 ^ (bit_length n - 1) \<le> n \<and> n < 2 ^ bit_length n \<and> 0 < bit_length n"
proof (induction n rule: bit_length.induct)
  case (1 n)
  show ?case
  proof (cases "n = 1")
    case True
    then show ?thesis by (simp add: bit_length.simps)
  next
    case False
    then have h: "0 < n div 2" using 1 by (auto simp: div_greater_zero_iff)
    then obtain k where k: "bit_length (n div 2) = Suc k" "2 ^ k \<le> n div 2" "n div 2 < 2 * 2 ^ k"
      using 1 by (cases "bit_length (n div 2)") auto
    have "bit_length n = Suc (Suc k)" using k(1) 1(2) by (simp add: bit_length.simps [of n])
    then show ?thesis using k(2,3) by auto
  qed
qed

lemma pow2_lessD: "(2::nat) ^ a < 2 ^ b \<Longrightarrow> a < b"
  by (rule power_less_imp_less_exp [of 2]) auto

lemma trailing_zeros_power [simp]: "trailing_zeros (2 ^ k) = k"
  by (induction k) (auto simp: trailing_zeros.simps)

lemma is_power_of_two_power [simp]: "is_power_of_two (2 ^ k)"
  by (simp add: is_power_of_two_def)

lemma next_power_of_two_ok:
  assumes "0 < n" and "n \<le> 2 ^ 63"
  shows "\<exists>k \<le> 63. next_power_of_two n = Inr (2 ^ k) \<and> n \<le> 2 ^ k \<and> 2 ^ k < 2 * n"
proof (cases "n = 1")
  case True
  then show ?thesis by (intro exI [of _ 0]) (simp add: next_power_of_two_def)
next
  case False
  then have n: "0 < n - 1" using assms(1) by simp
  define k where "k = bit_length (n - 1)"
  have b: "2 ^ (k - 1) \<le> n - 1" "n - 1 < 2 ^ k" "0 < k" using bit_length_bounds [OF n] k_def by auto
  have "(2::nat) ^ (k - 1) < 2 ^ 63" using b(1) assms(2) n by linarith
  then have "k - 1 < 63" by (rule pow2_lessD)
  then have k: "k \<le> 63" using b(3) by simp
  then have "(2::nat) ^ k < 2 ^ 64" by (intro power_strict_increasing) auto
  then have "next_power_of_two n = Inr (2 ^ k)" using False assms(1) by (simp add: next_power_of_two_def k_def)
  moreover have "(2::nat) ^ k = 2 * 2 ^ (k - 1)" using b(3) by (cases k) auto
  ultimately show ?thesis using b k n by (intro exI [of _ k]) auto
qed

lemma next_power_of_two_power: "k \<le> 63 \<Longrightarrow> next_power_of_two (2 ^ k) = Inr (2 ^ k)"
proof -
  assume k: "k \<le> 63"
  then have "(2::nat) ^ k \<le> 2 ^ 63" by (intro power_increasing) auto
  then obtain j where j: "next_power_of_two (2 ^ k) = Inr (2 ^ j)" "(2::nat) ^ k \<le> 2 ^ j" "(2::nat) ^ j < 2 * 2 ^ k"
    using next_power_of_two_ok [of "2 ^ k"] by auto
  have "k \<le> j" using j(2) by (simp add: power_increasing_iff)
  moreover have "(2::nat) ^ j < 2 ^ Suc k" using j(3) by simp
  then have "j < Suc k" by (rule pow2_lessD)
  ultimately show ?thesis using j(1) by simp
qed

lemma alloc_internal_power:
  assumes "k \<le> 63"
  shows "alloc_internal get s start (2 ^ k) =
    (case get s start k of
       Some (f, s') \<Rightarrow> Inr (\<lparr>fr_start = f, fr_end = f + 2 ^ k\<rparr>, s')
     | None \<Rightarrow> Inl (PanicMsg ''PageFrameAllocator: error''))"
  using next_power_of_two_power [OF assms]
  by (simp add: alloc_internal_def round_up_pow2_def unwrap_def)

lemma reduce_chunk_aligned:
  "\<exists>j \<le> k. reduce_chunk f (2 ^ k) = Inr (2 ^ j) \<and> 2 ^ j dvd f"
proof (induction k)
  case 0
  then show ?case by (simp add: reduce_chunk.simps)
next
  case (Suc k)
  show ?case
  proof (cases "f mod 2 ^ Suc k = 0")
    case True
    then show ?thesis by (intro exI [of _ "Suc k"]) (auto simp: reduce_chunk.simps [of f "2 * 2 ^ k"])
  next
    case False
    then have "reduce_chunk f (2 ^ Suc k) = reduce_chunk f (2 ^ k)"
      by (simp add: reduce_chunk.simps [of f "2 * 2 ^ k"])
    with Suc show ?thesis by (metis le_Suc_eq)
  qed
qed

lemma first_chunk_power:
  assumes "0 < remaining" and "remaining < 2 ^ 64"
  shows "\<exists>k \<le> max_order. first_chunk max_order remaining = 2 ^ k \<and> 2 ^ k \<le> remaining"
proof (cases "2 ^ max_order \<le> remaining")
  case True
  then show ?thesis by (auto simp: first_chunk_def)
next
  case False
  have b: "2 ^ (bit_length remaining - 1) \<le> remaining" "0 < bit_length remaining"
    using bit_length_bounds [OF assms(1)] by auto
  then have "(2::nat) ^ (bit_length remaining - 1) < 2 ^ 64" using assms(2) by linarith
  then have "bit_length remaining - 1 < 64" by (rule pow2_lessD)
  then have "bit_length remaining \<le> 64" by simp
  then have "64 - 1 - leading_zeros remaining = bit_length remaining - 1"
    using b(2) by (simp add: leading_zeros_def)
  moreover have "(2::nat) ^ (bit_length remaining - 1) < 2 ^ max_order" using False b(1) by linarith
  then have "bit_length remaining - 1 < max_order" by (rule pow2_lessD)
  ultimately show ?thesis using False b(1)
    by (intro exI [of _ "bit_length remaining - 1"]) (simp add: first_chunk_def)
qed
section \<open>Reserving frames\<close>

lemma llfree_spec_get:
  assumes "llfree_spec mo N linv lfree get put" and "linv s" and "get s start order = Some (f, s')"
  shows "order \<le> mo \<and> 2 ^ order dvd f \<and> (start = None \<or> start = Some f) \<and>
        block f order \<subseteq> lfree s \<and> linv s' \<and> lfree s' = lfree s - block f order"
  using conjunct1 [OF conjunct2 [OF assms(1) [unfolded llfree_spec_def]]] assms(2,3) by blast

lemma llfree_spec_get_at:
  assumes "llfree_spec mo N linv lfree get put" and "linv s" and "order \<le> mo" and "2 ^ order dvd f"
    and "block f order \<subseteq> lfree s"
  shows "\<exists>s'. get s (Some f) order = Some (f, s') \<and> linv s' \<and> lfree s' = lfree s - block f order"
proof -
  have "get s (Some f) order \<noteq> None"
    using conjunct1 [OF conjunct2 [OF conjunct2 [OF assms(1) [unfolded llfree_spec_def]]]] assms(2-5)
    by blast
  then obtain g s' where "get s (Some f) order = Some (g, s')" by auto
  with llfree_spec_get [OF assms(1,2) this] show ?thesis by auto
qed

lemma llfree_spec_put:
  assumes "llfree_spec mo N linv lfree get put" and "linv s" and "order \<le> mo" and "2 ^ order dvd f"
    and "block f order \<subseteq> {..<N}" and "block f order \<inter> lfree s = {}"
  shows "\<exists>s'. put s f order = Some s' \<and> linv s' \<and> lfree s' = lfree s \<union> block f order"
  using conjunct2 [OF conjunct2 [OF conjunct2 [OF assms(1) [unfolded llfree_spec_def]]]] assms(2-6)
  by blast

lemma mark_reserved_loop_ok:
  assumes spec: "llfree_spec mo N linv lfree get put"
  shows "linv s \<Longrightarrow> {f..<f + n} \<subseteq> lfree s \<Longrightarrow> (f + n) * PAGE_SIZE < 2 ^ 64 \<Longrightarrow>
    \<exists>s'. mark_reserved_loop get mo s (f * PAGE_SIZE) n = Inr s' \<and> linv s' \<and>
      lfree s' = lfree s - {f..<f + n}"
proof (induction n arbitrary: s f rule: less_induct)
  case (less n)
  show ?case
  proof (cases "n = 0")
    case True
    with less.prems show ?thesis by (simp add: mark_reserved_loop.simps [of get mo s])
  next
    case False
    have "f + n \<le> (f + n) * PAGE_SIZE" by (simp add: PAGE_SIZE_def)
    then have n64: "n < 2 ^ 64" using less.prems(3) by linarith
    obtain k where k: "k \<le> mo" "first_chunk mo n = 2 ^ k" "2 ^ k \<le> n"
      using first_chunk_power [of n mo] n64 False by auto
    obtain j where j: "j \<le> k" "reduce_chunk f (2 ^ k) = Inr (2 ^ j)" "2 ^ j dvd f"
      using reduce_chunk_aligned by blast
    have "(2::nat) ^ j \<le> 2 ^ k" using j(1) by (intro power_increasing) auto
    then have jn: "2 ^ j \<le> n" using k(3) by linarith
    then have "(2::nat) ^ j < 2 ^ 64" using n64 by linarith
    then have "j < 64" by (rule pow2_lessD)
    then have j63: "j \<le> 63" by simp
    have "block f j \<subseteq> lfree s" using less.prems(2) jn by (auto simp: block_def)
    then obtain s1 where s1: "get s (Some f) j = Some (f, s1)" "linv s1" "lfree s1 = lfree s - block f j"
      using llfree_spec_get_at [OF spec less.prems(1), of j f] j k(1) by auto
    have lim: "(f + 2 ^ j + (n - 2 ^ j)) * PAGE_SIZE < 2 ^ 64" using less.prems(3) jn by simp
    moreover have "(f + 2 ^ j) * PAGE_SIZE \<le> (f + 2 ^ j + (n - 2 ^ j)) * PAGE_SIZE" by simp
    ultimately have lim': "(f + 2 ^ j) * PAGE_SIZE < 2 ^ 64" by linarith
    have "mark_reserved_loop get mo s (f * PAGE_SIZE) n =
        mark_reserved_loop get mo s1 ((f + 2 ^ j) * PAGE_SIZE) (n - 2 ^ j)"
      using False k(2) j(2) s1(1) jn lim' alloc_internal_power [OF j63, of get s "Some f"]
      by (simp add: mark_reserved_loop.simps [of get mo s] add_mult_distrib not_le)
    moreover have "{f + 2 ^ j..<f + 2 ^ j + (n - 2 ^ j)} \<subseteq> lfree s1"
      using less.prems(2) s1(3) jn by (auto simp: block_def)
    with less.IH [of "n - 2 ^ j" s1 "f + 2 ^ j"] s1(2) lim False jn
    obtain s' where "mark_reserved_loop get mo s1 ((f + 2 ^ j) * PAGE_SIZE) (n - 2 ^ j) = Inr s'"
      "linv s'" "lfree s' = lfree s1 - {f + 2 ^ j..<f + n}"
      by auto
    moreover have "{f..<f + n} = block f j \<union> {f + 2 ^ j..<f + n}" using jn by (auto simp: block_def)
    ultimately show ?thesis using s1(3) by auto
  qed
qed

lemma mark_reserved_ok:
  assumes spec: "llfree_spec mo N linv lfree get put" and s: "linv s" and n: "0 < n"
    and sub: "{f..<f + n} \<subseteq> lfree s" and lim: "(f + n) * PAGE_SIZE < 2 ^ 64"
  shows "\<exists>s'. mark_reserved get mo s (f * PAGE_SIZE) n = Inr s' \<and> linv s' \<and>
    lfree s' = lfree s - {f..<f + n}"
  using mark_reserved_loop_ok [OF spec s sub lim] n by (simp add: mark_reserved_def)

lemma lf_finalize_loop_ok:
  assumes spec: "llfree_spec mo N linv lfree get put" and N: "N * PAGE_SIZE < 2 ^ 64"
  shows "canon lo (ivals rs) \<Longrightarrow>
    \<forall>r \<in> set rs. r_start r mod PAGE_SIZE = 0 \<and> r_end r mod PAGE_SIZE = 0 \<Longrightarrow>
    linv s \<Longrightarrow> {f. f * PAGE_SIZE \<in> cover (ivals rs)} \<subseteq> lfree s \<Longrightarrow>
    \<exists>s'. lf_finalize_loop get mo rs s = Inr s' \<and> linv s' \<and>
      lfree s' = lfree s - {f. f * PAGE_SIZE \<in> cover (ivals rs)}"
proof (induction rs arbitrary: lo s)
  case (Cons r rs)
  define a n where "a = r_start r div PAGE_SIZE" and "n = (r_end r - r_start r) div PAGE_SIZE"
  have r: "r_start r < r_end r" "canon (Suc (r_end r)) (ivals rs)" "r_start r mod PAGE_SIZE = 0"
    "r_end r mod PAGE_SIZE = 0" using Cons.prems by auto
  obtain b where b: "r_end r = b * PAGE_SIZE" using r(4) by (metis dvd_div_mult_self mod_0_imp_dvd)
  have a: "r_start r = a * PAGE_SIZE" using r(3) by (metis a_def dvd_div_mult_self mod_0_imp_dvd)
  then have n: "n = b - a" "a < b"
    using r(1) b by (simp_all add: n_def flip: diff_mult_distrib)
  have fs: "{f. f * PAGE_SIZE \<in> {r_start r..<r_end r}} = {a..<a + n}" using a b n by auto
  have sub: "{a..<a + n} \<subseteq> lfree s" using Cons.prems(4) fs by auto
  moreover have "lfree s \<subseteq> {..<N}" using spec Cons.prems(3) by (simp add: llfree_spec_def)
  moreover have "a + n - 1 \<in> {a..<a + n}" using n by simp
  ultimately have "a + n - 1 < N" by blast
  then have "a + n \<le> N" using n by simp
  then have "(a + n) * PAGE_SIZE \<le> N * PAGE_SIZE" by simp
  then have lim: "(a + n) * PAGE_SIZE < 2 ^ 64" using N by linarith
  obtain s1 where s1: "mark_reserved get mo s (r_start r) n = Inr s1" "linv s1" "lfree s1 = lfree s - {a..<a + n}"
    using mark_reserved_ok [OF spec Cons.prems(3) _ sub lim] n a by auto
  have "{f. f * PAGE_SIZE \<in> cover (ivals rs)} \<inter> {a..<a + n} = {}"
    unfolding fs [symmetric] using canon_Cons_disjoint [OF r(2), of "r_start r"] by blast
  then have "{f. f * PAGE_SIZE \<in> cover (ivals rs)} \<subseteq> lfree s1"
    using Cons.prems(4) s1(3) by auto
  then obtain s' where "lf_finalize_loop get mo rs s1 = Inr s'" "linv s'"
    "lfree s' = lfree s1 - {f. f * PAGE_SIZE \<in> cover (ivals rs)}"
    using Cons.IH [OF r(2) _ s1(2)] Cons.prems(2) by auto
  then show ?case using s1 r fs by (auto simp: n_def)
qed simp

lemma frames_below_limit: "l mod PAGE_SIZE = 0 \<Longrightarrow> f * PAGE_SIZE < l \<longleftrightarrow> f < l div PAGE_SIZE"
  by (auto simp: mod_eq_0_iff_dvd elim!: dvdE)

lemma limit_aligned: "wf_dram d \<Longrightarrow> DRAM_LIMIT d mod PAGE_SIZE = 0"
  using canon_paged_aligned [of 0 "[(0, DRAM_LIMIT d)]" 0 "DRAM_LIMIT d"]
  by (cases "DRAM_LIMIT d = 0") (auto simp: lessThan_atLeast0 wf_dram_def)

lemma lf_init_ok:
  assumes spec: "llfree_spec mo (DRAM_LIMIT d div PAGE_SIZE) linv lfree get put"
    and new: "new (DRAM_LIMIT d div PAGE_SIZE) = Some s" "linv s" "lfree s = {..<DRAM_LIMIT d div PAGE_SIZE}"
    and wf: "wf_dram d" and fin: "DRAM_FINALIZED d"
  shows "\<exists>s'. lf_init new get mo d = Inr s' \<and> linv s' \<and>
    lfree s' = {..<DRAM_LIMIT d div PAGE_SIZE} - {f. f * PAGE_SIZE \<in> bytes_of (RESERVED_REGIONS d)}"
proof -
  let ?rs = "live_regions (RESERVED_REGIONS d)"
  have w: "wf_set (RESERVED_REGIONS d)" "paged (bytes_of (RESERVED_REGIONS d))"
    "bytes_of (RESERVED_REGIONS d) \<subseteq> {..<DRAM_LIMIT d}" "DRAM_LIMIT d < 2 ^ 64"
    "paged {..<DRAM_LIMIT d}"
    using wf by (auto simp: wf_dram_def)
  have "DRAM_LIMIT d div PAGE_SIZE * PAGE_SIZE \<le> DRAM_LIMIT d" by simp
  then have N: "DRAM_LIMIT d div PAGE_SIZE * PAGE_SIZE < 2 ^ 64" using w(4) by linarith
  from limit_aligned [OF wf] have "f * PAGE_SIZE < DRAM_LIMIT d \<longleftrightarrow> f < DRAM_LIMIT d div PAGE_SIZE" for f
    by (rule frames_below_limit)
  then have sub: "{f. f * PAGE_SIZE \<in> cover (ivals ?rs)} \<subseteq> lfree s"
    using w(3) new(3) by (auto simp: bytes_of_def)
  show ?thesis
    using lf_finalize_loop_ok [OF spec N _ _ new(2) sub] wf_set_ivals [OF w(1)]
      live_region_aligned [OF w(1,2)] new fin
    by (auto simp: lf_init_def unwrap_def lf_finalize_def get_all_reserved_def bytes_of_def)
qed

section \<open>The binding is a frame allocator\<close>

definition lf_valid :: "nat \<Rightarrow> nat \<Rightarrow> phys_frame_range \<Rightarrow> bool" where
  "lf_valid max_order num_frames r \<longleftrightarrow>
     (\<exists>k \<le> max_order. k \<le> 63 \<and> 2 ^ k dvd fr_start r \<and> fr_end r = fr_start r + 2 ^ k \<and>
        fr_end r \<le> num_frames)"

lemma next_power_of_two_overflow:
  assumes "2 ^ 63 < n"
  shows "next_power_of_two n = Inl ArithOverflow"
proof -
  have n: "0 < n - 1" "2 ^ 63 \<le> n - 1" using assms by auto
  then have "(2::nat) ^ 63 < 2 ^ bit_length (n - 1)" using bit_length_bounds [OF n(1)] by linarith
  then have "63 < bit_length (n - 1)" by (rule pow2_lessD)
  then have "(2::nat) ^ 64 \<le> 2 ^ bit_length (n - 1)" by (intro power_increasing) auto
  then show ?thesis using assms by (simp add: next_power_of_two_def)
qed

lemma lf_alloc_result:
  assumes n: "0 < n" and al: "lf_alloc get s n = Inr (r, s')"
  obtains k where "k \<le> 63" "n \<le> 2 ^ k" "2 ^ k < 2 * n" "next_power_of_two n = Inr (2 ^ k)"
    "get s None k = Some (fr_start r, s')" "fr_end r = fr_start r + 2 ^ k"
proof -
  have "\<not> 2 ^ 63 < n"
    using al n next_power_of_two_overflow [of n]
    by (auto simp: lf_alloc_def alloc_internal_def round_up_pow2_def)
  then obtain k where k: "k \<le> 63" "next_power_of_two n = Inr (2 ^ k)" "n \<le> 2 ^ k" "2 ^ k < 2 * n"
    using next_power_of_two_ok [OF n] by auto
  with al n have "get s None k = Some (fr_start r, s')" "fr_end r = fr_start r + 2 ^ k"
    by (auto simp: lf_alloc_def alloc_internal_def round_up_pow2_def unwrap_def split: option.splits)
  with k show thesis by (intro that)
qed

lemma lf_free_power:
  assumes "fr_end r = fr_start r + 2 ^ k"
  shows "lf_free put s r = (case put s (fr_start r) k of
      Some s' \<Rightarrow> Inr s' | None \<Rightarrow> Inl (PanicMsg ''PageFrameAllocator: free error!''))"
  using assms by (simp add: lf_free_def frames_len_def)

lemma lf_frame_allocator:
  assumes spec: "llfree_spec mo N linv lfree get put"
  shows "frame_allocator linv lfree (lf_alloc get) (lf_free put) (lf_valid mo N)"
proof
  fix s n r s'
  assume s: "linv s" and n: "0 < n" and al: "lf_alloc get s n = Inr (r, s')"
  obtain k where k: "k \<le> 63" "n \<le> 2 ^ k" "get s None k = Some (fr_start r, s')" "fr_end r = fr_start r + 2 ^ k"
    using lf_alloc_result [OF n al] by blast
  note g = llfree_spec_get [OF spec s k(3)]
  have fs: "frame_set r = block (fr_start r) k" by (simp add: frame_set_def block_def k(4))
  have "lfree s \<subseteq> {..<N}" using spec s by (simp add: llfree_spec_def)
  moreover have "fr_start r + 2 ^ k - 1 \<in> block (fr_start r) k"
    unfolding block_def atLeastLessThan_iff
    by (intro conjI) (use one_le_power [of "2::nat" k] in linarith)+
  ultimately have "fr_start r + 2 ^ k - 1 < N" using g by blast
  then have "fr_end r \<le> N" using k(4) by simp
  then show "linv s' \<and> lf_valid mo N r \<and> n \<le> fr_end r - fr_start r \<and> frame_set r \<subseteq> lfree s \<and>
      lfree s' = lfree s - frame_set r"
    using g k fs by (auto simp: lf_valid_def)
next
  fix s r
  assume s: "linv s" and v: "lf_valid mo N r" and d: "frame_set r \<inter> lfree s = {}"
  obtain k where k: "k \<le> mo" "k \<le> 63" "2 ^ k dvd fr_start r" "fr_end r = fr_start r + 2 ^ k" "fr_end r \<le> N"
    using v by (auto simp: lf_valid_def)
  have fs: "frame_set r = block (fr_start r) k" by (simp add: frame_set_def block_def k(4))
  then have "block (fr_start r) k \<subseteq> {..<N}" using k(4,5) by (auto simp: block_def)
  from llfree_spec_put [OF spec s k(1,3) this] d fs lf_free_power [OF k(4), of put s]
  show "\<exists>s'. lf_free put s r = Inr s' \<and> linv s' \<and> lfree s' = lfree s \<union> frame_set r" by auto
qed (auto simp: lf_valid_def)

section \<open>An instance of the library's contract\<close>

text \<open>A set of free frames, searched from the bottom: the contract can be met.\<close>

definition demo_get :: "nat set \<Rightarrow> nat option \<Rightarrow> nat \<Rightarrow> (nat \<times> nat set) option" where
  "demo_get S start order =
     (if order > 5 then None
      else case start of
        Some f \<Rightarrow> if f mod 2 ^ order = 0 \<and> block f order \<subseteq> S then Some (f, S - block f order) else None
      | None \<Rightarrow> map_option (\<lambda>f. (f, S - block f order))
                 (find (\<lambda>f. f mod 2 ^ order = 0 \<and> block f order \<subseteq> S) [0..<64]))"

definition demo_put :: "nat set \<Rightarrow> nat \<Rightarrow> nat \<Rightarrow> nat set option" where
  "demo_put S f order = (if block f order \<inter> S = {} then Some (S \<union> block f order) else None)"

lemma demo_spec: "llfree_spec 5 N (\<lambda>S. S \<subseteq> {..<N}) id demo_get demo_put"
  unfolding llfree_spec_def
  by (auto simp: demo_get_def demo_put_def find_Some_iff mod_eq_0_iff_dvd split: if_splits option.splits)

lemma demo_alloc: "lf_alloc demo_get {..<64} 3 = Inr (\<lparr>fr_start = 0, fr_end = 4\<rparr>, {..<64} - {0..<4})"
proof -
  have "find (\<lambda>f. f mod 2 ^ 2 = 0 \<and> block f 2 \<subseteq> {..<64}) [0..<64] = Some 0"
    by (auto simp: find_Some_iff block_def intro!: exI [of _ 0])
  moreover have "next_power_of_two 3 = Inr (2 ^ 2)"
    by (simp add: next_power_of_two_def bit_length.simps)
  ultimately show ?thesis
    using trailing_zeros_power [of 2]
    by (simp add: lf_alloc_def alloc_internal_def round_up_pow2_def unwrap_def demo_get_def block_def)
qed

lemma demo_free:
  "lf_free demo_put ({..<64} - {0..<4}) \<lparr>fr_start = 0, fr_end = 4\<rparr> = Inr ({..<64} - {0..<4} \<union> {0..<4})"
  using lf_free_power [of "\<lparr>fr_start = 0, fr_end = 4\<rparr>" 2 demo_put "{..<64} - {0..<4}"]
  by (simp add: demo_put_def block_def Int_commute)

section \<open>Properties\<close>

text \<open>
  C9. Reserving a range during boot terminates without a panic and takes exactly the
  frames of the range out of the allocator, for every page-aligned start and every length:
  the loop cuts the range into naturally aligned power-of-two chunks.
\<close>

theorem mark_reserved_exact:
  assumes "llfree_spec max_order num_frames linv lfree get put" and "linv s" and "0 < n"
    and "{f..<f + n} \<subseteq> lfree s" and "(f + n) * PAGE_SIZE < 2 ^ 64"
  shows "\<exists>s'. mark_reserved get max_order s (f * PAGE_SIZE) n = Inr s' \<and> linv s' \<and>
    lfree s' = lfree s - {f..<f + n}"
  using assms by (rule mark_reserved_ok)

theorem mark_reserved_exact_witness:
  "\<exists>s'. mark_reserved demo_get 5 {..<64} (3 * PAGE_SIZE) 50 = Inr s' \<and> s' = {..<64} - {3..<53}"
proof -
  have "{3..<3 + 50} \<subseteq> id {..<64::nat}" by auto
  from mark_reserved_exact [OF demo_spec [of 64] _ _ this] show ?thesis by (simp add: PAGE_SIZE_def)
qed

text \<open>
  C10. With the LLFree binding no frame has two owners: whatever sequence of allocations and
  releases ran, the ranges handed out are pairwise disjoint, disjoint from the free frames,
  make up all frames together with them, and each of them can be released.
\<close>

theorem lf_owned_once:
  assumes "llfree_spec max_order num_frames linv lfree get put" and "linv s0"
    and "owned (lf_alloc get) (lf_free put) s0 s rs"
  shows "disjoint_ranges rs \<and> frames_of rs \<inter> lfree s = {} \<and> frames_of rs \<union> lfree s = lfree s0 \<and>
    (\<forall>r \<in> set rs. \<exists>s'. lf_free put s r = Inr s')"
  using frame_allocator.owned_disjoint [OF lf_frame_allocator [OF assms(1)] assms(3,2)]
    frame_allocator.owned_can_free [OF lf_frame_allocator [OF assms(1)] assms(3,2)]
  by blast

theorem lf_owned_once_witness:
  "\<exists>rs. owned (lf_alloc demo_get) (lf_free demo_put) {..<64} ({..<64} - {0..<4}) rs \<and>
     frames_of rs \<union> ({..<64} - {0..<4}) = {..<64}"
proof -
  have o: "owned (lf_alloc demo_get) (lf_free demo_put) {..<64} ({..<64} - {0..<4})
      [\<lparr>fr_start = 0, fr_end = 4\<rparr>]"
    using owned_alloc [OF owned_start, of 3] demo_alloc by simp
  have "frames_of [\<lparr>fr_start = 0, fr_end = 4\<rparr>] \<union> ({..<64} - {0..<4}) = {..<64}"
    using lf_owned_once [OF demo_spec [of 64] _ o] by simp
  with o show ?thesis by blast
qed

text \<open>
  With the LLFree binding the counter \<open>FREE_FRAMES\<close> drifts: allocation subtracts the
  number of frames asked for, release adds the number handed out, which is rounded up to a
  power of two. Each allocate-and-release pair leaves the counter too high by the difference.
\<close>

theorem lf_counter_drifts:
  assumes "0 < n" and "alloc_frames (lf_alloc get) m n = Inr (r, m')"
    and "free_frames (lf_free put) m' r = Inr m''"
  shows "\<exists>k. n \<le> 2 ^ k \<and> 2 ^ k < 2 * n \<and> FREE_FRAMES m'' = FREE_FRAMES m + of_nat (2 ^ k - n)"
proof -
  have al: "lf_alloc get (frames_impl m) n = Inr (r, frames_impl m')"
    and m': "FREE_FRAMES m' = FREE_FRAMES m - of_nat n"
    using assms(2) by (auto simp: alloc_frames_def and_then_Inr_iff)
  obtain k where k: "n \<le> 2 ^ k" "2 ^ k < 2 * n" "fr_end r = fr_start r + 2 ^ k"
    using lf_alloc_result [OF assms(1) al] by blast
  have "FREE_FRAMES m'' = FREE_FRAMES m' + of_nat (2 ^ k)"
    using assms(3) k(3) by (auto simp: free_frames_def frames_len_def and_then_Inr_iff)
  then show ?thesis using k(1,2) m' by (intro exI [of _ k]) (simp add: of_nat_diff)
qed

theorem lf_counter_drifts_witness:
  "\<exists>m' m''. alloc_frames (lf_alloc demo_get) \<lparr>FREE_FRAMES = 64, frames_impl = {..<64}\<rparr> 3 =
       Inr (\<lparr>fr_start = 0, fr_end = 4\<rparr>, m') \<and>
     free_frames (lf_free demo_put) m' \<lparr>fr_start = 0, fr_end = 4\<rparr> = Inr m'' \<and> FREE_FRAMES m'' = 65"
proof -
  let ?start = "\<lparr>FREE_FRAMES = 64, frames_impl = {..<64}\<rparr> :: nat set frame_memory"
  let ?after = "\<lparr>FREE_FRAMES = 61, frames_impl = {..<64} - {0..<4}\<rparr> :: nat set frame_memory"
  have al: "alloc_frames (lf_alloc demo_get) ?start 3 = Inr (\<lparr>fr_start = 0, fr_end = 4\<rparr>, ?after)"
    by (simp add: alloc_frames_def demo_alloc)
  obtain m'' where fr: "free_frames (lf_free demo_put) ?after \<lparr>fr_start = 0, fr_end = 4\<rparr> = Inr m''"
    by (simp add: free_frames_def frames_len_def demo_free)
  obtain k where k: "3 \<le> (2::nat) ^ k" "(2::nat) ^ k < 6" "FREE_FRAMES m'' = 64 + of_nat (2 ^ k - 3)"
    using lf_counter_drifts [OF _ al fr] by auto
  have "k < 3" using k(2) pow2_lessD [of k 3] by simp
  with k(1) have "k = 2" by (auto simp: less_Suc_eq numeral_eq_Suc)
  with k(3) al fr show ?thesis by auto
qed

end
