(* ===== verification/Paging.thy ===== *)
theory Paging
  imports FrameAlloc
begin

text \<open>
  The page tables, \<open>os/kernel/src/memory/pages.rs\<close>.

  A page table is a tree: a table is a frame with 512 entries, and every entry above level 1
  that is in use owns the table of the next level, which was allocated for it alone. An entry
  of level 1 holds a frame and its flags. Pages and frames are represented by their numbers.
  The frame allocator is a parameter: \<open>alloc\<close> and \<open>free\<close> are \<open>memory::alloc_frames\<close> and
  \<open>memory::free_frames\<close> on some state \<open>'s\<close>.
\<close>

section \<open>Data\<close>

type_synonym pflags = "64 word"

definition PRESENT :: pflags where "PRESENT = 1"
definition WRITABLE :: pflags where "WRITABLE = 2"
definition USER_ACCESSIBLE :: pflags where "USER_ACCESSIBLE = 4"
definition NO_CACHE :: pflags where "NO_CACHE = 16"

record page_range =
  pg_start :: nat
  pg_end :: nat

datatype page_table = PT nat "pte list"
and pte = Unused | PageEntry nat pflags | TableEntry page_table pflags

definition is_unused :: "pte \<Rightarrow> bool" where
  "is_unused e \<longleftrightarrow> (case e of Unused \<Rightarrow> True | _ \<Rightarrow> False)"

text \<open>An entry whose 64 bits are all zero is unused.\<close>

definition set_addr :: "nat \<Rightarrow> pflags \<Rightarrow> pte" where
  "set_addr frame flags = (if frame = 0 \<and> flags = 0 then Unused else PageEntry frame flags)"

definition set_entry_flags :: "pte \<Rightarrow> pflags \<Rightarrow> pte" where
  "set_entry_flags e flags = (case e of
     Unused \<Rightarrow> set_addr 0 flags
   | PageEntry frame _ \<Rightarrow> set_addr frame flags
   | TableEntry t _ \<Rightarrow> TableEntry t flags)"

record paging =
  root_table :: page_table
  depth :: nat

definition zero_table :: "nat \<Rightarrow> page_table" where
  "zero_table frame = PT frame (replicate 512 Unused)"

definition page_table_index :: "nat \<Rightarrow> nat \<Rightarrow> nat" where
  "page_table_index page level = page div 512 ^ (level - 1) mod 512"

section \<open>Loops over the entries of a table\<close>

text \<open>
  \<open>for entry in table.iter_mut().skip(start_index)\<close> on the levels above 1: the body
  reports the number of pages it dealt with, \<open>pages.start\<close> advances by it, and the loop ends
  when the range is used up. The body returns \<open>None\<close> for \<open>continue\<close>.
\<close>

fun for_entries ::
    "(pte \<Rightarrow> page_range \<Rightarrow> 's \<Rightarrow> (nat \<times> pte \<times> 's) option run) \<Rightarrow> pte list \<Rightarrow> page_range \<Rightarrow> 's \<Rightarrow>
     (nat \<times> pte list \<times> 's) run" where
  "for_entries body [] pages s = Inr (0, [], s)"
| "for_entries body (entry # es) pages s =
     and_then (body entry pages s) (\<lambda>r. case r of
       None \<Rightarrow> and_then (for_entries body es pages s) (\<lambda>(n, es', s'). Inr (n, entry # es', s'))
     | Some (n, entry', s') \<Rightarrow>
         let pages' = pages\<lparr>pg_start := pg_start pages + n\<rparr> in
         if pg_start pages' \<ge> pg_end pages' then Inr (n, entry' # es, s')
         else and_then (for_entries body es pages' s')
                (\<lambda>(m, es', s''). Inr (n + m, entry' # es', s'')))"

definition walk_table ::
    "(pte \<Rightarrow> page_range \<Rightarrow> 's \<Rightarrow> (nat \<times> pte \<times> 's) option run) \<Rightarrow> nat \<Rightarrow> page_table \<Rightarrow> page_range \<Rightarrow> 's \<Rightarrow>
     (nat \<times> page_table \<times> 's) run" where
  "walk_table body level t pages s = (case t of PT f es \<Rightarrow>
     let start_index = page_table_index (pg_start pages) level in
     and_then (for_entries body (drop start_index es) pages s)
       (\<lambda>(n, es', s'). Inr (n, PT f (take start_index es @ es'), s')))"

text \<open>
  \<open>for (count, entry) in table.iter_mut().skip(start_index).enumerate()\<close> on level 1, with
  its \<open>if count >= n { break; }\<close>.
\<close>

fun first_entries ::
    "(pte \<Rightarrow> 'x \<Rightarrow> (pte \<times> 'x) run) \<Rightarrow> nat \<Rightarrow> pte list \<Rightarrow> 'x \<Rightarrow> (pte list \<times> 'x) run" where
  "first_entries f 0 es x = Inr (es, x)"
| "first_entries f (Suc n) [] x = Inr ([], x)"
| "first_entries f (Suc n) (entry # es) x =
     and_then (f entry x) (\<lambda>(entry', x').
     and_then (first_entries f n es x') (\<lambda>(es', x''). Inr (entry' # es', x'')))"

definition leaf_table ::
    "(pte \<Rightarrow> 'x \<Rightarrow> (pte \<times> 'x) run) \<Rightarrow> page_table \<Rightarrow> page_range \<Rightarrow> 'x \<Rightarrow> (nat \<times> page_table \<times> 'x) run" where
  "leaf_table f t pages x = (case t of PT fr es \<Rightarrow>
     let start_index = page_table_index (pg_start pages) 1 in
     if pg_end pages < pg_start pages then Inl ArithOverflow
     else
       let n = min (pg_end pages - pg_start pages) (512 - start_index) in
       and_then (first_entries f n (drop start_index es) x)
         (\<lambda>(es', x'). Inr (n, PT fr (take start_index es @ es'), x')))"

section \<open>Mapping\<close>

definition identity_map_kernel :: "page_table \<Rightarrow> page_range \<Rightarrow> pflags \<Rightarrow> (nat \<times> page_table) run" where
  "identity_map_kernel t pages flags =
     and_then (leaf_table (\<lambda>entry frame_addr. Inr (set_addr frame_addr flags, frame_addr + 1))
                 t pages (pg_start pages))
       (\<lambda>(n, t', _). Inr (n, t'))"

definition map_user ::
    "('s \<Rightarrow> nat \<Rightarrow> (phys_frame_range \<times> 's) run) \<Rightarrow> page_table \<Rightarrow> page_range \<Rightarrow> pflags \<Rightarrow> 's \<Rightarrow>
     (nat \<times> page_table \<times> 's) run" where
  "map_user alloc t pages flags s =
     leaf_table (\<lambda>entry s. and_then (alloc s 1) (\<lambda>(r, s'). Inr (set_addr (fr_start r) flags, s')))
       t pages s"

definition map_user_physical ::
    "page_table \<Rightarrow> phys_frame_range \<Rightarrow> page_range \<Rightarrow> pflags \<Rightarrow> (nat \<times> page_table) run" where
  "map_user_physical t frames pages flags =
     and_then (leaf_table (\<lambda>entry frame_iter.
                 if fr_start frame_iter < fr_end frame_iter
                 then Inr (set_addr (fr_start frame_iter) flags,
                           frame_iter\<lparr>fr_start := fr_start frame_iter + 1\<rparr>)
                 else Inl UnwrapNone) t pages frames)
       (\<lambda>(n, t', _). Inr (n, t'))"

definition advance :: "phys_frame_range \<Rightarrow> nat \<Rightarrow> phys_frame_range" where
  "advance frames n =
     (if fr_end frames > fr_start frames then frames\<lparr>fr_start := fr_start frames + n\<rparr> else frames)"

text \<open>
  The loop body above level 1; \<open>map_next\<close> is the recursive call. The loop state is the
  variable \<open>frames\<close> and the state of the allocator.
\<close>

definition map_entry ::
    "('s \<Rightarrow> nat \<Rightarrow> (phys_frame_range \<times> 's) run) \<Rightarrow> pflags \<Rightarrow>
     (page_table \<Rightarrow> phys_frame_range \<Rightarrow> page_range \<Rightarrow> 's \<Rightarrow> (nat \<times> page_table \<times> 's) run) \<Rightarrow>
     pte \<Rightarrow> page_range \<Rightarrow> phys_frame_range \<times> 's \<Rightarrow> (nat \<times> pte \<times> phys_frame_range \<times> 's) option run" where
  "map_entry alloc flags map_next entry pages = (\<lambda>(frames, s).
     and_then
       (case entry of
          Unused \<Rightarrow> and_then (alloc s 1) (\<lambda>(r, s'). Inr (zero_table (fr_start r), flags, s'))
        | TableEntry t fl \<Rightarrow> Inr (t, fl, s)
        | PageEntry _ _ \<Rightarrow> Inl (PanicMsg ''page entry above level 1''))
       (\<lambda>(t, fl, s').
          and_then (map_next t frames pages s') (\<lambda>(n, t', s'').
            Inr (Some (n, TableEntry t' fl, advance frames n, s'')))))"

primrec map_in_table ::
    "('s \<Rightarrow> nat \<Rightarrow> (phys_frame_range \<times> 's) run) \<Rightarrow> memory_space \<Rightarrow> pflags \<Rightarrow> nat \<Rightarrow>
     page_table \<Rightarrow> phys_frame_range \<Rightarrow> page_range \<Rightarrow> 's \<Rightarrow> (nat \<times> page_table \<times> 's) run" where
  "map_in_table alloc space flags 0 = (\<lambda>t frames pages s. Inl ArithOverflow)"
| "map_in_table alloc space flags (Suc l) = (\<lambda>t frames pages s.
     if l > 0 then
       and_then (walk_table (map_entry alloc flags (map_in_table alloc space flags l)) (Suc l)
                   t pages (frames, s))
         (\<lambda>(n, t', _, s'). Inr (n, t', s'))
     else (case space of
         Kernel \<Rightarrow> and_then (identity_map_kernel t pages flags) (\<lambda>(n, t'). Inr (n, t', s))
       | User \<Rightarrow>
           if fr_start frames = fr_end frames then map_user alloc t pages flags s
           else and_then (map_user_physical t frames pages flags) (\<lambda>(n, t'). Inr (n, t', s))))"

definition map_pages ::
    "('s \<Rightarrow> nat \<Rightarrow> (phys_frame_range \<times> 's) run) \<Rightarrow> paging \<Rightarrow> page_range \<Rightarrow> memory_space \<Rightarrow> pflags \<Rightarrow>
     's \<Rightarrow> (paging \<times> 's) run" where
  "map_pages alloc p pages space flags s =
     and_then (map_in_table alloc space flags (depth p) (root_table p)
                 \<lparr>fr_start = 0, fr_end = 0\<rparr> pages s)
       (\<lambda>(n, t, s'). Inr (p\<lparr>root_table := t\<rparr>, s'))"

definition pages_len :: "page_range \<Rightarrow> nat run" where
  "pages_len pages =
     (if pg_start pages \<le> pg_end pages then Inr (pg_end pages - pg_start pages) else Inl ArithOverflow)"

definition map_physical ::
    "('s \<Rightarrow> nat \<Rightarrow> (phys_frame_range \<times> 's) run) \<Rightarrow> paging \<Rightarrow> phys_frame_range \<Rightarrow> page_range \<Rightarrow>
     memory_space \<Rightarrow> pflags \<Rightarrow> 's \<Rightarrow> (paging \<times> 's) run" where
  "map_physical alloc p frames pages space flags s =
     and_then (frames_len frames) (\<lambda>nf. and_then (pages_len pages) (\<lambda>np.
     if nf \<noteq> np then Inl AssertFailed
     else and_then (map_in_table alloc space flags (depth p) (root_table p) frames pages s)
       (\<lambda>(n, t, s'). Inr (p\<lparr>root_table := t\<rparr>, s'))))"

definition map_io ::
    "('s \<Rightarrow> nat \<Rightarrow> (phys_frame_range \<times> 's) run) \<Rightarrow> paging \<Rightarrow> phys_frame_range \<Rightarrow> 's \<Rightarrow>
     (page_range \<times> paging \<times> 's) run" where
  "map_io alloc p frames s =
     (let pages = \<lparr>pg_start = fr_start frames, pg_end = fr_end frames\<rparr> in
      and_then (map_pages alloc p pages Kernel (or (or PRESENT WRITABLE) NO_CACHE) s)
        (\<lambda>(p', s'). Inr (pages, p', s')))"

section \<open>Translation\<close>

primrec translate_in_table :: "nat \<Rightarrow> page_table \<Rightarrow> nat \<Rightarrow> nat option" where
  "translate_in_table 0 = (\<lambda>t addr. None)"
| "translate_in_table (Suc l) = (\<lambda>t addr. case t of PT f es \<Rightarrow>
     let aligned_addr = addr - addr mod PAGE_SIZE;
         entry = es ! page_table_index (aligned_addr div PAGE_SIZE) (Suc l)
     in if is_unused entry then None
        else if l > 0 then
          (case entry of TableEntry t' _ \<Rightarrow> translate_in_table l t' addr | _ \<Rightarrow> None)
        else (case entry of PageEntry frame _ \<Rightarrow> Some (frame * PAGE_SIZE + (addr - aligned_addr)) | _ \<Rightarrow> None))"

definition translate :: "paging \<Rightarrow> nat \<Rightarrow> nat option" where
  "translate p addr = translate_in_table (depth p) (root_table p) addr"

section \<open>Unmapping and flags\<close>

definition is_table_empty :: "page_table \<Rightarrow> bool" where
  "is_table_empty t = (case t of PT f es \<Rightarrow> list_all is_unused es)"

definition one_frame :: "nat \<Rightarrow> phys_frame_range" where
  "one_frame frame = \<lparr>fr_start = frame, fr_end = frame + 1\<rparr>"

fun pt_frame :: "page_table \<Rightarrow> nat" where
  "pt_frame (PT f es) = f"

definition unmap_entry ::
    "('s \<Rightarrow> phys_frame_range \<Rightarrow> 's run) \<Rightarrow>
     (page_table \<Rightarrow> page_range \<Rightarrow> 's \<Rightarrow> (nat \<times> page_table \<times> 's) run) \<Rightarrow>
     pte \<Rightarrow> page_range \<Rightarrow> 's \<Rightarrow> (nat \<times> pte \<times> 's) option run" where
  "unmap_entry free unmap_next entry pages s = (case entry of
       Unused \<Rightarrow> Inr None
     | PageEntry _ _ \<Rightarrow> Inl (PanicMsg ''page entry above level 1'')
     | TableEntry t fl \<Rightarrow>
         and_then (unmap_next t pages s) (\<lambda>(n, t', s').
         if is_table_empty t' then
           and_then (free s' (one_frame (pt_frame t'))) (\<lambda>s''. Inr (Some (n, Unused, s'')))
         else Inr (Some (n, TableEntry t' fl, s'))))"

definition unmap_page ::
    "('s \<Rightarrow> phys_frame_range \<Rightarrow> 's run) \<Rightarrow> bool \<Rightarrow> pte \<Rightarrow> 's \<Rightarrow> (pte \<times> 's) run" where
  "unmap_page free free_physical entry s = (case entry of
       PageEntry frame _ \<Rightarrow>
         if free_physical then and_then (free s (one_frame frame)) (\<lambda>s'. Inr (Unused, s'))
         else Inr (Unused, s)
     | TableEntry _ _ \<Rightarrow> Inl (PanicMsg ''table entry on level 1'')
     | Unused \<Rightarrow> Inr (entry, s))"

primrec unmap_in_table ::
    "('s \<Rightarrow> phys_frame_range \<Rightarrow> 's run) \<Rightarrow> bool \<Rightarrow> nat \<Rightarrow> page_table \<Rightarrow> page_range \<Rightarrow> 's \<Rightarrow>
     (nat \<times> page_table \<times> 's) run" where
  "unmap_in_table free free_physical 0 = (\<lambda>t pages s. Inl ArithOverflow)"
| "unmap_in_table free free_physical (Suc l) = (\<lambda>t pages s.
     if l > 0 then walk_table (unmap_entry free (unmap_in_table free free_physical l)) (Suc l) t pages s
     else leaf_table (unmap_page free free_physical) t pages s)"

definition unmap ::
    "('s \<Rightarrow> phys_frame_range \<Rightarrow> 's run) \<Rightarrow> paging \<Rightarrow> page_range \<Rightarrow> bool \<Rightarrow> 's \<Rightarrow> (paging \<times> 's) run" where
  "unmap free p pages free_physical s =
     and_then (unmap_in_table free free_physical (depth p) (root_table p) pages s)
       (\<lambda>(n, t, s'). Inr (p\<lparr>root_table := t\<rparr>, s'))"

definition set_flags_entry ::
    "(page_table \<Rightarrow> page_range \<Rightarrow> unit \<Rightarrow> (nat \<times> page_table \<times> unit) run) \<Rightarrow>
     pte \<Rightarrow> page_range \<Rightarrow> unit \<Rightarrow> (nat \<times> pte \<times> unit) option run" where
  "set_flags_entry next entry pages s = (case entry of
       Unused \<Rightarrow> Inr None
     | PageEntry _ _ \<Rightarrow> Inl (PanicMsg ''page entry above level 1'')
     | TableEntry t fl \<Rightarrow>
         and_then (next t pages s) (\<lambda>(n, t', s'). Inr (Some (n, TableEntry t' fl, s'))))"

primrec set_flags_in_table ::
    "pflags \<Rightarrow> nat \<Rightarrow> page_table \<Rightarrow> page_range \<Rightarrow> unit \<Rightarrow> (nat \<times> page_table \<times> unit) run" where
  "set_flags_in_table flags 0 = (\<lambda>t pages s. Inl ArithOverflow)"
| "set_flags_in_table flags (Suc l) = (\<lambda>t pages s.
     if l > 0 then walk_table (set_flags_entry (set_flags_in_table flags l)) (Suc l) t pages s
     else leaf_table (\<lambda>entry s. Inr (set_entry_flags entry flags, s)) t pages s)"

definition set_flags :: "paging \<Rightarrow> page_range \<Rightarrow> pflags \<Rightarrow> paging run" where
  "set_flags p pages flags =
     and_then (set_flags_in_table flags (depth p) (root_table p) pages ())
       (\<lambda>(n, t, _). Inr (p\<lparr>root_table := t\<rparr>))"

section \<open>Creating, copying and dropping tables\<close>

definition paging_new ::
    "('s \<Rightarrow> nat \<Rightarrow> (phys_frame_range \<times> 's) run) \<Rightarrow> nat \<Rightarrow> 's \<Rightarrow> (paging \<times> 's) run" where
  "paging_new alloc levels s =
     and_then (alloc s 1) (\<lambda>(r, s'). Inr (\<lparr>root_table = zero_table (fr_start r), depth = levels\<rparr>, s'))"

text \<open>\<open>copy_entries\<close> is the loop over the entries; the target table is overwritten entry by entry.\<close>

fun copy_entries ::
    "('s \<Rightarrow> nat \<Rightarrow> (phys_frame_range \<times> 's) run) \<Rightarrow>
     (page_table \<Rightarrow> nat \<Rightarrow> 's \<Rightarrow> (page_table \<times> 's) run) \<Rightarrow> pte list \<Rightarrow> 's \<Rightarrow> (pte list \<times> 's) run" where
  "copy_entries alloc copy [] s = Inr ([], s)"
| "copy_entries alloc copy (source # es) s = (case source of
       Unused \<Rightarrow> and_then (copy_entries alloc copy es s) (\<lambda>(es', s'). Inr (Unused # es', s'))
     | PageEntry _ _ \<Rightarrow> Inl (PanicMsg ''page entry above level 1'')
     | TableEntry t fl \<Rightarrow>
         and_then (alloc s 1) (\<lambda>(r, s1).
         and_then (copy t (fr_start r) s1) (\<lambda>(t', s2).
         and_then (copy_entries alloc copy es s2) (\<lambda>(es', s3). Inr (TableEntry t' fl # es', s3)))))"

primrec copy_table ::
    "('s \<Rightarrow> nat \<Rightarrow> (phys_frame_range \<times> 's) run) \<Rightarrow> nat \<Rightarrow> page_table \<Rightarrow> nat \<Rightarrow> 's \<Rightarrow> (page_table \<times> 's) run" where
  "copy_table alloc 0 = (\<lambda>source frame s. case source of PT f es \<Rightarrow> Inr (PT frame es, s))"
| "copy_table alloc (Suc l) = (\<lambda>source frame s. case source of PT f es \<Rightarrow>
     if l > 0 then
       and_then (copy_entries alloc (copy_table alloc l) es s) (\<lambda>(es', s'). Inr (PT frame es', s'))
     else Inr (PT frame es, s))"

definition from_other ::
    "('s \<Rightarrow> nat \<Rightarrow> (phys_frame_range \<times> 's) run) \<Rightarrow> paging \<Rightarrow> 's \<Rightarrow> (paging \<times> 's) run" where
  "from_other alloc other s =
     and_then (paging_new alloc (depth other) s) (\<lambda>(p, s').
     and_then (copy_table alloc (depth other) (root_table other) (pt_frame (root_table p)) s')
       (\<lambda>(t, s''). Inr (p\<lparr>root_table := t\<rparr>, s'')))"

fun drop_entries ::
    "(page_table \<Rightarrow> 's \<Rightarrow> 's run) \<Rightarrow> pte list \<Rightarrow> 's \<Rightarrow> 's run" where
  "drop_entries drop_next [] s = Inr s"
| "drop_entries drop_next (entry # es) s = (case entry of
       TableEntry t _ \<Rightarrow> and_then (drop_next t s) (\<lambda>s'. drop_entries drop_next es s')
     | _ \<Rightarrow> drop_entries drop_next es s)"

primrec drop_table :: "('s \<Rightarrow> phys_frame_range \<Rightarrow> 's run) \<Rightarrow> nat \<Rightarrow> page_table \<Rightarrow> 's \<Rightarrow> 's run" where
  "drop_table free 0 = (\<lambda>t s. free s (one_frame (pt_frame t)))"
| "drop_table free (Suc l) = (\<lambda>t s. case t of PT f es \<Rightarrow>
     and_then (if l > 0 then drop_entries (drop_table free l) es s else Inr s)
       (\<lambda>s'. free s' (one_frame f)))"

definition paging_drop :: "('s \<Rightarrow> phys_frame_range \<Rightarrow> 's run) \<Rightarrow> paging \<Rightarrow> 's \<Rightarrow> 's run" where
  "paging_drop free p s = drop_table free (depth p) (root_table p) s"

section \<open>The mapping a table stands for\<close>

primrec wf_table :: "nat \<Rightarrow> page_table \<Rightarrow> bool" where
  "wf_table 0 = (\<lambda>t. False)"
| "wf_table (Suc l) = (\<lambda>t. case t of PT f es \<Rightarrow> length es = 512 \<and>
     (\<forall>e \<in> set es. case e of
        Unused \<Rightarrow> True
      | PageEntry _ _ \<Rightarrow> l = 0
      | TableEntry t' _ \<Rightarrow> l > 0 \<and> wf_table l t'))"

text \<open>The frame and flags a page is mapped to.\<close>

primrec lookup :: "nat \<Rightarrow> page_table \<Rightarrow> nat \<Rightarrow> (nat \<times> pflags) option" where
  "lookup 0 = (\<lambda>t page. None)"
| "lookup (Suc l) = (\<lambda>t page. case t of PT f es \<Rightarrow>
     (case es ! page_table_index page (Suc l) of
        Unused \<Rightarrow> None
      | PageEntry frame flags \<Rightarrow> Some (frame, flags)
      | TableEntry t' _ \<Rightarrow> lookup l t' page))"

definition wf_entry :: "nat \<Rightarrow> pte \<Rightarrow> bool" where
  "wf_entry l e \<longleftrightarrow> (case e of
     Unused \<Rightarrow> True | PageEntry _ _ \<Rightarrow> l = 0 | TableEntry t _ \<Rightarrow> l > 0 \<and> wf_table l t)"

definition entry_lookup :: "nat \<Rightarrow> pte \<Rightarrow> nat \<Rightarrow> (nat \<times> pflags) option" where
  "entry_lookup l e page = (case e of
     Unused \<Rightarrow> None | PageEntry frame flags \<Rightarrow> Some (frame, flags) | TableEntry t _ \<Rightarrow> lookup l t page)"

lemma entry_simps [simp]:
  "wf_entry l Unused" "wf_entry l (PageEntry f fl) \<longleftrightarrow> l = 0"
  "wf_entry l (TableEntry t fl) \<longleftrightarrow> l > 0 \<and> wf_table l t"
  "entry_lookup l Unused p = None" "entry_lookup l (PageEntry f fl) p = Some (f, fl)"
  "entry_lookup l (TableEntry t fl) p = lookup l t p"
  "is_unused Unused" "\<not> is_unused (PageEntry f fl)" "\<not> is_unused (TableEntry t fl)"
  by (simp_all add: wf_entry_def entry_lookup_def is_unused_def)

lemma wf_table_PT [simp]:
  "wf_table (Suc l) (PT f es) \<longleftrightarrow> length es = 512 \<and> (\<forall>e \<in> set es. wf_entry l e)"
  by (simp add: wf_entry_def)

lemma lookup_PT [simp]:
  "lookup (Suc l) (PT f es) p = entry_lookup l (es ! page_table_index p (Suc l)) p"
  by (simp add: entry_lookup_def)

declare wf_table.simps(2) [simp del] lookup.simps(2) [simp del]

lemma page_table_index_less [simp]: "page_table_index p l < 512"
  by (simp add: page_table_index_def)

lemma translate_lookup:
  "wf_table l t \<Longrightarrow> translate_in_table l t addr =
     map_option (\<lambda>(frame, flags). frame * PAGE_SIZE + addr mod PAGE_SIZE) (lookup l t (addr div PAGE_SIZE))"
proof (induction l arbitrary: t)
  case (Suc l)
  obtain f es where t: "t = PT f es" by (cases t)
  let ?i = "page_table_index (addr div PAGE_SIZE) (Suc l)"
  have al: "(addr - addr mod PAGE_SIZE) div PAGE_SIZE = addr div PAGE_SIZE"
    by (metis minus_mod_eq_div_mult nonzero_mult_div_cancel_right PAGE_SIZE_nonzero)
  have off: "addr - (addr - addr mod PAGE_SIZE) = addr mod PAGE_SIZE" by simp
  have "wf_entry l (es ! ?i)" using Suc.prems t by (simp add: Ball_set list_all_length)
  with Suc.IH al off show ?case by (cases "es ! ?i") (auto simp: t Let_def)
qed simp

section \<open>Walking a range of pages\<close>

text \<open>
  One specification for the three walkers (\<open>map_in_table\<close>, \<open>unmap_in_table\<close>,
  \<open>set_flags_in_table\<close>): run on a range that starts in the table, the walker deals with the
  part of the range that lies in the table. \<open>need\<close> is what the walker asks of a page of the
  range before, \<open>hit\<close> what holds of it afterwards; every other page keeps its mapping.
  \<open>st\<close> is the condition on the walker's state, \<open>err\<close> the panics it may pass on.
\<close>

definition chunk :: "nat \<Rightarrow> page_range \<Rightarrow> nat" where
  "chunk l pages = min (pg_end pages - pg_start pages) (512 ^ l - pg_start pages mod 512 ^ l)"

definition same_table :: "nat \<Rightarrow> page_range \<Rightarrow> nat \<Rightarrow> bool" where
  "same_table l pages p \<longleftrightarrow> p div 512 ^ l = pg_start pages div 512 ^ l"

definition in_range :: "page_range \<Rightarrow> nat \<Rightarrow> bool" where
  "in_range pages p \<longleftrightarrow> pg_start pages \<le> p \<and> p < pg_end pages"

definition skip_pages :: "page_range \<Rightarrow> nat \<Rightarrow> page_range" where
  "skip_pages pages n = pages\<lparr>pg_start := pg_start pages + n\<rparr>"

type_synonym mapping_of = "nat \<Rightarrow> (nat \<times> pflags) option"

definition updated ::
    "(nat \<Rightarrow> bool) \<Rightarrow> (nat \<Rightarrow> (nat \<times> pflags) option \<Rightarrow> bool) \<Rightarrow> page_range \<Rightarrow> mapping_of \<Rightarrow> mapping_of \<Rightarrow> bool" where
  "updated here hit pages old new \<longleftrightarrow>
     (\<forall>p. here p \<longrightarrow> (if in_range pages p then hit p (new p) else new p = old p))"

definition walker ::
    "nat \<Rightarrow> (nat \<Rightarrow> (nat \<times> pflags) option \<Rightarrow> bool) \<Rightarrow> (nat \<Rightarrow> (nat \<times> pflags) option \<Rightarrow> bool) \<Rightarrow>
     ('s \<Rightarrow> page_range \<Rightarrow> bool) \<Rightarrow> (panic \<Rightarrow> bool) \<Rightarrow>
     (page_table \<Rightarrow> page_range \<Rightarrow> 's \<Rightarrow> (nat \<times> page_table \<times> 's) run) \<Rightarrow> bool" where
  "walker l need hit st err F \<longleftrightarrow> (\<forall>t pages s. wf_table l t \<longrightarrow> pg_start pages < pg_end pages \<longrightarrow>
     st s pages \<longrightarrow> (\<forall>p. same_table l pages p \<longrightarrow> in_range pages p \<longrightarrow> need p (lookup l t p)) \<longrightarrow>
     (\<exists>x. F t pages s = Inl x \<and> err x) \<or>
     (\<exists>n t' s'. F t pages s = Inr (n, t', s') \<and> n = chunk l pages \<and> wf_table l t' \<and>
        updated (same_table l pages) hit pages (lookup l t) (lookup l t') \<and>
        (pg_start pages + n < pg_end pages \<longrightarrow> st s' (skip_pages pages n))))"

definition entry_walker ::
    "nat \<Rightarrow> (nat \<Rightarrow> (nat \<times> pflags) option \<Rightarrow> bool) \<Rightarrow> (nat \<Rightarrow> (nat \<times> pflags) option \<Rightarrow> bool) \<Rightarrow>
     ('s \<Rightarrow> page_range \<Rightarrow> bool) \<Rightarrow> (panic \<Rightarrow> bool) \<Rightarrow>
     (pte \<Rightarrow> page_range \<Rightarrow> 's \<Rightarrow> (nat \<times> pte \<times> 's) option run) \<Rightarrow> bool" where
  "entry_walker l need hit st err body \<longleftrightarrow> (\<forall>e pages s. wf_entry l e \<longrightarrow> pg_start pages < pg_end pages \<longrightarrow>
     st s pages \<longrightarrow> (\<forall>p. same_table l pages p \<longrightarrow> in_range pages p \<longrightarrow> need p (entry_lookup l e p)) \<longrightarrow>
     (\<exists>x. body e pages s = Inl x \<and> err x) \<or>
     (\<exists>n e' s'. body e pages s = Inr (Some (n, e', s')) \<and> n = chunk l pages \<and> wf_entry l e' \<and>
        updated (same_table l pages) hit pages (entry_lookup l e) (entry_lookup l e') \<and>
        (pg_start pages + n < pg_end pages \<longrightarrow> st s' (skip_pages pages n))))"

text \<open>The pages of entry \<open>j\<close>, counted from the entry of \<open>pages.start\<close>.\<close>

definition entry_pages :: "nat \<Rightarrow> page_range \<Rightarrow> nat \<Rightarrow> nat \<Rightarrow> bool" where
  "entry_pages l pages j p \<longleftrightarrow> p div 512 ^ l = pg_start pages div 512 ^ l + j"

definition entries_done ::
    "nat \<Rightarrow> (nat \<Rightarrow> (nat \<times> pflags) option \<Rightarrow> bool) \<Rightarrow> ('s \<Rightarrow> page_range \<Rightarrow> bool) \<Rightarrow> pte list \<Rightarrow> page_range \<Rightarrow>
     nat \<Rightarrow> pte list \<Rightarrow> 's \<Rightarrow> bool" where
  "entries_done l hit st es pages n es' s' \<longleftrightarrow>
     n = min (pg_end pages - pg_start pages)
           ((pg_start pages div 512 ^ l + length es) * 512 ^ l - pg_start pages) \<and>
     length es' = length es \<and> (\<forall>e \<in> set es'. wf_entry l e) \<and>
     (\<forall>j < length es. updated (entry_pages l pages j) hit pages (entry_lookup l (es ! j)) (entry_lookup l (es' ! j))) \<and>
     (pg_start pages + n < pg_end pages \<longrightarrow> st s' (skip_pages pages n))"

lemma region_step:
  fixes s B e :: nat
  assumes "0 < B" and "s + min (e - s) (B - s mod B) < e"
  shows "min (e - s) (B - s mod B) = B - s mod B" and "s + (B - s mod B) = (s div B + 1) * B"
    and "(s + (B - s mod B)) div B = s div B + 1"
proof -
  show m: "min (e - s) (B - s mod B) = B - s mod B" using assms by linarith
  have "s mod B < B" using assms(1) by simp
  moreover have "(s div B + 1) * B = s div B * B + B" by simp
  ultimately show eq: "s + (B - s mod B) = (s div B + 1) * B"
    using div_mult_mod_eq [of s B] by linarith
  show "(s + (B - s mod B)) div B = s div B + 1" unfolding eq using assms(1) by simp
qed

lemma chunk_step:
  assumes "pg_start pages + chunk l pages < pg_end pages"
  shows "chunk l pages = 512 ^ l - pg_start pages mod 512 ^ l"
    and "pg_start (skip_pages pages (chunk l pages)) = (pg_start pages div 512 ^ l + 1) * 512 ^ l"
    and "pg_start (skip_pages pages (chunk l pages)) div 512 ^ l = pg_start pages div 512 ^ l + 1"
proof -
  have p: "pg_start pages + min (pg_end pages - pg_start pages) (512 ^ l - pg_start pages mod 512 ^ l) < pg_end pages"
    using assms by (simp add: chunk_def)
  have B: "0 < (512::nat) ^ l" by simp
  note r = region_step [OF B p]
  show c: "chunk l pages = 512 ^ l - pg_start pages mod 512 ^ l" using r(1) by (simp add: chunk_def)
  have s: "pg_start (skip_pages pages (chunk l pages)) = pg_start pages + (512 ^ l - pg_start pages mod 512 ^ l)"
    unfolding c by (simp add: skip_pages_def)
  show "pg_start (skip_pages pages (chunk l pages)) = (pg_start pages div 512 ^ l + 1) * 512 ^ l"
    unfolding s by (rule r(2))
  show "pg_start (skip_pages pages (chunk l pages)) div 512 ^ l = pg_start pages div 512 ^ l + 1"
    unfolding s by (rule r(3))
qed

lemma entries_done_last:
  assumes "pg_start pages < pg_end pages" and "\<not> pg_start pages + chunk l pages < pg_end pages"
    and "wf_entry l e'" and "\<forall>e \<in> set es. wf_entry l e"
    and "updated (same_table l pages) hit pages (entry_lookup l e) (entry_lookup l e')"
  shows "entries_done l hit st (e # es) pages (chunk l pages) (e' # es) s'"
proof -
  let ?B = "512 ^ l :: nat" and ?s = "pg_start pages" and ?e = "pg_end pages"
  have n: "chunk l pages = ?e - ?s" and le: "?e \<le> ?s + (?B - ?s mod ?B)"
    using assms(1,2) unfolding chunk_def by linarith+
  have "?s mod ?B < ?B" by simp
  then have "?s + (?B - ?s mod ?B) = (?s div ?B + 1) * ?B"
    using div_mult_mod_eq [of ?s ?B] by (simp add: add_mult_distrib)
  then have bound: "?e \<le> (?s div ?B + 1) * ?B" using le by simp
  also have "\<dots> \<le> (?s div ?B + length (e # es)) * ?B" by (intro mult_right_mono) auto
  finally have "?e - ?s \<le> (?s div ?B + length (e # es)) * ?B - ?s" by simp
  moreover have "updated (entry_pages l pages j) hit pages (entry_lookup l ((e # es) ! j)) (entry_lookup l ((e' # es) ! j))"
    for j
  proof (cases j)
    case 0
    then show ?thesis using assms(5) by (simp add: updated_def entry_pages_def same_table_def)
  next
    case (Suc i)
    have "\<not> in_range pages p" if "entry_pages l pages j p" for p
    proof -
      have "?s div ?B + 1 \<le> p div ?B" using that Suc by (simp add: entry_pages_def)
      then have "(?s div ?B + 1) * ?B \<le> p" by (simp add: less_eq_div_iff_mult_less_eq)
      with bound show ?thesis by (simp add: in_range_def)
    qed
    with Suc show ?thesis by (simp add: updated_def)
  qed
  ultimately show ?thesis using assms n by (auto simp: entries_done_def)
qed

lemma skip_pages_simps [simp]:
  "pg_start (skip_pages pages n) = pg_start pages + n" "pg_end (skip_pages pages n) = pg_end pages"
  "skip_pages (skip_pages pages n) m = skip_pages pages (n + m)"
  by (simp_all add: skip_pages_def add.assoc)

lemma entries_done_next:
  assumes more: "pg_start pages + chunk l pages < pg_end pages" and "wf_entry l e'"
    and upd: "updated (same_table l pages) hit pages (entry_lookup l e) (entry_lookup l e')"
    and rest: "entries_done l hit st es (skip_pages pages (chunk l pages)) m es' s'"
  shows "entries_done l hit st (e # es) pages (chunk l pages + m) (e' # es') s'"
proof -
  let ?B = "512 ^ l :: nat" and ?s = "pg_start pages" and ?e = "pg_end pages" and ?c = "chunk l pages"
  let ?q = "pg_start pages div 512 ^ l"
  have s': "?s + ?c = (?q + 1) * ?B" and q': "(?s + ?c) div ?B = ?q + 1"
    using chunk_step(2,3) [OF more] by simp_all
  have m: "m = min (?e - (?s + ?c)) ((?q + 1 + length es) * ?B - (?s + ?c))"
    using rest q' by (simp add: entries_done_def)
  have "(?q + 1) * ?B \<le> (?q + 1 + length es) * ?B" by (intro mult_right_mono) auto
  then have "?s + ?c \<le> (?q + length (e # es)) * ?B" unfolding s' by simp
  then have cm: "?c + m = min (?e - ?s) ((?q + length (e # es)) * ?B - ?s)"
    using more unfolding m by simp
  have "updated (entry_pages l pages j) hit pages (entry_lookup l ((e # es) ! j)) (entry_lookup l ((e' # es') ! j))"
    if "j < length (e # es)" for j
  proof (cases j)
    case 0
    then show ?thesis using upd by (simp add: updated_def entry_pages_def same_table_def)
  next
    case (Suc i)
    have ep: "entry_pages l (skip_pages pages ?c) i p \<longleftrightarrow> entry_pages l pages j p" for p
      using Suc q' by (simp add: entry_pages_def)
    have "in_range (skip_pages pages ?c) p \<longleftrightarrow> in_range pages p" if "entry_pages l pages j p" for p
    proof -
      have "?q + 1 \<le> p div ?B" using that Suc by (simp add: entry_pages_def)
      then have "?s + ?c \<le> p" unfolding s' by (simp add: less_eq_div_iff_mult_less_eq)
      then show ?thesis by (simp add: in_range_def)
    qed
    with rest ep Suc that show ?thesis by (simp add: entries_done_def updated_def)
  qed
  moreover have "pg_start (skip_pages pages ?c) + m < ?e \<longrightarrow> st s' (skip_pages (skip_pages pages ?c) m)"
    using rest unfolding entries_done_def skip_pages_simps(2) by blast
  then have "?s + (?c + m) < ?e \<longrightarrow> st s' (skip_pages pages (?c + m))" by (simp add: add.assoc)
  moreover have "length es' = length es" "\<forall>e \<in> set es'. wf_entry l e"
    using rest unfolding entries_done_def by blast+
  ultimately show ?thesis using assms(2) cm unfolding entries_done_def by auto
qed

lemma for_entries_walk:
  assumes body: "entry_walker l need hit st err body"
  shows "\<forall>e \<in> set es. wf_entry l e \<Longrightarrow> pg_start pages < pg_end pages \<Longrightarrow> st s pages \<Longrightarrow>
    \<forall>j < length es. \<forall>p. entry_pages l pages j p \<longrightarrow> in_range pages p \<longrightarrow> need p (entry_lookup l (es ! j) p) \<Longrightarrow>
    (\<exists>x. for_entries body es pages s = Inl x \<and> err x) \<or>
    (\<exists>n es' s'. for_entries body es pages s = Inr (n, es', s') \<and> entries_done l hit st es pages n es' s')"
proof (induction es arbitrary: pages s)
  case Nil
  have "pg_start pages div 512 ^ l * 512 ^ l \<le> pg_start pages" by simp
  with Nil show ?case by (simp add: entries_done_def skip_pages_def)
next
  case (Cons e es)
  have "\<forall>p. same_table l pages p \<longrightarrow> in_range pages p \<longrightarrow> need p (entry_lookup l e p)"
    using Cons.prems(4) by (force simp: same_table_def entry_pages_def)
  then consider (error) x where "body e pages s = Inl x" "err x"
    | (step) e' s' where "body e pages s = Inr (Some (chunk l pages, e', s'))" "wf_entry l e'"
        "updated (same_table l pages) hit pages (entry_lookup l e) (entry_lookup l e')"
        "pg_start pages + chunk l pages < pg_end pages \<longrightarrow> st s' (skip_pages pages (chunk l pages))"
    using body Cons.prems(1-3) unfolding entry_walker_def by (metis list.set_intros(1))
  then show ?case
  proof cases
    case error
    then show ?thesis by simp
  next
    case step
    show ?thesis
    proof (cases "pg_start pages + chunk l pages < pg_end pages")
      case False
      have fe: "for_entries body (e # es) pages s = Inr (chunk l pages, e' # es, s')"
        using step(1) False by (simp add: Let_def)
      have wf: "\<forall>e \<in> set es. wf_entry l e" using Cons.prems(1) by simp
      show ?thesis
        by (intro disjI2 exI conjI, rule fe, rule entries_done_last [OF Cons.prems(2) False step(2) wf step(3)])
    next
      case True
      let ?pages = "skip_pages pages (chunk l pages)"
      have eq: "for_entries body (e # es) pages s =
          and_then (for_entries body es ?pages s') (\<lambda>(m, es', s''). Inr (chunk l pages + m, e' # es', s''))"
        using step(1) True by (simp add: Let_def skip_pages_def)
      have "\<forall>j < length es. \<forall>p. entry_pages l ?pages j p \<longrightarrow> in_range ?pages p \<longrightarrow> need p (entry_lookup l (es ! j) p)"
      proof (intro allI impI)
        fix j p
        assume j: "j < length es" and "entry_pages l ?pages j p" and "in_range ?pages p"
        then have "entry_pages l pages (Suc j) p" "in_range pages p"
          using chunk_step(3) [OF True] by (auto simp: entry_pages_def in_range_def)
        with Cons.prems(4) j show "need p (entry_lookup l (es ! j) p)"
          by (metis Suc_less_eq length_Cons nth_Cons_Suc)
      qed
      with Cons.IH [of ?pages s'] Cons.prems(1) step(4) True consider
        (error) x where "for_entries body es ?pages s' = Inl x" "err x"
        | (rest) m es' s'' where "for_entries body es ?pages s' = Inr (m, es', s'')" "entries_done l hit st es ?pages m es' s''"
        by auto
      then show ?thesis
      proof cases
        case error
        then show ?thesis unfolding eq by simp
      next
        case rest
        have fe: "for_entries body (e # es) pages s = Inr (chunk l pages + m, e' # es', s'')"
          unfolding eq rest(1) by simp
        show ?thesis
          by (intro disjI2 exI conjI, rule fe, rule entries_done_next [OF True step(2,3) rest(2)])
      qed
    qed
  qed
qed

lemma page_table_index_Suc: "page_table_index p (Suc l) = p div 512 ^ l mod 512"
  by (simp add: page_table_index_def)

lemma entry_pages_index:
  assumes "entry_pages l pages j p" and "j < 512 - page_table_index (pg_start pages) (Suc l)"
  shows "page_table_index p (Suc l) = page_table_index (pg_start pages) (Suc l) + j"
    and "same_table (Suc l) pages p"
proof -
  let ?q = "pg_start pages div 512 ^ l"
  have p: "p div 512 ^ l = ?q + j" using assms(1) by (simp add: entry_pages_def)
  have j: "?q mod 512 + j < 512" using assms(2) by (simp add: page_table_index_Suc)
  have "?q + j = ?q mod 512 + j + 512 * (?q div 512)" by simp
  then have "(?q + j) mod 512 = ?q mod 512 + j" "(?q + j) div 512 = ?q div 512"
    using j by (metis mod_less mod_mult_self2, metis add.commute add_0 div_less div_mult_self2 zero_neq_numeral)
  then show "page_table_index p (Suc l) = page_table_index (pg_start pages) (Suc l) + j"
    "same_table (Suc l) pages p"
    by (simp_all add: page_table_index_Suc p same_table_def power_Suc2 div_mult2_eq del: power_Suc)
qed

lemma same_table_index:
  assumes "same_table (Suc l) pages p"
  shows "page_table_index (pg_start pages) (Suc l) \<le> page_table_index p (Suc l) \<Longrightarrow>
      entry_pages l pages (page_table_index p (Suc l) - page_table_index (pg_start pages) (Suc l)) p"
    and "page_table_index p (Suc l) < page_table_index (pg_start pages) (Suc l) \<Longrightarrow> p < pg_start pages"
proof -
  let ?q = "pg_start pages div 512 ^ l" and ?r = "p div 512 ^ l"
  have d: "?r div 512 = ?q div 512"
    using assms by (simp add: same_table_def power_Suc2 div_mult2_eq del: power_Suc)
  have r: "?r = 512 * (?q div 512) + ?r mod 512" using d by (metis mult_div_mod_eq)
  have q: "?q = 512 * (?q div 512) + ?q mod 512" by simp
  show "entry_pages l pages (page_table_index p (Suc l) - page_table_index (pg_start pages) (Suc l)) p"
    if "page_table_index (pg_start pages) (Suc l) \<le> page_table_index p (Suc l)"
    using r q that unfolding entry_pages_def page_table_index_Suc by linarith
  show "p < pg_start pages" if "page_table_index p (Suc l) < page_table_index (pg_start pages) (Suc l)"
  proof -
    have "?r < ?q" using r q that unfolding page_table_index_Suc by linarith
    then show ?thesis by (meson div_le_mono leD leI)
  qed
qed

lemma table_rest:
  "(s div 512 ^ l + (512 - page_table_index s (Suc l))) * 512 ^ l - s = 512 ^ Suc l - s mod 512 ^ Suc l"
proof -
  let ?B = "512 ^ l :: nat"
  have "512 * a + b + (512 - b) = (a + 1) * 512" if "b < 512" for a b :: nat using that by simp
  from this [of "s div ?B mod 512" "s div ?B div 512"]
  have "s div ?B + (512 - s div ?B mod 512) = (s div ?B div 512 + 1) * 512"
    unfolding mult_div_mod_eq by simp
  moreover have "s div 512 ^ Suc l = s div ?B div 512"
    by (simp add: power_Suc2 div_mult2_eq del: power_Suc)
  ultimately have "(s div ?B + (512 - page_table_index s (Suc l))) * ?B = (s div 512 ^ Suc l + 1) * 512 ^ Suc l"
    unfolding page_table_index_Suc by (simp only: mult.assoc power_Suc)
  moreover have "(s div 512 ^ Suc l + 1) * 512 ^ Suc l = s div 512 ^ Suc l * 512 ^ Suc l + 512 ^ Suc l" by simp
  ultimately show ?thesis using div_mult_mod_eq [of s "512 ^ Suc l"] by linarith
qed

lemma walk_table_walker:
  assumes body: "entry_walker l need hit st err body"
  shows "walker (Suc l) need hit st err (walk_table body (Suc l))"
  unfolding walker_def
proof (intro allI impI)
  fix t pages s
  assume wf: "wf_table (Suc l) t" and ne: "pg_start pages < pg_end pages" and st: "st s pages"
    and need: "\<forall>p. same_table (Suc l) pages p \<longrightarrow> in_range pages p \<longrightarrow> need p (lookup (Suc l) t p)"
  obtain f es where t: "t = PT f es" by (cases t)
  have es: "length es = 512" "\<forall>e \<in> set es. wf_entry l e" using wf t by auto
  let ?i = "page_table_index (pg_start pages) (Suc l)"
  have i: "?i < 512" by simp
  then have i512: "?i + (512 - ?i) = 512" by linarith
  have nth: "drop ?i es ! j = es ! (?i + j)" if "j < 512 - ?i" for j using es(1) that by simp
  have need': "\<forall>j < length (drop ?i es). \<forall>p. entry_pages l pages j p \<longrightarrow> in_range pages p \<longrightarrow>
      need p (entry_lookup l (drop ?i es ! j) p)"
  proof (intro allI impI)
    fix j p
    assume "j < length (drop ?i es)" and ep: "entry_pages l pages j p" and r: "in_range pages p"
    then have j: "j < 512 - ?i" using es(1) by simp
    show "need p (entry_lookup l (drop ?i es ! j) p)"
      using need [rule_format, OF entry_pages_index(2) [OF ep j] r] entry_pages_index(1) [OF ep j] nth [OF j]
      by (simp add: t)
  qed
  have "\<forall>e \<in> set (drop ?i es). wf_entry l e" using es(2) by (meson in_set_dropD)
  from for_entries_walk [OF body this ne st need']
  consider (error) x where "for_entries body (drop ?i es) pages s = Inl x" "err x"
    | (fine) n es' s' where "for_entries body (drop ?i es) pages s = Inr (n, es', s')"
        "entries_done l hit st (drop ?i es) pages n es' s'" by blast
  then show "(\<exists>x. walk_table body (Suc l) t pages s = Inl x \<and> err x) \<or>
     (\<exists>n t' s'. walk_table body (Suc l) t pages s = Inr (n, t', s') \<and> n = chunk (Suc l) pages \<and> wf_table (Suc l) t' \<and>
        updated (same_table (Suc l) pages) hit pages (lookup (Suc l) t) (lookup (Suc l) t') \<and>
        (pg_start pages + n < pg_end pages \<longrightarrow> st s' (skip_pages pages n)))"
  proof cases
    case error
    then show ?thesis by (simp add: walk_table_def t)
  next
    case fine
    let ?t' = "PT f (take ?i es @ es')"
    have len: "length es' = 512 - ?i" using fine(2) es(1) by (simp add: entries_done_def)
    have n: "n = chunk (Suc l) pages"
      using fine(2) es(1) table_rest [of "pg_start pages" l] by (simp add: entries_done_def chunk_def)
    have "\<forall>e \<in> set (take ?i es). wf_entry l e" using es(2) by (meson in_set_takeD)
    moreover have "\<forall>e \<in> set es'. wf_entry l e" using fine(2) unfolding entries_done_def by blast
    ultimately have wf': "wf_table (Suc l) ?t'" using len es(1) i512 by auto
    have "updated (same_table (Suc l) pages) hit pages (lookup (Suc l) t) (lookup (Suc l) ?t')"
      unfolding updated_def
    proof (intro allI impI)
      fix p
      assume same: "same_table (Suc l) pages p"
      let ?k = "page_table_index p (Suc l)"
      show "if in_range pages p then hit p (lookup (Suc l) ?t' p) else lookup (Suc l) ?t' p = lookup (Suc l) t p"
      proof (cases "?k < ?i")
        case True
        then have "\<not> in_range pages p" using same_table_index(2) [OF same] by (simp add: in_range_def)
        moreover have "(take ?i es @ es') ! ?k = es ! ?k" using True es(1) by (simp add: nth_append)
        ultimately show ?thesis by (simp add: t)
      next
        case False
        have ep: "entry_pages l pages (?k - ?i) p" using same_table_index(1) [OF same] False by simp
        have j: "?k - ?i < 512 - ?i" using i page_table_index_less [of p "Suc l"] False by linarith
        then have "updated (entry_pages l pages (?k - ?i)) hit pages
            (entry_lookup l (drop ?i es ! (?k - ?i))) (entry_lookup l (es' ! (?k - ?i)))"
          using fine(2) es(1) by (simp add: entries_done_def)
        moreover have "(take ?i es @ es') ! ?k = es' ! (?k - ?i)" using False es(1) by (simp add: nth_append)
        moreover have "drop ?i es ! (?k - ?i) = es ! ?k" using nth [OF j] False by simp
        ultimately show ?thesis using ep by (simp add: updated_def t)
      qed
    qed
    moreover have "walk_table body (Suc l) t pages s = Inr (n, ?t', s')"
      using fine(1) by (simp add: walk_table_def t)
    moreover have "pg_start pages + n < pg_end pages \<longrightarrow> st s' (skip_pages pages n)"
      using fine(2) unfolding entries_done_def by blast
    ultimately show ?thesis using wf' n by blast
  qed
qed
text \<open>A level-1 loop is a walk in steps of one page.\<close>

definition page_body :: "(pte \<Rightarrow> 'x \<Rightarrow> (pte \<times> 'x) run) \<Rightarrow> pte \<Rightarrow> page_range \<Rightarrow> 'x \<Rightarrow> (nat \<times> pte \<times> 'x) option run" where
  "page_body f e pages x = and_then (f e x) (\<lambda>(e', x'). Inr (Some (1, e', x')))"

lemma first_entries_for:
  "pg_start pages < pg_end pages \<Longrightarrow>
     for_entries (page_body f) es pages x =
       and_then (first_entries f (min (pg_end pages - pg_start pages) (length es)) es x)
         (\<lambda>(es', x'). Inr (min (pg_end pages - pg_start pages) (length es), es', x'))"
proof (induction es arbitrary: pages x)
  case (Cons e es)
  let ?n = "pg_end pages - pg_start pages"
  obtain k where k: "?n = Suc k" using Cons.prems by (metis Suc_diff_Suc)
  show ?case
  proof (cases "f e x")
    case (Inr r)
    obtain e' x' where r: "r = (e', x')" by (cases r)
    show ?thesis
    proof (cases "k = 0")
      case True
      then have "pg_end pages \<le> Suc (pg_start pages)" using k by simp
      then show ?thesis using Inr r k True by (simp add: page_body_def)
    next
      case False
      let ?p = "pages\<lparr>pg_start := Suc (pg_start pages)\<rparr>"
      have lt: "pg_start ?p < pg_end ?p" using False k by simp
      have m: "min (pg_end ?p - pg_start ?p) (length es) = min k (length es)"
        "min ?n (length (e # es)) = Suc (min k (length es))"
        using k by simp_all
      have "for_entries (page_body f) (e # es) pages x =
          and_then (for_entries (page_body f) es ?p x') (\<lambda>(m, es', x''). Inr (1 + m, e' # es', x''))"
        using Inr r lt by (simp add: page_body_def)
      then show ?thesis unfolding Cons.IH [OF lt] m
        using Inr r by (cases "first_entries f (min k (length es)) es x'") auto
    qed
  qed (use k in \<open>simp add: page_body_def\<close>)
qed simp

lemma leaf_table_walk:
  assumes "pg_start pages < pg_end pages" and "wf_table (Suc 0) t"
  shows "leaf_table f t pages x = walk_table (page_body f) (Suc 0) t pages x"
proof -
  obtain g es where t: "t = PT g es" by (cases t)
  then have "length es = 512" using assms(2) by simp
  with assms(1) show ?thesis
    by (simp add: leaf_table_def walk_table_def t Let_def first_entries_for split_def
        split: sum.split)
      (cases "first_entries f (min (pg_end pages - pg_start pages)
          (512 - page_table_index (pg_start pages) (Suc 0))) (drop (page_table_index (pg_start pages) (Suc 0)) es) x", auto)
qed

definition page_walker ::
    "(nat \<Rightarrow> (nat \<times> pflags) option \<Rightarrow> bool) \<Rightarrow> (nat \<Rightarrow> (nat \<times> pflags) option \<Rightarrow> bool) \<Rightarrow>
     ('x \<Rightarrow> page_range \<Rightarrow> bool) \<Rightarrow> (panic \<Rightarrow> bool) \<Rightarrow> (pte \<Rightarrow> 'x \<Rightarrow> (pte \<times> 'x) run) \<Rightarrow> bool" where
  "page_walker need hit st err f \<longleftrightarrow> (\<forall>e pages x. wf_entry 0 e \<longrightarrow> pg_start pages < pg_end pages \<longrightarrow>
     st x pages \<longrightarrow> need (pg_start pages) (entry_lookup 0 e (pg_start pages)) \<longrightarrow>
     (\<exists>y. f e x = Inl y \<and> err y) \<or>
     (\<exists>e' x'. f e x = Inr (e', x') \<and> wf_entry 0 e' \<and> hit (pg_start pages) (entry_lookup 0 e' (pg_start pages)) \<and>
        (pg_start pages + 1 < pg_end pages \<longrightarrow> st x' (skip_pages pages 1))))"

lemma page_walker_body:
  assumes "page_walker need hit st err f"
  shows "entry_walker 0 need hit st err (page_body f)"
  unfolding entry_walker_def
proof (intro allI impI)
  fix e pages x
  assume e: "wf_entry 0 e" "pg_start pages < pg_end pages" "st x pages"
    and need: "\<forall>p. same_table 0 pages p \<longrightarrow> in_range pages p \<longrightarrow> need p (entry_lookup 0 e p)"
  have c: "chunk 0 pages = 1" using e(2) by (simp add: chunk_def)
  have "need (pg_start pages) (entry_lookup 0 e (pg_start pages))"
    using need e(2) by (simp add: same_table_def in_range_def)
  then consider y where "f e x = Inl y" "err y"
    | e' x' where "f e x = Inr (e', x')" "wf_entry 0 e'" "hit (pg_start pages) (entry_lookup 0 e' (pg_start pages))"
        "pg_start pages + 1 < pg_end pages \<longrightarrow> st x' (skip_pages pages 1)"
    using assms e unfolding page_walker_def by blast
  then show "(\<exists>x'. page_body f e pages x = Inl x' \<and> err x') \<or>
     (\<exists>n e' s'. page_body f e pages x = Inr (Some (n, e', s')) \<and> n = chunk 0 pages \<and> wf_entry 0 e' \<and>
        updated (same_table 0 pages) hit pages (entry_lookup 0 e) (entry_lookup 0 e') \<and>
        (pg_start pages + n < pg_end pages \<longrightarrow> st s' (skip_pages pages n)))"
  proof cases
    case 1
    then show ?thesis by (simp add: page_body_def)
  next
    case 2
    then show ?thesis
      using e(2) by (simp add: page_body_def c updated_def same_table_def in_range_def)
  qed
qed

lemma leaf_walker:
  assumes "page_walker need hit st err f"
  shows "walker (Suc 0) need hit st err (leaf_table f)"
  using walk_table_walker [OF page_walker_body [OF assms]] leaf_table_walk
  unfolding walker_def by metis

lemma walker_sim:
  assumes W: "walker l need hit st1 err G"
    and sim: "\<And>t pages s. pg_start pages < pg_end pages \<Longrightarrow> st s pages \<Longrightarrow> wf_table l t \<Longrightarrow>
      \<exists>x h. st1 x pages \<and> F t pages s = and_then (G t pages x) (\<lambda>(n, t', x'). Inr (n, t', h n x')) \<and>
        (\<forall>n x'. pg_start pages + n < pg_end pages \<longrightarrow> st1 x' (skip_pages pages n) \<longrightarrow>
           st (h n x') (skip_pages pages n))"
  shows "walker l need hit st err F"
  unfolding walker_def
proof (intro allI impI)
  fix t pages s
  assume a: "wf_table l t" "pg_start pages < pg_end pages" "st s pages"
    "\<forall>p. same_table l pages p \<longrightarrow> in_range pages p \<longrightarrow> need p (lookup l t p)"
  obtain x h where x: "st1 x pages" "F t pages s = and_then (G t pages x) (\<lambda>(n, t', x'). Inr (n, t', h n x'))"
    "\<forall>n x'. pg_start pages + n < pg_end pages \<longrightarrow> st1 x' (skip_pages pages n) \<longrightarrow>
       st (h n x') (skip_pages pages n)"
    using sim [OF a(2,3,1)] by blast
  from W [unfolded walker_def, rule_format, OF a(1,2) x(1)] a(4)
  consider y where "G t pages x = Inl y" "err y"
    | t' x' where "G t pages x = Inr (chunk l pages, t', x')" "wf_table l t'"
      "updated (same_table l pages) hit pages (lookup l t) (lookup l t')"
      "pg_start pages + chunk l pages < pg_end pages \<longrightarrow> st1 x' (skip_pages pages (chunk l pages))"
    by blast
  then show "(\<exists>x. F t pages s = Inl x \<and> err x) \<or>
     (\<exists>n t' s'. F t pages s = Inr (n, t', s') \<and> n = chunk l pages \<and> wf_table l t' \<and>
        updated (same_table l pages) hit pages (lookup l t) (lookup l t') \<and>
        (pg_start pages + n < pg_end pages \<longrightarrow> st s' (skip_pages pages n)))"
    using x(2,3) by cases auto
qed

subsection \<open>Mapping\<close>

text \<open>The frame that a page of the range is mapped to.\<close>

definition maps_to ::
    "('s \<Rightarrow> nat \<Rightarrow> (phys_frame_range \<times> 's) run) \<Rightarrow> memory_space \<Rightarrow> phys_frame_range \<Rightarrow> page_range \<Rightarrow>
     nat \<Rightarrow> nat \<Rightarrow> bool" where
  "maps_to alloc space frames pages p f \<longleftrightarrow> (case space of
     Kernel \<Rightarrow> f = p
   | User \<Rightarrow> if fr_start frames = fr_end frames then \<exists>s r s'. alloc s 1 = Inr (r, s') \<and> f = fr_start r
           else f + pg_start pages = fr_start frames + p)"

text \<open>The variables \<open>frames\<close> and \<open>pages\<close> stay in step while the range is walked.\<close>

definition in_step ::
    "memory_space \<Rightarrow> phys_frame_range \<Rightarrow> page_range \<Rightarrow> phys_frame_range \<times> 's \<Rightarrow> page_range \<Rightarrow> bool" where
  "in_step space frames0 pages0 = (\<lambda>(frames, s) pages.
     space = User \<longrightarrow>
       (if fr_start frames0 = fr_end frames0 then fr_start frames = fr_end frames
        else fr_start frames + pg_start pages0 = fr_start frames0 + pg_start pages \<and>
             fr_end frames + pg_start pages0 = fr_start frames0 + pg_end pages))"

lemma in_step_advance:
  "in_step space frames0 pages0 (frames, s) pages \<Longrightarrow> pg_start pages + n < pg_end pages \<Longrightarrow>
     in_step space frames0 pages0 (advance frames n, s') (skip_pages pages n)"
  by (auto simp: in_step_def advance_def split: if_splits)

definition map_step where
  "map_step alloc space flags l t pages = (\<lambda>(frames, s).
     and_then (map_in_table alloc space flags l t frames pages s)
       (\<lambda>(n, t', s'). Inr (n, t', advance frames n, s')))"

lemma lookup_zero_table [simp]: "lookup l (zero_table f) p = None"
  by (cases l) (simp_all add: zero_table_def)

lemma wf_zero_table [simp]: "0 < l \<Longrightarrow> wf_table l (zero_table f)"
  by (cases l) (simp_all add: zero_table_def)

lemma map_leaf_walker:
  fixes alloc :: "'s \<Rightarrow> nat \<Rightarrow> (phys_frame_range \<times> 's) run"
  assumes flags: "flags \<noteq> 0"
  shows "walker (Suc 0) (\<lambda>p v. True) (\<lambda>p v. \<exists>f. v = Some (f, flags) \<and> maps_to alloc space frames0 pages0 p f)
    (in_step space frames0 pages0) (\<lambda>e. \<exists>s. alloc s 1 = Inl e) (map_step alloc space flags (Suc 0))"
proof -
  have set: "set_addr f flags = PageEntry f flags" for f using flags by (simp add: set_addr_def)
  let ?hit = "\<lambda>p v. \<exists>f. v = Some (f, flags) \<and> maps_to alloc space frames0 pages0 p f"
  let ?err = "\<lambda>e. \<exists>s. alloc s 1 = Inl e"
  consider (kernel) "space = Kernel" | (fresh) "space = User" "fr_start frames0 = fr_end frames0"
    | (given) "space = User" "fr_start frames0 \<noteq> fr_end frames0" by (cases space) auto
  then show ?thesis
  proof cases
    case kernel
    let ?f = "\<lambda>entry frame_addr. Inr (set_addr frame_addr flags, frame_addr + 1)"
    have "page_walker (\<lambda>p v. True) ?hit (\<lambda>x pages. x = pg_start pages) ?err ?f"
      by (simp add: page_walker_def set maps_to_def kernel)
    from leaf_walker [OF this] show ?thesis
    proof (rule walker_sim)
      fix t pages and s :: "phys_frame_range \<times> 's"
      assume a: "pg_start pages < pg_end pages" "in_step space frames0 pages0 s pages"
      obtain frames u where s: "s = (frames, u)" by (cases s)
      show "\<exists>x h. x = pg_start pages \<and> map_step alloc space flags (Suc 0) t pages s =
          and_then (leaf_table ?f t pages x) (\<lambda>(n, t', x'). Inr (n, t', h n x')) \<and>
          (\<forall>n x'. pg_start pages + n < pg_end pages \<longrightarrow> x' = pg_start (skip_pages pages n) \<longrightarrow>
             in_step space frames0 pages0 (h n x') (skip_pages pages n))"
        by (intro exI [of _ "pg_start pages"] exI [of _ "\<lambda>n x'. (advance frames n, u)"])
          (use a s in_step_advance in \<open>auto simp: map_step_def identity_map_kernel_def kernel split_def and_then_assoc\<close>)
    qed
  next
    case fresh
    let ?f = "\<lambda>entry s. and_then (alloc s 1) (\<lambda>(r, s'). Inr (set_addr (fr_start r) flags, s'))"
    have "page_walker (\<lambda>p v. True) ?hit (\<lambda>x pages. True) ?err ?f"
      unfolding page_walker_def
    proof (intro allI impI)
      fix e pages x
      show "(\<exists>y. ?f e x = Inl y \<and> ?err y) \<or>
          (\<exists>e' x'. ?f e x = Inr (e', x') \<and> wf_entry 0 e' \<and> ?hit (pg_start pages) (entry_lookup 0 e' (pg_start pages)) \<and>
             (pg_start pages + 1 < pg_end pages \<longrightarrow> True))"
        by (cases "alloc x 1") (fastforce simp: set maps_to_def fresh)+
    qed
    from leaf_walker [OF this] show ?thesis
    proof (rule walker_sim)
      fix t pages and s :: "phys_frame_range \<times> 's"
      assume a: "pg_start pages < pg_end pages" "in_step space frames0 pages0 s pages"
      obtain frames u where s: "s = (frames, u)" by (cases s)
      show "\<exists>x h. True \<and> map_step alloc space flags (Suc 0) t pages s =
          and_then (leaf_table ?f t pages x) (\<lambda>(n, t', x'). Inr (n, t', h n x')) \<and>
          (\<forall>n x'. pg_start pages + n < pg_end pages \<longrightarrow> True \<longrightarrow>
             in_step space frames0 pages0 (h n x') (skip_pages pages n))"
        by (intro exI [of _ u] exI [of _ "\<lambda>n x'. (advance frames n, x')"])
          (use a s in_step_advance in \<open>auto simp: map_step_def map_user_def fresh split_def and_then_assoc in_step_def advance_def\<close>)
    qed
  next
    case given
    let ?f = "\<lambda>entry frame_iter. if fr_start frame_iter < fr_end frame_iter
        then Inr (set_addr (fr_start frame_iter) flags, frame_iter\<lparr>fr_start := fr_start frame_iter + 1\<rparr>)
        else Inl UnwrapNone"
    have "page_walker (\<lambda>p v. True) ?hit (\<lambda>x pages. in_step space frames0 pages0 (x, ()) pages) ?err ?f"
      by (auto simp: page_walker_def set maps_to_def given in_step_def)
    from leaf_walker [OF this] show ?thesis
    proof (rule walker_sim)
      fix t pages and s :: "phys_frame_range \<times> 's"
      assume a: "pg_start pages < pg_end pages" "in_step space frames0 pages0 s pages"
      obtain frames u where s: "s = (frames, u)" by (cases s)
      show "\<exists>x h. in_step space frames0 pages0 (x, ()) pages \<and> map_step alloc space flags (Suc 0) t pages s =
          and_then (leaf_table ?f t pages x) (\<lambda>(n, t', x'). Inr (n, t', h n x')) \<and>
          (\<forall>n x'. pg_start pages + n < pg_end pages \<longrightarrow> in_step space frames0 pages0 (x', ()) (skip_pages pages n) \<longrightarrow>
             in_step space frames0 pages0 (h n x') (skip_pages pages n))"
        by (intro exI [of _ frames] exI [of _ "\<lambda>n x'. (advance frames n, u)"])
          (use a s in \<open>auto simp: map_step_def map_user_physical_def given split_def and_then_assoc in_step_def advance_def\<close>)
    qed
  qed
qed

end
