(* ===== verification/PagingProps.thy ===== *)
theory PagingProps
  imports Paging
begin

text \<open>
  Correctness of the page tables of \<open>Paging\<close>: mapping, unmapping and flag changes walk a
  range of pages exactly, a copied address space translates like the original.
\<close>

section \<open>The walkers of the code\<close>

lemma walkerE:
  assumes "walker l need hit st err F" and "wf_table l t" and "pg_start pages < pg_end pages" and "st s pages"
    and "\<And>p. same_table l pages p \<Longrightarrow> in_range pages p \<Longrightarrow> need p (lookup l t p)"
  obtains (error) x where "F t pages s = Inl x" "err x"
  | (fine) t' s' where "F t pages s = Inr (chunk l pages, t', s')" "wf_table l t'"
      "updated (same_table l pages) hit pages (lookup l t) (lookup l t')"
      "pg_start pages + chunk l pages < pg_end pages \<Longrightarrow> st s' (skip_pages pages (chunk l pages))"
  using assms(1) [unfolded walker_def, rule_format, OF assms(2-4)] assms(5) by blast

lemma map_entry_walker:
  fixes alloc :: "'s \<Rightarrow> nat \<Rightarrow> (phys_frame_range \<times> 's) run"
  assumes l: "0 < l" and W: "walker l (\<lambda>p v. True) hit (in_step space frames0 pages0)
      (\<lambda>e. \<exists>s. alloc s 1 = Inl e) (map_step alloc space flags l)"
  shows "entry_walker l (\<lambda>p v. True) hit (in_step space frames0 pages0) (\<lambda>e. \<exists>s. alloc s 1 = Inl e)
    (map_entry alloc flags (map_in_table alloc space flags l))"
  unfolding entry_walker_def
proof (intro allI impI)
  fix e pages and s :: "phys_frame_range \<times> 's"
  assume e: "wf_entry l e" and ne: "pg_start pages < pg_end pages" and st: "in_step space frames0 pages0 s pages"
  obtain frames u where s: "s = (frames, u)" by (cases s)
  let ?body = "map_entry alloc flags (map_in_table alloc space flags l)"
  consider (oom) x where "?body e pages s = Inl x" "alloc u 1 = Inl x"
    | (table) t fl u' where "wf_table l t" "lookup l t = entry_lookup l e"
      "?body e pages s = and_then (map_step alloc space flags l t pages (frames, u'))
         (\<lambda>(n, t', s'). Inr (Some (n, TableEntry t' fl, s')))"
  proof (cases e)
    case Unused
    show thesis
    proof (cases "alloc u 1")
      case (Inl x)
      then show thesis using oom by (simp add: map_entry_def Unused s)
    next
      case (Inr r)
      obtain g u' where "r = (g, u')" by (cases r)
      with Inr table [of "zero_table (fr_start g)" u' flags] l show thesis
        by (simp add: map_entry_def map_step_def Unused s fun_eq_iff and_then_assoc split_def)
    qed
  next
    case (TableEntry t fl)
    with table [of t u fl] e show thesis
      by (simp add: map_entry_def map_step_def s fun_eq_iff and_then_assoc split_def)
  qed (use e l in simp)
  then show "(\<exists>x. ?body e pages s = Inl x \<and> (\<exists>s. alloc s 1 = Inl x)) \<or>
     (\<exists>n e' s'. ?body e pages s = Inr (Some (n, e', s')) \<and> n = chunk l pages \<and> wf_entry l e' \<and>
        updated (same_table l pages) hit pages (entry_lookup l e) (entry_lookup l e') \<and>
        (pg_start pages + n < pg_end pages \<longrightarrow> in_step space frames0 pages0 s' (skip_pages pages n)))"
  proof cases
    case oom
    then show ?thesis by blast
  next
    case table
    have "in_step space frames0 pages0 (frames, u') pages" using st s by (simp add: in_step_def)
    with W table(1) ne show ?thesis
      by (cases rule: walkerE [where t = t and pages = pages and s = "(frames, u')"])
        (use l table(2,3) in \<open>auto simp: updated_def\<close>)
  qed
qed

lemma map_walker:
  fixes alloc :: "'s \<Rightarrow> nat \<Rightarrow> (phys_frame_range \<times> 's) run"
  assumes flags: "flags \<noteq> 0"
  shows "walker (Suc l) (\<lambda>p v. True) (\<lambda>p v. \<exists>f. v = Some (f, flags) \<and> maps_to alloc space frames0 pages0 p f)
    (in_step space frames0 pages0) (\<lambda>e. \<exists>s. alloc s 1 = Inl e) (map_step alloc space flags (Suc l))"
proof (induction l)
  case 0
  show ?case using flags by (rule map_leaf_walker)
next
  case (Suc l)
  have W: "entry_walker (Suc l) (\<lambda>p v. True) (\<lambda>p v. \<exists>f. v = Some (f, flags) \<and> maps_to alloc space frames0 pages0 p f)
      (in_step space frames0 pages0) (\<lambda>e. \<exists>s. alloc s 1 = Inl e)
      (map_entry alloc flags (map_in_table alloc space flags (Suc l)))"
    by (rule map_entry_walker [OF _ Suc]) simp
  show ?case
  proof (rule walker_sim [OF walk_table_walker [OF W]])
    fix t pages and s :: "phys_frame_range \<times> 's"
    assume a: "pg_start pages < pg_end pages" "in_step space frames0 pages0 s pages"
    obtain frames u where s: "s = (frames, u)" by (cases s)
    let ?G = "walk_table (map_entry alloc flags (map_in_table alloc space flags (Suc l))) (Suc (Suc l))"
    show "\<exists>x h. in_step space frames0 pages0 x pages \<and>
        map_step alloc space flags (Suc (Suc l)) t pages s = and_then (?G t pages x) (\<lambda>(n, t', x'). Inr (n, t', h n x')) \<and>
        (\<forall>n x'. pg_start pages + n < pg_end pages \<longrightarrow> in_step space frames0 pages0 x' (skip_pages pages n) \<longrightarrow>
           in_step space frames0 pages0 (h n x') (skip_pages pages n))"
      by (intro exI [of _ s] exI [of _ "\<lambda>n x'. (advance frames n, snd x')"])
        (use a s in_step_advance in \<open>auto simp: map_step_def and_then_assoc split_def\<close>)
  qed
qed

subsection \<open>Unmapping\<close>

lemma empty_table_lookup: "is_table_empty t \<Longrightarrow> wf_table l t \<Longrightarrow> lookup l t p = None"
proof (cases l)
  case (Suc k)
  assume e: "is_table_empty t" and wf: "wf_table l t"
  obtain f es where t: "t = PT f es" by (cases t)
  have "is_unused (es ! page_table_index p (Suc k))"
    using e wf t Suc by (simp add: is_table_empty_def list_all_length)
  then show ?thesis using t Suc by (cases "es ! page_table_index p (Suc k)") auto
qed simp

lemma unmap_leaf_walker:
  "walker (Suc 0) (\<lambda>p v. v \<noteq> None) (\<lambda>p v. v = None) (\<lambda>s pages. True) (\<lambda>e. \<exists>s r. free s r = Inl e)
     (unmap_in_table free free_physical (Suc 0))"
proof -
  have "page_walker (\<lambda>p v. v \<noteq> None) (\<lambda>p v. v = None) (\<lambda>s pages. True) (\<lambda>e. \<exists>s r. free s r = Inl e)
      (unmap_page free free_physical)"
    unfolding page_walker_def
  proof (intro allI impI)
    fix e pages x
    assume "wf_entry 0 e" "entry_lookup 0 e (pg_start pages) \<noteq> None"
    then obtain f fl where e: "e = PageEntry f fl" by (cases e) auto
    show "(\<exists>y. unmap_page free free_physical e x = Inl y \<and> (\<exists>s r. free s r = Inl y)) \<or>
        (\<exists>e' x'. unmap_page free free_physical e x = Inr (e', x') \<and> wf_entry 0 e' \<and>
           entry_lookup 0 e' (pg_start pages) = None \<and> (pg_start pages + 1 < pg_end pages \<longrightarrow> True))"
      by (cases "free x (one_frame f)") (auto simp: unmap_page_def e)
  qed
  from leaf_walker [OF this] show ?thesis by (simp add: walker_def)
qed

lemma unmap_entry_walker:
  fixes free :: "'s \<Rightarrow> phys_frame_range \<Rightarrow> 's run"
  assumes l: "0 < l" and W: "walker l (\<lambda>p v. v \<noteq> None) (\<lambda>p v. v = None) (\<lambda>s pages. True)
      (\<lambda>e. \<exists>s r. free s r = Inl e) (unmap_in_table free free_physical l)"
  shows "entry_walker l (\<lambda>p v. v \<noteq> None) (\<lambda>p v. v = None) (\<lambda>s pages. True)
      (\<lambda>e. \<exists>s r. free s r = Inl e) (unmap_entry free (unmap_in_table free free_physical l))"
  unfolding entry_walker_def
proof (intro allI impI)
  fix e pages and s :: 's
  assume e: "wf_entry l e" and ne: "pg_start pages < pg_end pages"
    and need: "\<forall>p. same_table l pages p \<longrightarrow> in_range pages p \<longrightarrow> entry_lookup l e p \<noteq> None"
  let ?body = "unmap_entry free (unmap_in_table free free_physical l)"
  have "entry_lookup l e (pg_start pages) \<noteq> None" using need ne by (simp add: same_table_def in_range_def)
  then obtain t fl where t: "e = TableEntry t fl" using e l by (cases e) auto
  have wf: "wf_table l t" using e t by simp
  have need': "\<And>p. same_table l pages p \<Longrightarrow> in_range pages p \<Longrightarrow> lookup l t p \<noteq> None" using need t by simp
  show "(\<exists>x. ?body e pages s = Inl x \<and> (\<exists>s r. free s r = Inl x)) \<or>
     (\<exists>n e' s'. ?body e pages s = Inr (Some (n, e', s')) \<and> n = chunk l pages \<and> wf_entry l e' \<and>
        updated (same_table l pages) (\<lambda>p v. v = None) pages (entry_lookup l e) (entry_lookup l e') \<and>
        (pg_start pages + n < pg_end pages \<longrightarrow> True))"
  proof (rule walkerE [OF W wf ne TrueI need'])
    fix x
    assume "unmap_in_table free free_physical l t pages s = Inl x" "\<exists>s r. free s r = Inl x"
    then show ?thesis by (auto simp: unmap_entry_def t)
  next
    fix t' s'
    assume r: "unmap_in_table free free_physical l t pages s = Inr (chunk l pages, t', s')" "wf_table l t'"
      "updated (same_table l pages) (\<lambda>p v. v = None) pages (lookup l t) (lookup l t')"
    show ?thesis
    proof (cases "is_table_empty t'")
      case True
      note none = empty_table_lookup [OF True r(2)]
      show ?thesis
        using r(1,3) True none by (cases "free s' (one_frame (pt_frame t'))") (auto simp: unmap_entry_def t updated_def)
    next
      case False
      then show ?thesis using r l by (simp add: unmap_entry_def t updated_def)
    qed
  qed
qed

lemma unmap_walker:
  "walker (Suc l) (\<lambda>p v. v \<noteq> None) (\<lambda>p v. v = None) (\<lambda>s pages. True) (\<lambda>e. \<exists>s r. free s r = Inl e)
     (unmap_in_table free free_physical (Suc l))"
proof (induction l)
  case 0
  show ?case by (rule unmap_leaf_walker)
next
  case (Suc l)
  have "walker (Suc (Suc l)) (\<lambda>p v. v \<noteq> None) (\<lambda>p v. v = None) (\<lambda>s pages. True) (\<lambda>e. \<exists>s r. free s r = Inl e)
      (walk_table (unmap_entry free (unmap_in_table free free_physical (Suc l))) (Suc (Suc l)))"
    by (rule walk_table_walker, rule unmap_entry_walker [OF _ Suc]) simp
  then show ?case by (simp add: walker_def)
qed

subsection \<open>Flags\<close>

definition reflag :: "pflags \<Rightarrow> (nat \<times> pflags) option \<Rightarrow> (nat \<times> pflags) option" where
  "reflag flags v = map_option (\<lambda>(f, _). (f, flags)) v"

lemma set_flags_walker:
  assumes flags: "flags \<noteq> 0"
  shows "walker (Suc l) (\<lambda>p v. v \<noteq> None \<and> v = orig p) (\<lambda>p v. v = reflag flags (orig p)) (\<lambda>s pages. True)
     (\<lambda>e. False) (set_flags_in_table flags (Suc l))"
proof (induction l)
  case 0
  have "page_walker (\<lambda>p v. v \<noteq> None \<and> v = orig p) (\<lambda>p v. v = reflag flags (orig p)) (\<lambda>s pages. True)
      (\<lambda>e. False) (\<lambda>entry s :: unit. Inr (set_entry_flags entry flags, s))"
    unfolding page_walker_def
  proof (intro allI impI)
    fix e pages and x :: unit
    assume e: "wf_entry 0 e" "entry_lookup 0 e (pg_start pages) \<noteq> None \<and> entry_lookup 0 e (pg_start pages) = orig (pg_start pages)"
    then obtain f fl where "e = PageEntry f fl" by (cases e) auto
    with e flags show "(\<exists>y. (Inr (set_entry_flags e flags, x) :: (pte \<times> unit) run) = Inl y \<and> False) \<or>
        (\<exists>e' x'. (Inr (set_entry_flags e flags, x) :: (pte \<times> unit) run) = Inr (e', x') \<and> wf_entry 0 e' \<and>
           entry_lookup 0 e' (pg_start pages) = reflag flags (orig (pg_start pages)) \<and>
           (pg_start pages + 1 < pg_end pages \<longrightarrow> True))"
      by (auto simp: set_entry_flags_def set_addr_def reflag_def dest!: sym [of "Some _"])
  qed
  from leaf_walker [OF this] show ?case by (simp add: walker_def)
next
  case (Suc l)
  let ?next = "set_flags_in_table flags (Suc l)"
  have "entry_walker (Suc l) (\<lambda>p v. v \<noteq> None \<and> v = orig p) (\<lambda>p v. v = reflag flags (orig p)) (\<lambda>s pages. True)
      (\<lambda>e. False) (set_flags_entry ?next)"
    unfolding entry_walker_def
  proof (intro allI impI)
    fix e pages and s :: unit
    assume e: "wf_entry (Suc l) e" and ne: "pg_start pages < pg_end pages"
      and need: "\<forall>p. same_table (Suc l) pages p \<longrightarrow> in_range pages p \<longrightarrow>
        entry_lookup (Suc l) e p \<noteq> None \<and> entry_lookup (Suc l) e p = orig p"
    have "same_table (Suc l) pages (pg_start pages)" "in_range pages (pg_start pages)"
      using ne by (simp_all add: same_table_def in_range_def)
    then have "entry_lookup (Suc l) e (pg_start pages) \<noteq> None" using need by blast
    then obtain t fl where t: "e = TableEntry t fl" using e by (cases e) auto
    have wf: "wf_table (Suc l) t" using e t by simp
    have need': "\<And>p. same_table (Suc l) pages p \<Longrightarrow> in_range pages p \<Longrightarrow>
        lookup (Suc l) t p \<noteq> None \<and> lookup (Suc l) t p = orig p"
      using need unfolding t entry_simps by blast
    show "(\<exists>x. set_flags_entry ?next e pages s = Inl x \<and> False) \<or>
       (\<exists>n e' s'. set_flags_entry ?next e pages s = Inr (Some (n, e', s')) \<and> n = chunk (Suc l) pages \<and> wf_entry (Suc l) e' \<and>
          updated (same_table (Suc l) pages) (\<lambda>p v. v = reflag flags (orig p)) pages
            (entry_lookup (Suc l) e) (entry_lookup (Suc l) e') \<and>
          (pg_start pages + n < pg_end pages \<longrightarrow> True))"
      by (rule walkerE [OF Suc wf ne TrueI need']) (auto simp: set_flags_entry_def t updated_def simp del: lookup_PT)
  qed
  from walk_table_walker [OF this] show ?case by (simp add: walker_def)
qed

subsection \<open>Copying\<close>

lemma copy_entries_same:
  assumes copy: "\<And>t f s t' s'. wf_table l t \<Longrightarrow> copy t f s = Inr (t', s') \<Longrightarrow> wf_table l t' \<and> lookup l t' = lookup l t"
    and l: "0 < l"
  shows "copy_entries alloc copy es s = Inr (es', s') \<Longrightarrow> \<forall>e \<in> set es. wf_entry l e \<Longrightarrow>
    length es' = length es \<and> (\<forall>e \<in> set es'. wf_entry l e) \<and>
    (\<forall>i < length es. entry_lookup l (es' ! i) = entry_lookup l (es ! i))"
proof (induction es arbitrary: s es' s')
  case (Cons e es)
  obtain e' es1 s1 where es': "es' = e' # es1" "copy_entries alloc copy es s1 = Inr (es1, s')"
    "wf_entry l e'" "entry_lookup l e' = entry_lookup l e"
  proof (cases e)
    case Unused
    with Cons.prems that show thesis by (auto simp: and_then_Inr_iff)
  next
    case (TableEntry t fl)
    with Cons.prems(1) obtain g u t' v es1 where "copy t g u = Inr (t', v)"
      "copy_entries alloc copy es v = Inr (es1, s')" "es' = TableEntry t' fl # es1"
      by (auto simp: and_then_Inr_iff)
    moreover have "wf_table l t" using Cons.prems(2) TableEntry by simp
    ultimately show thesis using that copy TableEntry l by (fastforce simp: fun_eq_iff)
  qed (use Cons.prems in simp)
  have "\<forall>e \<in> set es. wf_entry l e" using Cons.prems(2) by simp
  from Cons.IH [OF es'(2) this] es' show ?case by (auto simp: nth_Cons split: nat.split)
qed simp

lemma copy_table_same:
  "wf_table (Suc l) t \<Longrightarrow> copy_table alloc (Suc l) t f s = Inr (t', s') \<Longrightarrow>
     wf_table (Suc l) t' \<and> lookup (Suc l) t' = lookup (Suc l) t"
proof (induction l arbitrary: t f s t' s')
  case 0
  then show ?case by (cases t) (auto simp: fun_eq_iff)
next
  case (Suc l)
  obtain g es where t: "t = PT g es" by (cases t)
  obtain es' where es': "copy_entries alloc (copy_table alloc (Suc l)) es s = Inr (es', s')" "t' = PT f es'"
    using Suc.prems(2) t by (auto simp: and_then_Inr_iff)
  have wf: "length es = 512" "\<forall>e \<in> set es. wf_entry (Suc l) e" using Suc.prems(1) t by auto
  from copy_entries_same [of "Suc l" "copy_table alloc (Suc l)", OF Suc.IH _ es'(1) wf(2)]
  have "length es' = 512" "\<forall>e \<in> set es'. wf_entry (Suc l) e"
    "\<forall>i < 512. entry_lookup (Suc l) (es' ! i) = entry_lookup (Suc l) (es ! i)" using wf(1) by auto
  then show ?case by (simp add: t es'(2) fun_eq_iff del: lookup_PT(1)) (simp add: fun_eq_iff)
qed

section \<open>Properties\<close>

definition wf_paging :: "paging \<Rightarrow> bool" where
  "wf_paging p \<longleftrightarrow> 0 < depth p \<and> wf_table (depth p) (root_table p)"

text \<open>The number of pages of the virtual address space.\<close>

definition page_count :: "paging \<Rightarrow> nat" where
  "page_count p = 512 ^ depth p"

lemma translate_page:
  "wf_paging p \<Longrightarrow> translate p addr =
     map_option (\<lambda>(frame, flags). frame * PAGE_SIZE + addr mod PAGE_SIZE)
       (lookup (depth p) (root_table p) (addr div PAGE_SIZE))"
  by (simp add: translate_def translate_lookup wf_paging_def)

lemma root_range:
  assumes "pg_start pages < pg_end pages" and "pg_end pages \<le> 512 ^ l"
  shows "p < 512 ^ l \<Longrightarrow> same_table l pages p" and "chunk l pages = pg_end pages - pg_start pages"
  using assms by (auto simp: same_table_def chunk_def)

lemma map_in_table_root:
  assumes wf: "wf_paging p" and range: "pg_start pages < pg_end pages" "pg_end pages \<le> page_count p"
    and flags: "flags \<noteq> 0" and step: "in_step space frames pages (frames, s) pages"
  shows "(\<exists>e. map_in_table alloc space flags (depth p) (root_table p) frames pages s = Inl e \<and> (\<exists>s. alloc s 1 = Inl e)) \<or>
    (\<exists>n t s'. map_in_table alloc space flags (depth p) (root_table p) frames pages s = Inr (n, t, s') \<and>
       wf_table (depth p) t \<and>
       (\<forall>page < page_count p. if in_range pages page
          then \<exists>f. lookup (depth p) t page = Some (f, flags) \<and> maps_to alloc space frames pages page f
          else lookup (depth p) t page = lookup (depth p) (root_table p) page))"
proof -
  obtain l where l: "depth p = Suc l" using wf by (cases "depth p") (auto simp: wf_paging_def)
  have wt: "wf_table (Suc l) (root_table p)" using wf l by (simp add: wf_paging_def)
  have e: "pg_end pages \<le> 512 ^ Suc l" using range(2) l by (simp add: page_count_def)
  show ?thesis
  proof (rule walkerE [OF map_walker [OF flags, of l alloc space frames pages] wt range(1) step TrueI])
    fix x assume "map_step alloc space flags (Suc l) (root_table p) pages (frames, s) = Inl x"
      "\<exists>s. alloc s 1 = Inl x"
    then show ?thesis by (auto simp: map_step_def l and_then_Inl_iff simp del: map_in_table.simps)
  next
    fix t' s'
    assume "map_step alloc space flags (Suc l) (root_table p) pages (frames, s) = Inr (chunk (Suc l) pages, t', s')"
      and t': "wf_table (Suc l) t'" and upd: "updated (same_table (Suc l) pages)
        (\<lambda>p v. \<exists>f. v = Some (f, flags) \<and> maps_to alloc space frames pages p f) pages
        (lookup (Suc l) (root_table p)) (lookup (Suc l) t')"
    then obtain n u where "map_in_table alloc space flags (Suc l) (root_table p) frames pages s = Inr (n, t', u)"
      by (auto simp: map_step_def and_then_Inr_iff simp del: map_in_table.simps)
    moreover have "\<forall>page < 512 ^ Suc l. if in_range pages page
          then \<exists>f. lookup (Suc l) t' page = Some (f, flags) \<and> maps_to alloc space frames pages page f
          else lookup (Suc l) t' page = lookup (Suc l) (root_table p) page"
      using upd root_range(1) [OF range(1) e] unfolding updated_def by blast
    ultimately show ?thesis using t' by (auto simp: l page_count_def simp del: map_in_table.simps)
  qed
qed

text \<open>An allocator that counts upwards and an empty four-level table, for the witnesses.\<close>

definition bump_alloc :: "nat \<Rightarrow> nat \<Rightarrow> (phys_frame_range \<times> nat) run" where
  "bump_alloc s n = Inr (\<lparr>fr_start = s, fr_end = s + n\<rparr>, s + n)"

definition empty_paging :: paging where
  "empty_paging = \<lparr>root_table = zero_table 1, depth = 4\<rparr>"

definition two_pages :: paging where
  "two_pages = \<lparr>root_table = PT 1 (PageEntry 7 1 # PageEntry 8 1 # replicate 510 Unused), depth = 1\<rparr>"

lemma PRESENT_nonzero [simp]: "PRESENT \<noteq> 0"
  by (simp add: PRESENT_def)

lemma empty_paging_wf: "wf_paging empty_paging" and two_pages_wf: "wf_paging two_pages"
  by (simp_all add: wf_paging_def empty_paging_def two_pages_def)

lemma map_physical_root:
  assumes "wf_paging p" and "pg_start pages < pg_end pages" and "pg_end pages \<le> page_count p"
    and "fr_start frames \<le> fr_end frames" "fr_end frames - fr_start frames = pg_end pages - pg_start pages"
    and "flags \<noteq> 0"
  shows "(\<exists>e s'. map_physical alloc p frames pages space flags s = Inl e \<and> alloc s' 1 = Inl e) \<or>
    (\<exists>p' s'. map_physical alloc p frames pages space flags s = Inr (p', s') \<and> wf_paging p' \<and> depth p' = depth p \<and>
       (\<forall>page < page_count p. lookup (depth p) (root_table p') page =
          (if in_range pages page
           then Some (case space of Kernel \<Rightarrow> page | User \<Rightarrow> fr_start frames + (page - pg_start pages), flags)
           else lookup (depth p) (root_table p) page)))"
proof -
  have step: "in_step space frames pages (frames, s) pages" using assms(2,4,5) by (auto simp: in_step_def)
  have ne: "fr_start frames \<noteq> fr_end frames" using assms(2,5) by simp
  have m: "in_range pages page \<Longrightarrow> maps_to alloc space frames pages page f \<longleftrightarrow>
      f = (case space of Kernel \<Rightarrow> page | User \<Rightarrow> fr_start frames + (page - pg_start pages))" for page f
    using ne by (auto simp: maps_to_def in_range_def split: memory_space.splits)
  have unfolded: "map_physical alloc p frames pages space flags s =
      and_then (map_in_table alloc space flags (depth p) (root_table p) frames pages s)
        (\<lambda>(n, t, s'). Inr (p\<lparr>root_table := t\<rparr>, s'))"
    using assms(2,4,5) by (simp add: map_physical_def frames_len_def pages_len_def)
  from map_in_table_root [OF assms(1-3,6) step, of alloc] show ?thesis
  proof (elim disjE exE conjE)
    fix n t s'
    assume r: "map_in_table alloc space flags (depth p) (root_table p) frames pages s = Inr (n, t, s')"
      and "wf_table (depth p) t"
      and lk: "\<forall>page < page_count p. if in_range pages page
          then \<exists>f. lookup (depth p) t page = Some (f, flags) \<and> maps_to alloc space frames pages page f
          else lookup (depth p) t page = lookup (depth p) (root_table p) page"
    then have "wf_paging (p\<lparr>root_table := t\<rparr>)" using assms(1) by (simp add: wf_paging_def)
    moreover have "\<forall>page < page_count p. lookup (depth p) t page =
          (if in_range pages page
           then Some (case space of Kernel \<Rightarrow> page | User \<Rightarrow> fr_start frames + (page - pg_start pages), flags)
           else lookup (depth p) (root_table p) page)"
      using lk m by (auto split: if_splits)
    ultimately show ?thesis unfolding unfolded r by auto
  qed (auto simp: unfolded)
qed

text \<open>
  C12. Mapping given frames into user space is exact. Either the frame allocator ran out of
  frames for the tables, or afterwards every address of the page range translates to the
  same offset in the corresponding frame, and every other address translates as before.
\<close>

theorem map_physical_exact:
  assumes "wf_paging p" and "pg_start pages < pg_end pages" and "pg_end pages \<le> page_count p"
    and "fr_start frames \<le> fr_end frames" "fr_end frames - fr_start frames = pg_end pages - pg_start pages"
    and "flags \<noteq> 0"
  shows "(\<exists>e s'. map_physical alloc p frames pages User flags s = Inl e \<and> alloc s' 1 = Inl e) \<or>
    (\<exists>p' s'. map_physical alloc p frames pages User flags s = Inr (p', s') \<and> wf_paging p' \<and>
       (\<forall>addr. addr div PAGE_SIZE < page_count p \<longrightarrow> translate p' addr =
          (if in_range pages (addr div PAGE_SIZE)
           then Some ((fr_start frames + (addr div PAGE_SIZE - pg_start pages)) * PAGE_SIZE + addr mod PAGE_SIZE)
           else translate p addr)))"
  using map_physical_root [OF assms, of alloc User s]
proof (elim disjE exE conjE)
  fix p' s'
  assume r: "map_physical alloc p frames pages User flags s = Inr (p', s')" "wf_paging p'" "depth p' = depth p"
    and lk: "\<forall>page < page_count p. lookup (depth p) (root_table p') page =
          (if in_range pages page
           then Some (case User of Kernel \<Rightarrow> page | User \<Rightarrow> fr_start frames + (page - pg_start pages), flags)
           else lookup (depth p) (root_table p) page)"
  then have "\<forall>addr. addr div PAGE_SIZE < page_count p \<longrightarrow> translate p' addr =
          (if in_range pages (addr div PAGE_SIZE)
           then Some ((fr_start frames + (addr div PAGE_SIZE - pg_start pages)) * PAGE_SIZE + addr mod PAGE_SIZE)
           else translate p addr)"
    by (simp add: translate_page [OF assms(1)] translate_page [OF r(2)])
  with r show ?thesis by blast
qed blast

theorem map_physical_exact_witness:
  "\<exists>p' s'. map_physical bump_alloc empty_paging \<lparr>fr_start = 7, fr_end = 10\<rparr>
       \<lparr>pg_start = 1000, pg_end = 1003\<rparr> User PRESENT 20 = Inr (p', s') \<and>
     translate p' (1001 * PAGE_SIZE + 5) = Some (8 * PAGE_SIZE + 5)"
proof -
  let ?pages = "\<lparr>pg_start = 1000, pg_end = 1003\<rparr>" and ?frames = "\<lparr>fr_start = 7, fr_end = 10\<rparr>"
  have np: "page_count empty_paging = 512 ^ 4" by (simp add: page_count_def empty_paging_def)
  have "\<nexists>e s'. bump_alloc s' 1 = Inl e" by (simp add: bump_alloc_def)
  then obtain p' s' where r: "map_physical bump_alloc empty_paging ?frames ?pages User PRESENT 20 = Inr (p', s')"
    and tr: "\<forall>addr. addr div PAGE_SIZE < 512 ^ 4 \<longrightarrow> translate p' addr =
      (if in_range ?pages (addr div PAGE_SIZE)
       then Some ((7 + (addr div PAGE_SIZE - 1000)) * PAGE_SIZE + addr mod PAGE_SIZE)
       else translate empty_paging addr)"
    using map_physical_exact [OF empty_paging_wf, of ?pages ?frames PRESENT bump_alloc 20]
    by (auto simp: np PRESENT_def)
  have "translate p' (1001 * PAGE_SIZE + 5) = Some (8 * PAGE_SIZE + 5)"
    using tr [rule_format, of "1001 * PAGE_SIZE + 5"] by (simp add: PAGE_SIZE_def in_range_def)
  with r show ?thesis by blast
qed

lemma map_pages_root:
  assumes "wf_paging p" and "pg_start pages < pg_end pages" and "pg_end pages \<le> page_count p" and "flags \<noteq> 0"
  shows "(\<exists>e s'. map_pages alloc p pages space flags s = Inl e \<and> alloc s' 1 = Inl e) \<or>
    (\<exists>p' s'. map_pages alloc p pages space flags s = Inr (p', s') \<and> wf_paging p' \<and>
       (\<forall>page < page_count p.
          if in_range pages page
          then \<exists>f. lookup (depth p) (root_table p') page = Some (f, flags) \<and>
            (case space of Kernel \<Rightarrow> f = page | User \<Rightarrow> \<exists>s r s'. alloc s 1 = Inr (r, s') \<and> f = fr_start r)
          else lookup (depth p) (root_table p') page = lookup (depth p) (root_table p) page))"
proof -
  let ?z = "\<lparr>fr_start = 0, fr_end = 0\<rparr>"
  have step: "in_step space ?z pages (?z, s) pages" by (simp add: in_step_def)
  have m: "maps_to alloc space ?z pages page f \<longleftrightarrow>
      (case space of Kernel \<Rightarrow> f = page | User \<Rightarrow> \<exists>s r s'. alloc s 1 = Inr (r, s') \<and> f = fr_start r)" for page f
    by (simp add: maps_to_def)
  from map_in_table_root [OF assms step, of alloc, unfolded m] show ?thesis
    using assms(1) by (auto simp: map_pages_def wf_paging_def)
qed



text \<open>
  C14. Unmapping a range whose pages are all mapped removes exactly these translations and
  keeps every other one; tables that become empty are released on the way. It fails only
  when the release of a frame fails.
\<close>

theorem unmap_exact:
  assumes "wf_paging p" and "pg_start pages < pg_end pages" and "pg_end pages \<le> page_count p"
    and mapped: "\<forall>page. in_range pages page \<longrightarrow> lookup (depth p) (root_table p) page \<noteq> None"
  shows "(\<exists>e s' r. unmap free p pages free_physical s = Inl e \<and> free s' r = Inl e) \<or>
    (\<exists>p' s'. unmap free p pages free_physical s = Inr (p', s') \<and> wf_paging p' \<and>
       (\<forall>addr. addr div PAGE_SIZE < page_count p \<longrightarrow> translate p' addr =
          (if in_range pages (addr div PAGE_SIZE) then None else translate p addr)))"
proof -
  obtain l where l: "depth p = Suc l" using assms(1) by (cases "depth p") (auto simp: wf_paging_def)
  have wt: "wf_table (Suc l) (root_table p)" using assms(1) l by (simp add: wf_paging_def)
  have e: "pg_end pages \<le> 512 ^ Suc l" using assms(3) l by (simp add: page_count_def)
  have need: "\<And>page. same_table (Suc l) pages page \<Longrightarrow> in_range pages page \<Longrightarrow>
      lookup (Suc l) (root_table p) page \<noteq> None" using mapped l by simp
  show ?thesis
  proof (rule walkerE [OF unmap_walker [of l free free_physical] wt assms(2) TrueI need, of s])
    fix x assume "unmap_in_table free free_physical (Suc l) (root_table p) pages s = Inl x"
      "\<exists>s r. free s r = Inl x"
    then show ?thesis by (auto simp: unmap_def l simp del: unmap_in_table.simps)
  next
    fix t' s'
    assume un: "unmap_in_table free free_physical (Suc l) (root_table p) pages s = Inr (chunk (Suc l) pages, t', s')"
      and t': "wf_table (Suc l) t'" and upd: "updated (same_table (Suc l) pages) (\<lambda>p v. v = None) pages
        (lookup (Suc l) (root_table p)) (lookup (Suc l) t')"
    let ?p = "p\<lparr>root_table := t'\<rparr>"
    have wf': "wf_paging ?p" using t' by (simp add: wf_paging_def l)
    have "translate ?p addr = (if in_range pages (addr div PAGE_SIZE) then None else translate p addr)"
      if "addr div PAGE_SIZE < page_count p" for addr
    proof -
      have "same_table (Suc l) pages (addr div PAGE_SIZE)"
        using root_range(1) [OF assms(2) e] that by (simp add: page_count_def l)
      then have "if in_range pages (addr div PAGE_SIZE) then lookup (Suc l) t' (addr div PAGE_SIZE) = None
          else lookup (Suc l) t' (addr div PAGE_SIZE) = lookup (Suc l) (root_table p) (addr div PAGE_SIZE)"
        using upd unfolding updated_def by blast
      then show ?thesis by (simp add: translate_page [OF wf'] translate_page [OF assms(1)] l split: if_splits)
    qed
    then show ?thesis using un wf' by (auto simp: unmap_def l simp del: unmap_in_table.simps)
  qed
qed

theorem unmap_exact_witness:
  "\<exists>p' s'. unmap (\<lambda>s r. Inr (s + 1)) two_pages \<lparr>pg_start = 0, pg_end = 2\<rparr> True (0::nat) = Inr (p', s') \<and>
     translate two_pages (PAGE_SIZE + 3) \<noteq> None \<and> translate p' (PAGE_SIZE + 3) = None"
proof -
  let ?pages = "\<lparr>pg_start = 0, pg_end = 2\<rparr>"
  have np: "page_count two_pages = 512" "depth two_pages = 1" by (simp_all add: page_count_def two_pages_def)
  have mapped: "\<forall>page. in_range ?pages page \<longrightarrow> lookup (depth two_pages) (root_table two_pages) page \<noteq> None"
    by (auto simp: in_range_def two_pages_def page_table_index_def less_Suc_eq numeral_2_eq_2)
  obtain p' s' where r: "unmap (\<lambda>s r. Inr (s + 1)) two_pages ?pages True (0::nat) = Inr (p', s')"
    and tr: "\<forall>addr. addr div PAGE_SIZE < 512 \<longrightarrow> translate p' addr =
      (if in_range ?pages (addr div PAGE_SIZE) then None else translate two_pages addr)"
    using unmap_exact [OF two_pages_wf _ _ mapped, of "\<lambda>s r. Inr (s + 1)" True "0::nat"] by (auto simp: np)
  have "translate p' (PAGE_SIZE + 3) = None"
    using tr [rule_format, of "PAGE_SIZE + 3"] by (simp add: PAGE_SIZE_def in_range_def)
  moreover have "translate two_pages (PAGE_SIZE + 3) \<noteq> None"
    by (simp add: translate_page [OF two_pages_wf]) (simp add: two_pages_def page_table_index_def PAGE_SIZE_def)
  ultimately show ?thesis using r by blast
qed

text \<open>
  C15. A new address space copied from another one translates every address to the same
  physical address.
\<close>

theorem from_other_same:
  assumes "wf_paging p" and "from_other alloc p s = Inr (p', s')"
  shows "wf_paging p' \<and> translate p' addr = translate p addr"
proof -
  obtain l where l: "depth p = Suc l" using assms(1) by (cases "depth p") (auto simp: wf_paging_def)
  obtain q u t where q: "paging_new alloc (depth p) s = Inr (q, u)"
    "copy_table alloc (depth p) (root_table p) (pt_frame (root_table q)) u = Inr (t, s')"
    "p' = q\<lparr>root_table := t\<rparr>"
    using assms(2) by (auto simp: from_other_def and_then_Inr_iff)
  have d: "depth q = Suc l" using q(1) l by (auto simp: paging_new_def and_then_Inr_iff)
  have "wf_table (Suc l) t \<and> lookup (Suc l) t = lookup (Suc l) (root_table p)"
    using copy_table_same [of l "root_table p" alloc] q(2) l assms(1) by (simp add: wf_paging_def del: copy_table.simps)
  then have wf': "wf_paging p'" and same: "lookup (depth p') (root_table p') = lookup (depth p) (root_table p)"
    using q(3) d l by (simp_all add: wf_paging_def)
  then show ?thesis by (simp add: translate_page [OF wf'] translate_page [OF assms(1)])
qed

theorem from_other_same_witness:
  "\<exists>p' s'. from_other bump_alloc two_pages 20 = Inr (p', s') \<and> wf_paging p' \<and>
     translate p' (PAGE_SIZE + 3) = translate two_pages (PAGE_SIZE + 3)"
proof -
  obtain p' s' where "from_other bump_alloc two_pages 20 = Inr (p', s')"
    by (simp add: from_other_def paging_new_def bump_alloc_def two_pages_def)
  with from_other_same [OF two_pages_wf this, of "PAGE_SIZE + 3"] show ?thesis by blast
qed

definition hole_paging :: paging where
  "hole_paging = \<lparr>root_table = PT 1 (Unused # Unused #
       TableEntry (PT 2 (PageEntry 7 1 # replicate 511 Unused)) 1 # replicate 509 Unused), depth = 2\<rparr>"

text \<open>
  Unmapping a range with a hole removes the wrong translations. An unused entry above
  level 1 is skipped without advancing the start of the range, so the walk goes on in the
  next table that exists: here the range is page 512, which is not mapped, and the page
  that loses its translation is page 1024.
\<close>

theorem unmap_skips_hole:
  "wf_paging hole_paging \<and> translate hole_paging (512 * PAGE_SIZE) = None \<and>
   translate hole_paging (1024 * PAGE_SIZE) = Some (7 * PAGE_SIZE) \<and>
   (\<exists>p'. unmap (\<lambda>s r. Inr s) hole_paging \<lparr>pg_start = 512, pg_end = 513\<rparr> False () = Inr (p', ()) \<and>
      wf_paging p' \<and> translate p' (1024 * PAGE_SIZE) = None)"
proof -
  have wf: "wf_paging hole_paging" by (simp add: wf_paging_def hole_paging_def numeral_2_eq_2)
  let ?p = "\<lparr>root_table = PT 1 (Unused # Unused # Unused # replicate 509 Unused), depth = 2\<rparr>"
  have un: "unmap (\<lambda>s r. Inr s) hole_paging \<lparr>pg_start = 512, pg_end = 513\<rparr> False () = Inr (?p, ())"
    by (simp add: unmap_def hole_paging_def numeral_2_eq_2 walk_table_def page_table_index_def unmap_entry_def
        leaf_table_def unmap_page_def is_table_empty_def list_all_iff)
  have wf': "wf_paging ?p" by (simp add: wf_paging_def numeral_2_eq_2)
  have "translate ?p (1024 * PAGE_SIZE) = None"
    unfolding translate_page [OF wf'] by (simp add: page_table_index_def numeral_2_eq_2)
  moreover have "translate hole_paging (512 * PAGE_SIZE) = None" "translate hole_paging (1024 * PAGE_SIZE) = Some (7 * PAGE_SIZE)"
    unfolding translate_page [OF wf] by (simp_all add: page_table_index_def hole_paging_def numeral_2_eq_2)
  ultimately show ?thesis using wf wf' un by blast
qed

text \<open>
  Changing the flags of a page that is not mapped makes it translate to physical frame 0:
  the level-1 loop of \<open>set_flags_in_table\<close> writes the flags into unused entries too.
\<close>

lemma set_flags_maps_unused:
  "translate \<lparr>root_table = zero_table 1, depth = 1\<rparr> 0 = None \<and>
   (\<exists>p'. set_flags \<lparr>root_table = zero_table 1, depth = 1\<rparr> \<lparr>pg_start = 0, pg_end = 1\<rparr> PRESENT = Inr p' \<and>
      translate p' 0 = Some 0)"
proof -
  have z: "replicate 512 Unused = Unused # replicate 511 Unused"
    using replicate_Suc [of 511 Unused] by simp
  show ?thesis
    unfolding zero_table_def z
    by (simp add: set_flags_def leaf_table_def page_table_index_def set_entry_flags_def set_addr_def
        PRESENT_def translate_def)
qed

end
