(* ===== verification/Vma.thy ===== *)
theory Vma
  imports Paging
begin

text \<open>
  Virtual memory areas (\<open>memory/vma.rs\<close>): a page range of an address space with its type and
  a tag of sixteen bytes. Virtual addresses are byte addresses; \<open>canonical\<close>, a parameter of
  the operations, tells which of them the hardware accepts (\<open>VirtAddr::new\<close> panics on the
  others).
\<close>

unbundle bit_operations_syntax

datatype vma_type =
    Code | Heap | Environment | DeviceMemory | UserStack | KernelStack | KernelBuffer | Anonymous
  | SharedMemory nat

definition TAG_SIZE :: nat where
  "TAG_SIZE = 16"

record virtual_memory_area =
  vm_space :: memory_space
  vm_range :: page_range
  vm_typ :: vma_type
  vm_tag :: "byte list"

text \<open>The character \<open>-\<close> that fills a tag, and the digit zero.\<close>

definition dash :: byte where "dash = 45"

definition zero_digit :: byte where "zero_digit = 48"

fun copy_tag :: "byte list \<Rightarrow> byte list \<Rightarrow> nat \<Rightarrow> nat \<Rightarrow> byte list" where
  "copy_tag tag tag_bytes i 0 = tag"
| "copy_tag tag tag_bytes i (Suc n) = copy_tag (tag[i := tag_bytes ! i]) tag_bytes (i + 1) n"

definition new_with_tag :: "memory_space \<Rightarrow> page_range \<Rightarrow> vma_type \<Rightarrow> byte list \<Rightarrow> virtual_memory_area" where
  "new_with_tag space rng ty tag_bytes =
     (let tag = replicate TAG_SIZE dash;
          len = (if length tag_bytes > TAG_SIZE then TAG_SIZE else length tag_bytes)
      in \<lparr>vm_space = space, vm_range = rng, vm_typ = ty,
          vm_tag = (if len > 0 then copy_tag tag tag_bytes 0 len else tag)\<rparr>)"

fun id_digits :: "byte list \<Rightarrow> nat \<Rightarrow> nat \<Rightarrow> byte list" where
  "id_digits tag num 0 = tag"
| "id_digits tag num (Suc i) =
     (if num > 0 then id_digits (tag[i := zero_digit + of_nat (num mod 10)]) (num div 10) i else tag)"

definition new_with_id :: "memory_space \<Rightarrow> page_range \<Rightarrow> vma_type \<Rightarrow> nat \<Rightarrow> virtual_memory_area" where
  "new_with_id space rng ty tid =
     \<lparr>vm_space = space, vm_range = rng, vm_typ = ty,
      vm_tag = id_digits (replicate TAG_SIZE dash) tid TAG_SIZE\<rparr>"

definition vma_start :: "virtual_memory_area \<Rightarrow> nat" where
  "vma_start v = pg_start (vm_range v) * PAGE_SIZE"

definition vma_end :: "virtual_memory_area \<Rightarrow> nat" where
  "vma_end v = pg_end (vm_range v) * PAGE_SIZE"

definition overlaps_with :: "virtual_memory_area \<Rightarrow> virtual_memory_area \<Rightarrow> bool" where
  "overlaps_with v other \<longleftrightarrow>
     pg_end (vm_range v) > pg_start (vm_range other) \<and> pg_start (vm_range v) < pg_end (vm_range other)"

definition check_and_enforce_consistency :: "virtual_memory_area \<Rightarrow> pflags \<Rightarrow> pflags" where
  "check_and_enforce_consistency v flags = (case vm_space v of
       User \<Rightarrow> flags OR USER_ACCESSIBLE
     | Kernel \<Rightarrow> flags AND NOT USER_ACCESSIBLE)"

definition is_equivalent_to :: "virtual_memory_area \<Rightarrow> virtual_memory_area \<Rightarrow> bool" where
  "is_equivalent_to v other \<longleftrightarrow>
     vma_start v = vma_start other \<and> vma_end v = vma_end other \<and> vm_typ v = vm_typ other \<and>
     vm_space v = vm_space other \<and> vm_tag v = vm_tag other"

section \<open>Tags\<close>

lemma copy_tag_take:
  "i + n \<le> length tag \<Longrightarrow> i + n \<le> length b \<Longrightarrow>
     copy_tag tag b i n = take i tag @ take n (drop i b) @ drop (i + n) tag"
proof (induction n arbitrary: tag i)
  case (Suc n)
  have "take (Suc i) (tag[i := b ! i]) = take i tag @ [b ! i]" using Suc.prems by (simp add: take_Suc_conv_app_nth)
  moreover have "take (Suc n) (drop i b) = b ! i # take n (drop (Suc i) b)"
    using Suc.prems by (simp add: Cons_nth_drop_Suc [symmetric])
  ultimately show ?case using Suc by simp
qed simp

text \<open>The tag of a new area is the given text, cut or filled with dashes to sixteen bytes.\<close>

lemma new_with_tag_tag:
  "vm_tag (new_with_tag space rng ty b) = take TAG_SIZE b @ replicate (TAG_SIZE - length b) dash"
  by (auto simp: new_with_tag_def copy_tag_take Let_def)

text \<open>Reading the digits of a tag made from an identifier.\<close>

fun read_digits :: "byte list \<Rightarrow> nat" where
  "read_digits [] = 0"
| "read_digits (b # bs) =
     (if b = dash then read_digits bs else unat (b - zero_digit) * 10 ^ length bs + read_digits bs)"

lemma digit_byte:
  assumes "d < 10"
  shows "zero_digit + of_nat d \<noteq> dash" and "unat (of_nat d :: byte) = d"
proof -
  show "unat (of_nat d :: byte) = d" using assms by (simp add: unat_of_nat)
  have "unat (zero_digit + of_nat d) = 48 + d"
    using assms by (subst unat_word_ariths) (simp add: zero_digit_def unat_of_nat)
  then show "zero_digit + of_nat d \<noteq> dash" by (auto simp: dash_def)
qed

lemma read_digits_append:
  "read_digits (xs @ ys) = read_digits xs * 10 ^ length ys + read_digits ys"
  by (induction xs) (auto simp: power_add algebra_simps)

lemma read_digits_dashes [simp]: "read_digits (replicate n dash) = 0"
  by (induction n) auto

lemma id_digits_read:
  "id_digits (replicate n dash @ ys) num n = zs \<Longrightarrow> length zs = n + length ys \<and>
     read_digits zs = (num mod 10 ^ n) * 10 ^ length ys + read_digits ys"
proof (induction n arbitrary: num ys)
  case (Suc n)
  show ?case
  proof (cases "num > 0")
    case True
    let ?d = "num mod 10"
    have "(replicate (Suc n) dash @ ys)[n := zero_digit + of_nat ?d] =
        replicate n dash @ (zero_digit + of_nat ?d) # ys"
      by (simp add: replicate_append_same [symmetric] list_update_append)
    with Suc.prems True have "id_digits (replicate n dash @ (zero_digit + of_nat ?d) # ys) (num div 10) n = zs"
      by simp
    from Suc.IH [OF this] show ?thesis
      by (simp add: digit_byte mod_mult2_eq algebra_simps)
  next
    case False
    with Suc.prems show ?thesis by (auto simp: read_digits_append simp del: replicate.simps)
  qed
qed simp

text \<open>A tag made from an identifier can be read back, up to sixteen decimal digits.\<close>

lemma new_with_id_read:
  "read_digits (vm_tag (new_with_id space rng ty tid)) = tid mod 10 ^ TAG_SIZE"
  using id_digits_read [of TAG_SIZE "[]" tid "vm_tag (new_with_id space rng ty tid)"]
  by (simp add: new_with_id_def)

end
