(* ===== verification/BTree.thy ===== *)
theory BTree
  imports Prelude
begin

text \<open>
  The ordered maps of the standard library (\<open>BTreeMap\<close>) as the kernel uses them: a list of
  key-value pairs in strictly ascending order of the keys, with insertion, removal, lookup
  and the range queries. The interface \<open>finite_map\<close> states what a client of a map relies
  on; the ordered lists implement it.
\<close>

type_synonym ('k, 'v) btree = "('k \<times> 'v) list"

definition bt_wf :: "('k::linorder, 'v) btree \<Rightarrow> bool" where
  "bt_wf m \<longleftrightarrow> sorted_wrt (<) (map fst m)"

fun bt_get :: "('k::linorder, 'v) btree \<Rightarrow> 'k \<Rightarrow> 'v option" where
  "bt_get [] k = None"
| "bt_get ((k', v) # m) k = (if k' = k then Some v else bt_get m k)"

fun bt_insert :: "('k::linorder, 'v) btree \<Rightarrow> 'k \<Rightarrow> 'v \<Rightarrow> ('k, 'v) btree" where
  "bt_insert [] k v = [(k, v)]"
| "bt_insert ((k', v') # m) k v =
     (if k < k' then (k, v) # (k', v') # m
      else if k = k' then (k, v) # m
      else (k', v') # bt_insert m k v)"

fun bt_remove :: "('k::linorder, 'v) btree \<Rightarrow> 'k \<Rightarrow> ('k, 'v) btree" where
  "bt_remove [] k = []"
| "bt_remove ((k', v) # m) k = (if k' = k then m else (k', v) # bt_remove m k)"

text \<open>\<open>range(..=k).next_back()\<close>, \<open>range(k..).next()\<close> and \<open>range(a..b)\<close>.\<close>

fun bt_last_upto :: "('k::linorder, 'v) btree \<Rightarrow> 'k \<Rightarrow> ('k \<times> 'v) option" where
  "bt_last_upto [] k = None"
| "bt_last_upto ((k', v) # m) k =
     (if k' \<le> k then (case bt_last_upto m k of Some e \<Rightarrow> Some e | None \<Rightarrow> Some (k', v)) else None)"

fun bt_first_from :: "('k::linorder, 'v) btree \<Rightarrow> 'k \<Rightarrow> ('k \<times> 'v) option" where
  "bt_first_from [] k = None"
| "bt_first_from ((k', v) # m) k = (if k \<le> k' then Some (k', v) else bt_first_from m k)"

definition bt_range :: "('k::linorder, 'v) btree \<Rightarrow> 'k \<Rightarrow> 'k \<Rightarrow> ('k \<times> 'v) list" where
  "bt_range m a b = filter (\<lambda>(k, v). a \<le> k \<and> k < b) m"

section \<open>The interface of a map\<close>

locale finite_map =
  fixes get :: "'m \<Rightarrow> 'k \<Rightarrow> 'v option"
    and ins :: "'m \<Rightarrow> 'k \<Rightarrow> 'v \<Rightarrow> 'm"
    and rem :: "'m \<Rightarrow> 'k \<Rightarrow> 'm"
    and ok :: "'m \<Rightarrow> bool"
  assumes get_ins: "ok m \<Longrightarrow> get (ins m k v) k' = (if k' = k then Some v else get m k')"
    and get_rem: "ok m \<Longrightarrow> get (rem m k) k' = (if k' = k then None else get m k')"
    and ok_ins: "ok m \<Longrightarrow> ok (ins m k v)"
    and ok_rem: "ok m \<Longrightarrow> ok (rem m k)"
    and extensional: "ok m \<Longrightarrow> ok m' \<Longrightarrow> get m = get m' \<Longrightarrow> m = m'"
begin

text \<open>A fresh entry that is removed again leaves no trace, and updates of different keys commute.\<close>

lemma rem_ins: "ok m \<Longrightarrow> get m k = None \<Longrightarrow> rem (ins m k v) k = m"
  by (rule extensional) (auto simp: ok_ins ok_rem get_ins get_rem fun_eq_iff)

lemma ins_commute: "ok m \<Longrightarrow> k \<noteq> k' \<Longrightarrow> ins (ins m k v) k' v' = ins (ins m k' v') k v"
  by (rule extensional) (auto simp: ok_ins get_ins fun_eq_iff)

lemma rem_commute: "ok m \<Longrightarrow> rem (rem m k) k' = rem (rem m k') k"
  by (rule extensional) (auto simp: ok_rem get_rem fun_eq_iff)

lemma ins_ins: "ok m \<Longrightarrow> ins (ins m k v) k v' = ins m k v'"
  by (rule extensional) (auto simp: ok_ins get_ins fun_eq_iff)

lemma ran_ins: "ok m \<Longrightarrow> get m k = None \<Longrightarrow> ran (get (ins m k v)) = insert v (ran (get m))"
proof -
  assume "ok m" "get m k = None"
  then have "get (ins m k v) = (get m)(k \<mapsto> v)" by (auto simp: get_ins)
  with \<open>get m k = None\<close> show ?thesis by simp
qed

lemma ran_rem: "ok m \<Longrightarrow> ran (get (rem m k)) \<subseteq> ran (get m)"
  by (auto simp: ran_def get_rem split: if_splits)

end

section \<open>Ordered lists implement it\<close>

lemma bt_wf_simps [simp]:
  "bt_wf []" "bt_wf ((k, v) # m) \<longleftrightarrow> (\<forall>e \<in> set m. k < fst e) \<and> bt_wf m"
  by (auto simp: bt_wf_def)

lemma bt_get_in: "bt_get m k = Some v \<Longrightarrow> (k, v) \<in> set m"
  by (induction m) (auto split: if_splits)

lemma bt_get_iff: "bt_wf m \<Longrightarrow> bt_get m k = Some v \<longleftrightarrow> (k, v) \<in> set m"
  by (induction m) (fastforce dest: bt_get_in)+

lemma bt_get_None: "bt_get m k = None \<longleftrightarrow> k \<notin> fst ` set m"
  by (induction m) (auto split: if_splits)

lemma bt_insert_keys: "fst ` set (bt_insert m k v) = insert k (fst ` set m)"
proof (induction m)
  case (Cons e m)
  then show ?case by (cases e) (auto simp: insert_commute)
qed simp

lemma bt_insert_subset: "set (bt_insert m k v) \<subseteq> insert (k, v) (set m)"
  by (induction m) (auto split: if_splits)

lemma bt_remove_subset: "set (bt_remove m k) \<subseteq> set m"
  by (induction m) (auto split: if_splits)

lemma bt_insert_wf: "bt_wf m \<Longrightarrow> bt_wf (bt_insert m k v)"
proof (induction m)
  case (Cons e m)
  obtain k' v' where e: "e = (k', v')" by fastforce
  have "\<forall>x \<in> fst ` set (bt_insert m k v). k' < x" if "k' < k"
    unfolding bt_insert_keys using that Cons.prems e by auto
  with Cons e show ?case by auto
qed simp

lemma bt_remove_wf: "bt_wf m \<Longrightarrow> bt_wf (bt_remove m k)"
proof (induction m)
  case (Cons e m)
  then show ?case using bt_remove_subset [of m k] by (cases e) auto
qed simp

lemma bt_get_insert: "bt_get (bt_insert m k v) k' = (if k' = k then Some v else bt_get m k')"
  by (induction m) auto

lemma bt_get_remove: "bt_wf m \<Longrightarrow> bt_get (bt_remove m k) k' = (if k' = k then None else bt_get m k')"
proof (induction m)
  case (Cons e m)
  then have "bt_get m (fst e) = None" by (cases e) (auto simp: bt_get_None)
  with Cons show ?case by (cases e) auto
qed simp

lemma bt_extensional: "bt_wf m \<Longrightarrow> bt_wf m' \<Longrightarrow> bt_get m = bt_get m' \<Longrightarrow> m = m'"
proof -
  assume wf: "bt_wf m" "bt_wf m'" and eq: "bt_get m = bt_get m'"
  have "set m = set m'" using eq bt_get_iff [OF wf(1)] bt_get_iff [OF wf(2)] by auto
  moreover have "distinct (map fst m)" "distinct (map fst m')" "sorted (map fst m)" "sorted (map fst m')"
    using wf by (auto simp: bt_wf_def strict_sorted_iff)
  moreover have "inj_on fst (set m \<union> set m')"
    using calculation(1,2) by (simp add: distinct_map)
  ultimately show "m = m'" by (intro map_sorted_distinct_set_unique [of fst]) auto
qed

interpretation bt: finite_map bt_get bt_insert bt_remove bt_wf
  by unfold_locales
    (rule bt_get_insert bt_get_remove bt_insert_wf bt_remove_wf bt_extensional; assumption)+

section \<open>Range queries\<close>

lemma bt_last_uptoE:
  assumes "bt_wf m"
  obtains "bt_last_upto m k = None" "\<forall>(k', v) \<in> set m. k < k'"
  | k' v where "bt_last_upto m k = Some (k', v)" "(k', v) \<in> set m" "k' \<le> k"
      "\<forall>(k'', w) \<in> set m. k'' \<le> k' \<or> k < k''"
proof -
  have "(bt_last_upto m k = None \<and> (\<forall>(k', v) \<in> set m. k < k')) \<or>
    (\<exists>k' v. bt_last_upto m k = Some (k', v) \<and> (k', v) \<in> set m \<and> k' \<le> k \<and>
       (\<forall>(k'', w) \<in> set m. k'' \<le> k' \<or> k < k''))"
    using assms
  proof (induction m)
    case (Cons e m)
    obtain a w where e: "e = (a, w)" by fastforce
    from Cons.prems e have wf: "bt_wf m" "\<forall>x \<in> set m. a < fst x" by auto
    from Cons.IH [OF wf(1)] show ?case
    proof (elim disjE exE conjE)
      assume "bt_last_upto m k = None" "\<forall>(k', v) \<in> set m. k < k'"
      then show ?thesis using e by (cases "a \<le> k") (auto intro: less_trans)
    next
      fix k' v assume *: "bt_last_upto m k = Some (k', v)" "(k', v) \<in> set m" "k' \<le> k"
        "\<forall>(k'', w) \<in> set m. k'' \<le> k' \<or> k < k''"
      moreover have "a < k'" using wf(2) *(2) by auto
      ultimately show ?thesis using e by auto
    qed
  qed simp
  then show thesis using that by blast
qed

lemma bt_first_fromE:
  assumes "bt_wf m"
  obtains "bt_first_from m k = None" "\<forall>(k', v) \<in> set m. k' < k"
  | k' v where "bt_first_from m k = Some (k', v)" "(k', v) \<in> set m" "k \<le> k'"
      "\<forall>(k'', w) \<in> set m. k' \<le> k'' \<or> k'' < k"
proof -
  have "(bt_first_from m k = None \<and> (\<forall>(k', v) \<in> set m. k' < k)) \<or>
    (\<exists>k' v. bt_first_from m k = Some (k', v) \<and> (k', v) \<in> set m \<and> k \<le> k' \<and>
       (\<forall>(k'', w) \<in> set m. k' \<le> k'' \<or> k'' < k))"
    using assms
  proof (induction m)
    case (Cons e m)
    obtain a w where e: "e = (a, w)" by fastforce
    from Cons.prems e have wf: "bt_wf m" "\<forall>x \<in> set m. a < fst x" by auto
    show ?case
    proof (cases "k \<le> a")
      case True
      then show ?thesis using e wf(2) by auto
    next
      case False
      then show ?thesis using e Cons.IH [OF wf(1)] by auto
    qed
  qed simp
  then show thesis using that by blast
qed

lemma bt_last_upto_Some:
  "bt_last_upto m k = Some (k', v) \<Longrightarrow> (k', v) \<in> set m \<and> k' \<le> k"
  by (induction m) (auto split: if_splits option.splits)

lemma bt_first_from_Some:
  "bt_first_from m k = Some (k', v) \<Longrightarrow> (k', v) \<in> set m \<and> k \<le> k'"
  by (induction m) (auto split: if_splits)

lemma bt_last_upto_exists:
  assumes "bt_wf m" and "(k, v) \<in> set m" and "k \<le> a"
  obtains k' v' where "bt_last_upto m a = Some (k', v')" "(k', v') \<in> set m" "k \<le> k'" "k' \<le> a"
  by (rule bt_last_uptoE [OF assms(1), of a]) (use assms(2,3) that in fastforce)+

lemma bt_first_from_exists:
  assumes "bt_wf m" and "(k, v) \<in> set m" and "a \<le> k"
  obtains k' v' where "bt_first_from m a = Some (k', v')" "(k', v') \<in> set m" "a \<le> k'" "k' \<le> k"
  by (rule bt_first_fromE [OF assms(1), of a]) (use assms(2,3) that in fastforce)+

lemma bt_wf_unique: "bt_wf m \<Longrightarrow> (k, v) \<in> set m \<Longrightarrow> (k, v') \<in> set m \<Longrightarrow> v = v'"
  by (simp add: bt_get_iff [symmetric])

end
