(* ===== verification/Vmm.thy ===== *)
theory Vmm
  imports Vma BTree PagingProps
begin

text \<open>
  Address spaces (\<open>memory/vmm.rs\<close>): the ordered map of the virtual memory areas, the page
  tables and the bounds of user space. Operations that take frames get the frame allocator
  (\<open>memory::alloc_frames\<close>) as an argument and thread its state \<open>'s\<close>. The locks have no
  counterpart: an operation is one step.
\<close>

section \<open>Addresses\<close>

text \<open>
  What the operations use of the machine: the virtual and physical addresses the address
  types accept, and the number of virtual address bits the processor reports.
\<close>

record machine =
  canonical :: "nat \<Rightarrow> bool"
  phys_ok :: "nat \<Rightarrow> bool"
  linear_address_bits :: nat

definition virt_new :: "machine \<Rightarrow> nat \<Rightarrow> nat run" where
  "virt_new M a = (if canonical M a then Inr a else Inl (PanicMsg ''non-canonical address''))"

definition phys_new :: "machine \<Rightarrow> nat \<Rightarrow> nat run" where
  "phys_new M a = (if phys_ok M a then Inr a else Inl (PanicMsg ''invalid physical address''))"

definition vaddr_add :: "machine \<Rightarrow> nat \<Rightarrow> nat \<Rightarrow> nat run" where
  "vaddr_add M a n = (if a + n \<ge> 2 ^ 64 then Inl UnwrapNone else virt_new M (a + n))"

definition vaddr_sub :: "machine \<Rightarrow> nat \<Rightarrow> nat \<Rightarrow> nat run" where
  "vaddr_sub M a n = (if a < n then Inl UnwrapNone else virt_new M (a - n))"

definition page_add :: "machine \<Rightarrow> nat \<Rightarrow> nat \<Rightarrow> nat run" where
  "page_add M page n =
     (if n * PAGE_SIZE \<ge> 2 ^ 64 then Inl ArithOverflow
      else and_then (vaddr_add M (page * PAGE_SIZE) (n * PAGE_SIZE)) (\<lambda>a. Inr (a div PAGE_SIZE)))"

definition page_sub :: "machine \<Rightarrow> nat \<Rightarrow> nat \<Rightarrow> nat run" where
  "page_sub M page n =
     (if n * PAGE_SIZE \<ge> 2 ^ 64 then Inl ArithOverflow
      else and_then (vaddr_sub M (page * PAGE_SIZE) (n * PAGE_SIZE)) (\<lambda>a. Inr (a div PAGE_SIZE)))"

text \<open>\<open>Page::from_start_address(..).ok()\<close> and the two conversions that expect success.\<close>

definition page_from_start :: "nat \<Rightarrow> nat option" where
  "page_from_start a = (if a mod PAGE_SIZE = 0 then Some (a div PAGE_SIZE) else None)"

definition page_from_u64 :: "machine \<Rightarrow> nat \<Rightarrow> nat option run" where
  "page_from_u64 M a = and_then (virt_new M a) (\<lambda>v. Inr (page_from_start v))"

definition align_up :: "nat \<Rightarrow> nat run" where
  "align_up addr =
     (if addr + PAGE_SIZE \<ge> 2 ^ 64 then Inl ArithOverflow
      else Inr (unat ((of_nat (addr + PAGE_SIZE - 1) :: 64 word) AND NOT (of_nat (PAGE_SIZE - 1)))))"

definition frame_from_u64 :: "machine \<Rightarrow> nat \<Rightarrow> nat run" where
  "frame_from_u64 M a =
     and_then (phys_new M a) (\<lambda>pa.
       let aligned = (pa + PAGE_SIZE - 1) div PAGE_SIZE * PAGE_SIZE in
       and_then (phys_new M aligned) (\<lambda>pa'. Inr (pa' div PAGE_SIZE)))"

definition expect :: "'a option \<Rightarrow> 'a run" where
  "expect x = (case x of Some y \<Rightarrow> Inr y | None \<Rightarrow> Inl UnwrapNone)"

definition last_usable_virtual_address :: "machine \<Rightarrow> nat run" where
  "last_usable_virtual_address M =
     (if linear_address_bits M = 0 \<or> linear_address_bits M - 1 \<ge> 64 then Inl ArithOverflow
      else Inr (2 ^ (linear_address_bits M - 1) - 1))"

section \<open>Address spaces\<close>

definition USER_SPACE_START :: nat where
  "USER_SPACE_START = 0x10000000000"

record virtual_address_space =
  virtual_memory_areas :: "(nat, virtual_memory_area) btree"
  page_tables :: paging
  first_usable_user_addr :: nat
  last_usable_user_addr :: nat

definition vas_new :: "machine \<Rightarrow> paging \<Rightarrow> virtual_address_space run" where
  "vas_new M tables =
     and_then (virt_new M USER_SPACE_START) (\<lambda>first.
     and_then (last_usable_virtual_address M) (\<lambda>l.
     and_then (virt_new M l) (\<lambda>last.
       Inr \<lparr>virtual_memory_areas = [], page_tables = tables,
            first_usable_user_addr = first, last_usable_user_addr = last\<rparr>)))"

definition clone_address_space ::
    "('s \<Rightarrow> nat \<Rightarrow> (phys_frame_range \<times> 's) run) \<Rightarrow> virtual_address_space \<Rightarrow> 's \<Rightarrow> (paging \<times> 's) run" where
  "clone_address_space alloc other s = from_other alloc (page_tables other) s"

definition create_kernel_address_space ::
    "('s \<Rightarrow> nat \<Rightarrow> (phys_frame_range \<times> 's) run) \<Rightarrow> machine \<Rightarrow> nat \<Rightarrow> 's \<Rightarrow> (paging \<times> 's) run" where
  "create_kernel_address_space alloc M max_phys_addr s =
     and_then (paging_new alloc 4 s) (\<lambda>(p, s1).
     and_then (virt_new M max_phys_addr) (\<lambda>limit.
       map_pages alloc p \<lparr>pg_start = 0, pg_end = limit div PAGE_SIZE\<rparr> Kernel (PRESENT OR WRITABLE) s1))"

definition pfr_from_pr_identity :: "machine \<Rightarrow> page_range \<Rightarrow> phys_frame_range run" where
  "pfr_from_pr_identity M pr =
     and_then (phys_new M (pg_start pr * PAGE_SIZE)) (\<lambda>a.
     and_then (expect (page_from_start a)) (\<lambda>start_frame.
     and_then (phys_new M (pg_end pr * PAGE_SIZE)) (\<lambda>b.
     and_then (expect (page_from_start b)) (\<lambda>end_frame.
       Inr \<lparr>fr_start = start_frame, fr_end = end_frame\<rparr>))))"

section \<open>Allocating areas\<close>

definition in_space_bounds :: "virtual_address_space \<Rightarrow> memory_space \<Rightarrow> nat \<Rightarrow> nat \<Rightarrow> bool" where
  "in_space_bounds v space start_a end_a = (case space of
       User \<Rightarrow> \<not> start_a < first_usable_user_addr v \<and> \<not> end_a > last_usable_user_addr v
     | Kernel \<Rightarrow> \<not> start_a \<ge> first_usable_user_addr v \<and> \<not> end_a > first_usable_user_addr v)"

definition alloc_at ::
    "machine \<Rightarrow> virtual_address_space \<Rightarrow> nat \<Rightarrow> nat \<Rightarrow> memory_space \<Rightarrow> vma_type \<Rightarrow> byte list \<Rightarrow>
     (virtual_memory_area option \<times> virtual_address_space) run" where
  "alloc_at M v first_page num_pages space ty tag =
     (if num_pages = 0 then Inr (None, v)
      else
        let start_a = first_page * PAGE_SIZE; size_bytes = num_pages * PAGE_SIZE in
        if size_bytes \<ge> 2 ^ 64 then Inr (None, v)
        else if start_a + size_bytes \<ge> 2 ^ 64 then Inr (None, v)
        else and_then (virt_new M (start_a + size_bytes)) (\<lambda>end_a.
          case page_from_start end_a of
            None \<Rightarrow> Inr (None, v)
          | Some end_page \<Rightarrow>
              if \<not> in_space_bounds v space start_a end_a then Inr (None, v)
              else
                let new_vma = new_with_tag space \<lparr>pg_start = first_page, pg_end = end_page\<rparr> ty tag;
                    vmas = virtual_memory_areas v
                in if (case bt_last_upto vmas start_a of
                         Some (_, prev) \<Rightarrow> vma_end prev > start_a | None \<Rightarrow> False)
                   then Inr (None, v)
                   else if (case bt_first_from vmas start_a of
                         Some (next_start, _) \<Rightarrow> end_a > next_start | None \<Rightarrow> False)
                   then Inr (None, v)
                   else Inr (Some new_vma, v\<lparr>virtual_memory_areas := bt_insert vmas start_a new_vma\<rparr>)))"

text \<open>
  The search loop of \<open>alloc\<close>: the start of a gap that is large enough. The areas are visited
  in ascending order, \<open>current\<close> is the end of the areas visited so far.
\<close>

fun alloc_search ::
    "machine \<Rightarrow> nat \<Rightarrow> nat \<Rightarrow> (nat \<times> virtual_memory_area) list \<Rightarrow> nat \<Rightarrow> nat option run" where
  "alloc_search M size_bytes search_end [] current =
     and_then (vaddr_add M current size_bytes) (\<lambda>alloc_end.
       Inr (if alloc_end \<le> search_end then Some current else None))"
| "alloc_search M size_bytes search_end ((_, vma) # areas) current =
     (if vma_start vma \<ge> vma_end vma
      then Inl (PanicMsg ''VMA start address is not less than VMA end address'')
      else if page_from_start (vma_start vma) = None \<or> page_from_start (vma_end vma) = None
      then Inl (PanicMsg ''misaligned VMA'')
      else and_then (vaddr_add M current size_bytes) (\<lambda>alloc_end.
        if alloc_end \<le> vma_start vma then Inr (Some current)
        else
          let current' = (if vma_end vma > current then vma_end vma else current) in
          if current' \<ge> search_end then Inr None
          else alloc_search M size_bytes search_end areas current'))"

definition search_range :: "virtual_address_space \<Rightarrow> memory_space \<Rightarrow> nat \<times> nat" where
  "search_range v space =
     (if space = User then (first_usable_user_addr v, last_usable_user_addr v)
      else (0, first_usable_user_addr v))"

definition vmm_alloc ::
    "machine \<Rightarrow> virtual_address_space \<Rightarrow> nat \<Rightarrow> memory_space \<Rightarrow> vma_type \<Rightarrow> byte list \<Rightarrow>
     (virtual_memory_area option \<times> virtual_address_space) run" where
  "vmm_alloc M v num_pages space ty tag =
     (if num_pages = 0 then Inr (None, v)
      else if num_pages * PAGE_SIZE \<ge> 2 ^ 64 then Inr (None, v)
      else
        let (lo, hi) = search_range v space in
        if lo \<ge> hi then Inr (None, v)
        else and_then (alloc_search M (num_pages * PAGE_SIZE) hi (bt_range (virtual_memory_areas v) lo hi) lo)
          (\<lambda>gap. case gap of
               None \<Rightarrow> Inr (None, v)
             | Some current \<Rightarrow> (case page_from_start current of
                   None \<Rightarrow> Inr (None, v)
                 | Some page \<Rightarrow> alloc_at M v page num_pages space ty tag)))"

definition alloc_vma ::
    "machine \<Rightarrow> virtual_address_space \<Rightarrow> nat option \<Rightarrow> nat \<Rightarrow> memory_space \<Rightarrow> vma_type \<Rightarrow> byte list \<Rightarrow>
     (virtual_memory_area option \<times> virtual_address_space) run" where
  "alloc_vma M v start_page num_pages space ty tag =
     (if num_pages = 0 then Inr (None, v)
      else case start_page of
        Some page \<Rightarrow> alloc_at M v page num_pages space ty tag
      | None \<Rightarrow> vmm_alloc M v num_pages space ty tag)"

section \<open>Frames and mappings of areas\<close>

type_synonym 's allocator = "'s \<Rightarrow> nat \<Rightarrow> (phys_frame_range \<times> 's) run"

definition range_len :: "page_range \<Rightarrow> nat" where
  "range_len r = (if pg_start r \<ge> pg_end r then 0 else pg_end r - pg_start r)"

definition alloc2_pf_for_vma ::
    "'s allocator \<Rightarrow> virtual_memory_area \<Rightarrow> 's \<Rightarrow> (phys_frame_range option \<times> 's) run" where
  "alloc2_pf_for_vma alloc vma s =
     and_then (alloc s (range_len (vm_range vma))) (\<lambda>(r, s'). Inr (Some r, s'))"

definition alloc_pfr_for_partial_vma ::
    "'s allocator \<Rightarrow> virtual_memory_area \<Rightarrow> page_range \<Rightarrow> 's \<Rightarrow> (phys_frame_range option \<times> 's) run" where
  "alloc_pfr_for_partial_vma alloc vma pr s =
     (if pg_start pr < pg_start (vm_range vma) \<or> pg_end pr > pg_end (vm_range vma) then Inr (None, s)
      else and_then (alloc s (range_len pr)) (\<lambda>(r, s'). Inr (Some r, s')))"

text \<open>The error value is the \<open>i64\<close> of the source; the tables are unchanged with an error.\<close>

definition map_pfr_for_partial_vma ::
    "'s allocator \<Rightarrow> virtual_address_space \<Rightarrow> virtual_memory_area \<Rightarrow> phys_frame_range \<Rightarrow> page_range \<Rightarrow>
     pflags \<Rightarrow> 's \<Rightarrow> ((int + unit) \<times> virtual_address_space \<times> 's) run" where
  "map_pfr_for_partial_vma alloc v vma frames pr flags s =
     (if pg_start pr = pg_end pr then Inr (Inl (-1), v, s)
      else and_then (frames_len frames) (\<lambda>num_frames.
        and_then (pages_len pr) (\<lambda>num_pages.
        if num_frames \<noteq> num_pages then Inr (Inl (-1), v, s)
        else
          let flags' = check_and_enforce_consistency vma flags OR PRESENT in
          if pg_start pr < pg_start (vm_range vma) \<or> pg_end pr > pg_end (vm_range vma)
          then Inr (Inl (-1), v, s)
          else and_then (map_physical alloc (page_tables v) frames pr (vm_space vma) flags' s)
            (\<lambda>(p, s'). Inr (Inr (), v\<lparr>page_tables := p\<rparr>, s')))))"

definition map_pfr_for_vma ::
    "'s allocator \<Rightarrow> virtual_address_space \<Rightarrow> virtual_memory_area \<Rightarrow> phys_frame_range \<Rightarrow>
     pflags \<Rightarrow> 's \<Rightarrow> ((int + unit) \<times> virtual_address_space \<times> 's) run" where
  "map_pfr_for_vma alloc v vma frames flags s =
     map_pfr_for_partial_vma alloc v vma frames (vm_range vma) flags s"

definition map_partial_vma ::
    "'s allocator \<Rightarrow> virtual_address_space \<Rightarrow> virtual_memory_area \<Rightarrow> page_range \<Rightarrow> memory_space \<Rightarrow>
     pflags \<Rightarrow> 's \<Rightarrow> (virtual_address_space \<times> 's) run" where
  "map_partial_vma alloc v vma pr space flags s =
     and_then (expect (bt_get (virtual_memory_areas v) (vma_start vma))) (\<lambda>found.
       if \<not> is_equivalent_to vma found
       then Inl (PanicMsg ''Tried to map pages in a not existing VMA'')
       else if \<not> pg_start pr * PAGE_SIZE \<ge> vma_start vma then Inl AssertFailed
       else if \<not> pg_end pr * PAGE_SIZE \<le> vma_end vma then Inl AssertFailed
       else and_then (map_pages alloc (page_tables v) pr space flags s)
         (\<lambda>(p, s'). Inr (v\<lparr>page_tables := p\<rparr>, s')))"

definition vas_set_flags :: "virtual_address_space \<Rightarrow> page_range \<Rightarrow> pflags \<Rightarrow> virtual_address_space run" where
  "vas_set_flags v pages flags =
     and_then (set_flags (page_tables v) pages flags) (\<lambda>p. Inr (v\<lparr>page_tables := p\<rparr>))"

definition unmap_vma ::
    "('s \<Rightarrow> phys_frame_range \<Rightarrow> 's run) \<Rightarrow> virtual_address_space \<Rightarrow> virtual_memory_area \<Rightarrow> bool \<Rightarrow> 's \<Rightarrow>
     (virtual_address_space \<times> 's) run" where
  "unmap_vma free v vma free_physical s =
     and_then (unmap free (page_tables v) (vm_range vma) free_physical s)
       (\<lambda>(p, s'). Inr (v\<lparr>page_tables := p\<rparr>, s'))"

text \<open>Dropping an address space releases the frames of all areas but device memory.\<close>

fun drop_areas ::
    "('s \<Rightarrow> phys_frame_range \<Rightarrow> 's run) \<Rightarrow> (nat \<times> virtual_memory_area) list \<Rightarrow> paging \<Rightarrow> 's \<Rightarrow>
     (paging \<times> 's) run" where
  "drop_areas free [] p s = Inr (p, s)"
| "drop_areas free ((_, vma) # areas) p s =
     (if vm_typ vma \<noteq> DeviceMemory
      then and_then (unmap free p (vm_range vma) True s) (\<lambda>(p', s'). drop_areas free areas p' s')
      else drop_areas free areas p s)"

definition vas_drop ::
    "('s \<Rightarrow> phys_frame_range \<Rightarrow> 's run) \<Rightarrow> virtual_address_space \<Rightarrow> 's \<Rightarrow> (virtual_address_space \<times> 's) run" where
  "vas_drop free v s =
     and_then (drop_areas free (virtual_memory_areas v) (page_tables v) s)
       (\<lambda>(p, s'). Inr (v\<lparr>page_tables := p\<rparr>, s'))"

section \<open>Areas with their mappings\<close>

definition kernel_map_devm_identity ::
    "'s allocator \<Rightarrow> machine \<Rightarrow> virtual_address_space \<Rightarrow> nat \<Rightarrow> nat \<Rightarrow> pflags \<Rightarrow> vma_type \<Rightarrow> byte list \<Rightarrow>
     's \<Rightarrow> (page_range \<times> virtual_address_space \<times> 's) run" where
  "kernel_map_devm_identity alloc M v start_phys_addr end_phys_addr flags ty tag s =
     (if \<not> end_phys_addr > start_phys_addr then Inl AssertFailed
      else
        and_then (frame_from_u64 M start_phys_addr) (\<lambda>start_frame.
        and_then (align_up end_phys_addr) (\<lambda>end_aligned.
        and_then (frame_from_u64 M end_aligned) (\<lambda>end_frame.
        and_then (and_then (page_from_u64 M start_phys_addr) expect) (\<lambda>start_page.
        and_then (and_then (page_from_u64 M end_aligned) expect) (\<lambda>end_page.
        let pfr = \<lparr>fr_start = start_frame, fr_end = end_frame\<rparr>;
            pr = \<lparr>pg_start = start_page, pg_end = end_page\<rparr>
        in and_then (alloc_vma M v (Some start_page) (range_len pr) Kernel ty tag) (\<lambda>(vma, v1).
           and_then (expect vma) (\<lambda>vma.
           and_then (map_pfr_for_vma alloc v1 vma pfr flags s) (\<lambda>(r, v2, s').
             case r of Inl _ \<Rightarrow> Inl UnwrapNone | Inr _ \<Rightarrow> Inr (pr, v2, s'))))))))))"

definition kernel_alloc_map_identity ::
    "'s allocator \<Rightarrow> machine \<Rightarrow> virtual_address_space \<Rightarrow> nat \<Rightarrow> pflags \<Rightarrow> vma_type \<Rightarrow> byte list \<Rightarrow>
     's \<Rightarrow> (page_range \<times> virtual_address_space \<times> 's) run" where
  "kernel_alloc_map_identity alloc M v num_pf flags ty tag s =
     (if num_pf = 0 then Inl (PanicMsg ''num_pf must be > 0'')
      else
        and_then (alloc s num_pf) (\<lambda>(pfr, s1).
        and_then (and_then (page_from_u64 M (start_address (fr_start pfr))) expect) (\<lambda>start_page.
        and_then (alloc_vma M v (Some start_page)
            (range_len \<lparr>pg_start = fr_start pfr, pg_end = fr_end pfr\<rparr>) Kernel ty tag) (\<lambda>(vma, v1).
        and_then (expect vma) (\<lambda>vma.
        and_then (map_pfr_for_vma alloc v1 vma pfr flags s1) (\<lambda>(r, v2, s2).
          case r of Inl _ \<Rightarrow> Inl UnwrapNone
          | Inr _ \<Rightarrow> and_then (page_add M start_page num_pf) (\<lambda>end_page.
              Inr (\<lparr>pg_start = start_page, pg_end = end_page\<rparr>, v2, s2))))))))"

definition user_flags :: pflags where
  "user_flags = PRESENT OR WRITABLE OR USER_ACCESSIBLE"

definition user_alloc_map_full ::
    "'s allocator \<Rightarrow> machine \<Rightarrow> virtual_address_space \<Rightarrow> nat option \<Rightarrow> nat \<Rightarrow> vma_type \<Rightarrow> byte list \<Rightarrow>
     's \<Rightarrow> (virtual_memory_area option \<times> virtual_address_space \<times> 's) run" where
  "user_alloc_map_full alloc M v start_page num_pages ty tag s =
     and_then (alloc_vma M v start_page num_pages User ty tag) (\<lambda>(vma, v1). case vma of
         None \<Rightarrow> Inr (None, v1, s)
       | Some vma \<Rightarrow>
           and_then (map_pages alloc (page_tables v1) (vm_range vma) User user_flags s)
             (\<lambda>(p, s'). Inr (Some vma, v1\<lparr>page_tables := p\<rparr>, s')))"

definition user_alloc_map_partial ::
    "'s allocator \<Rightarrow> machine \<Rightarrow> virtual_address_space \<Rightarrow> nat option \<Rightarrow> nat \<Rightarrow> vma_type \<Rightarrow> byte list \<Rightarrow>
     nat \<Rightarrow> bool \<Rightarrow> 's \<Rightarrow> (virtual_memory_area option \<times> virtual_address_space \<times> 's) run" where
  "user_alloc_map_partial alloc M v start_page num_pages ty tag alloc_num_pages alloc_downwards s =
     (if alloc_num_pages > num_pages then Inr (None, v, s)
      else and_then (alloc_vma M v start_page num_pages User ty tag) (\<lambda>(vma, v1). case vma of
         None \<Rightarrow> Inr (None, v1, s)
       | Some vma \<Rightarrow>
           and_then
             (if alloc_downwards
              then and_then (page_sub M (pg_end (vm_range vma)) alloc_num_pages) (\<lambda>start_page.
                     Inr \<lparr>pg_start = start_page, pg_end = pg_end (vm_range vma)\<rparr>)
              else and_then (page_add M (pg_start (vm_range vma)) alloc_num_pages) (\<lambda>end_page.
                     Inr \<lparr>pg_start = pg_start (vm_range vma), pg_end = end_page\<rparr>))
             (\<lambda>pr. and_then (map_pages alloc (page_tables v1) pr User user_flags s)
                (\<lambda>(p, s'). Inr (Some vma, v1\<lparr>page_tables := p\<rparr>, s')))))"

section \<open>Looking up areas\<close>

definition get_phys :: "machine \<Rightarrow> virtual_address_space \<Rightarrow> nat \<Rightarrow> nat option run" where
  "get_phys M v virt_addr = and_then (virt_new M virt_addr) (\<lambda>a. Inr (translate (page_tables v) a))"

definition is_address_within_vma ::
    "machine \<Rightarrow> virtual_address_space \<Rightarrow> nat \<Rightarrow> virtual_memory_area option run" where
  "is_address_within_vma M v address =
     and_then (virt_new M address) (\<lambda>vaddr.
       Inr (case bt_last_upto (virtual_memory_areas v) vaddr of
              Some (_, vma) \<Rightarrow> if vaddr < vma_end vma then Some vma else None
            | None \<Rightarrow> None))"

section \<open>Rounding up to pages\<close>

lemma and_not_page_mask:
  "unat (x AND NOT (of_nat (PAGE_SIZE - 1)) :: 64 word) = unat x div PAGE_SIZE * PAGE_SIZE"
proof -
  have m: "(of_nat (PAGE_SIZE - 1) :: 64 word) = mask 12" by (simp add: PAGE_SIZE_def mask_eq_exp_minus_1)
  have "unat x < 2 ^ LENGTH(64)" by (rule unsigned_less)
  then have lt: "unat x < 2 ^ 64" by simp
  then have self: "take_bit 64 (unat x) = unat x" by (simp add: take_bit_nat_eq_self)
  have "x AND NOT (mask 12) = push_bit 12 (drop_bit 12 x)"
    by (rule bit_word_eqI) (auto simp: bit_simps)
  moreover have "unat (push_bit 12 (drop_bit 12 x)) = take_bit 64 (unat x div 4096 * 4096)"
    by (simp only: unsigned_push_bit_eq unsigned_drop_bit_eq) (simp add: push_bit_eq_mult drop_bit_eq_div self)
  moreover have "unat x div 4096 * 4096 < 2 ^ 64"
    by (rule le_less_trans [OF div_times_less_eq_dividend lt])
  ultimately show ?thesis unfolding m by (simp add: PAGE_SIZE_def take_bit_nat_eq_self del: mask_numeral)
qed
text \<open>\<open>align_up\<close> returns the least multiple of the page size that is not below the address.\<close>

lemma align_up_eq:
  assumes "addr + PAGE_SIZE < 2 ^ 64"
  shows "\<exists>p. align_up addr = Inr (p * PAGE_SIZE) \<and> addr \<le> p * PAGE_SIZE \<and> p * PAGE_SIZE < addr + PAGE_SIZE"
proof -
  let ?x = "addr + PAGE_SIZE - 1"
  have "unat (of_nat ?x :: 64 word) = ?x"
    using assms by (simp add: unsigned_of_nat take_bit_nat_eq_self)
  then have "align_up addr = Inr (?x div PAGE_SIZE * PAGE_SIZE)"
    using assms unfolding align_up_def and_not_page_mask by simp
  moreover have "addr \<le> ?x div PAGE_SIZE * PAGE_SIZE"
    using div_mult_mod_eq [of ?x PAGE_SIZE] mod_less_divisor [OF PAGE_SIZE_pos, of ?x] by linarith
  moreover have "?x div PAGE_SIZE * PAGE_SIZE < addr + PAGE_SIZE"
    using div_times_less_eq_dividend [of ?x PAGE_SIZE] PAGE_SIZE_pos by linarith
  ultimately show ?thesis by blast
qed

section \<open>Well-formed address spaces\<close>

text \<open>
  The areas are sorted, non-empty and disjoint, each is stored under its start address and
  lies in the part of the address space that its memory space has.
\<close>

fun areas_ok :: "nat \<Rightarrow> (nat, virtual_memory_area) btree \<Rightarrow> bool" where
  "areas_ok lo [] \<longleftrightarrow> True"
| "areas_ok lo ((k, w) # m) \<longleftrightarrow>
     k = vma_start w \<and> lo \<le> k \<and> vma_start w < vma_end w \<and> areas_ok (vma_end w) m"

definition wf_vas :: "virtual_address_space \<Rightarrow> bool" where
  "wf_vas v \<longleftrightarrow> areas_ok 0 (virtual_memory_areas v) \<and>
     (\<forall>(k, w) \<in> set (virtual_memory_areas v). in_space_bounds v (vm_space w) (vma_start w) (vma_end w)) \<and>
     first_usable_user_addr v mod PAGE_SIZE = 0 \<and> first_usable_user_addr v < 2 ^ 47 \<and>
     last_usable_user_addr v < 2 ^ 47"

text \<open>The area that an allocation at \<open>page\<close> creates, and whether there is room for it.\<close>

abbreviation area_at :: "memory_space \<Rightarrow> vma_type \<Rightarrow> byte list \<Rightarrow> nat \<Rightarrow> nat \<Rightarrow> virtual_memory_area" where
  "area_at space ty tag page n \<equiv> new_with_tag space \<lparr>pg_start = page, pg_end = page + n\<rparr> ty tag"

definition room :: "virtual_address_space \<Rightarrow> memory_space \<Rightarrow> nat \<Rightarrow> nat \<Rightarrow> bool" where
  "room v space page n \<longleftrightarrow> 0 < n \<and> in_space_bounds v space (page * PAGE_SIZE) ((page + n) * PAGE_SIZE) \<and>
     (\<forall>(k, w) \<in> set (virtual_memory_areas v). \<not> overlaps_with w (area_at space Anonymous [] page n))"

lemma new_with_tag_simps [simp]:
  "vm_space (new_with_tag space r ty tag) = space" "vm_range (new_with_tag space r ty tag) = r"
  "vm_typ (new_with_tag space r ty tag) = ty"
  by (simp_all add: new_with_tag_def Let_def)

lemma overlaps_bytes:
  "overlaps_with w (area_at space ty tag page n) \<longleftrightarrow>
     page * PAGE_SIZE < vma_end w \<and> vma_start w < (page + n) * PAGE_SIZE"
  by (auto simp: overlaps_with_def vma_start_def vma_end_def)

lemma areas_ok_mono: "areas_ok lo m \<Longrightarrow> lo' \<le> lo \<Longrightarrow> areas_ok lo' m"
  by (cases m) auto

lemma areas_ok_ge: "areas_ok lo m \<Longrightarrow> (k, w) \<in> set m \<Longrightarrow> lo \<le> k \<and> k = vma_start w \<and> vma_start w < vma_end w"
  by (induction lo m rule: areas_ok.induct) fastforce+

lemma areas_ok_wf: "areas_ok lo m \<Longrightarrow> bt_wf m"
proof (induction lo m rule: areas_ok.induct)
  case (2 lo k w m)
  then have "\<forall>e \<in> set m. k < fst e" using areas_ok_ge [of "vma_end w" m] by fastforce
  with 2 show ?case by simp
qed simp

lemma areas_ok_disjoint:
  "areas_ok lo m \<Longrightarrow> (k, w) \<in> set m \<Longrightarrow> (k', w') \<in> set m \<Longrightarrow> k < k' \<Longrightarrow> vma_end w \<le> k'"
proof (induction lo m rule: areas_ok.induct)
  case (2 lo a x m)
  then show ?case using areas_ok_ge [of "vma_end x" m] by fastforce
qed simp

lemma areas_ok_insert:
  "areas_ok lo m \<Longrightarrow> lo \<le> vma_start x \<Longrightarrow> vma_start x < vma_end x \<Longrightarrow>
     \<forall>(k, w) \<in> set m. \<not> (vma_start x < vma_end w \<and> vma_start w < vma_end x) \<Longrightarrow>
     areas_ok lo (bt_insert m (vma_start x) x)"
  by (induction lo m rule: areas_ok.induct) auto

text \<open>The checks against the two neighbours find every overlap.\<close>

lemma neighbours_suffice:
  assumes "areas_ok lo m" and "a < b"
  shows "(case bt_last_upto m a of Some (_, prev) \<Rightarrow> vma_end prev > a | None \<Rightarrow> False) \<or>
      (case bt_first_from m a of Some (next_start, _) \<Rightarrow> b > next_start | None \<Rightarrow> False) \<longleftrightarrow>
    (\<exists>(k, w) \<in> set m. a < vma_end w \<and> vma_start w < b)"
    (is "?L \<or> ?R \<longleftrightarrow> ?O")
proof
  assume "?L \<or> ?R"
  then show ?O
  proof
    assume ?L
    then obtain k w where "bt_last_upto m a = Some (k, w)" "a < vma_end w" by (auto split: option.splits)
    then show ?O using bt_last_upto_Some [of m a k w] areas_ok_ge [OF assms(1), of k w] assms(2)
      by (intro bexI [of _ "(k, w)"]) auto
  next
    assume ?R
    then obtain k w where "bt_first_from m a = Some (k, w)" "k < b" by (auto split: option.splits)
    then show ?O using bt_first_from_Some [of m a k w] areas_ok_ge [OF assms(1), of k w] assms(2)
      by (intro bexI [of _ "(k, w)"]) auto
  qed
next
  note wf = areas_ok_wf [OF assms(1)]
  assume ?O
  then obtain k w where w: "(k, w) \<in> set m" "a < vma_end w" "vma_start w < b" by auto
  have k: "k = vma_start w" using areas_ok_ge [OF assms(1) w(1)] by simp
  show "?L \<or> ?R"
  proof (cases "k \<le> a")
    case True
    then obtain k' w' where p: "bt_last_upto m a = Some (k', w')" "(k', w') \<in> set m" "k \<le> k'" "k' \<le> a"
      using bt_last_upto_exists [OF wf w(1)] by blast
    have "a < vma_end w'"
    proof (cases "k = k'")
      case True
      then show ?thesis using bt_wf_unique [OF wf] w(1,2) p(2) by blast
    next
      case False
      then have "vma_end w \<le> k'" using areas_ok_disjoint [OF assms(1) w(1) p(2)] p(3) by simp
      with w(2) p(4) show ?thesis by simp
    qed
    with p(1) show ?thesis by simp
  next
    case False
    then obtain k' w' where "bt_first_from m a = Some (k', w')" "k' \<le> k"
      using bt_first_from_exists [OF wf w(1), of a] by (metis nat_le_linear)
    with w(3) k show ?thesis by simp
  qed
qed

section \<open>Allocation at a given page\<close>

lemma page_from_start_mult [simp]: "page_from_start (p * PAGE_SIZE) = Some p"
  by (simp add: page_from_start_def)

lemma room_alt:
  "room v space page n \<longleftrightarrow> 0 < n \<and> in_space_bounds v space (page * PAGE_SIZE) ((page + n) * PAGE_SIZE) \<and>
     (\<forall>(k, w) \<in> set (virtual_memory_areas v).
        vma_end w \<le> page * PAGE_SIZE \<or> (page + n) * PAGE_SIZE \<le> vma_start w)"
  by (force simp: room_def overlaps_bytes)

lemma bounds_below:
  "wf_vas v \<Longrightarrow> in_space_bounds v space a b \<Longrightarrow> b < 2 ^ 47"
  by (auto simp: wf_vas_def in_space_bounds_def split: memory_space.splits)

lemma alloc_at_eq:
  assumes "wf_vas v" and canon: "\<forall>a < 2 ^ 47. canonical M a"
  shows "alloc_at M v page n space ty tag =
    (if room v space page n
     then Inr (Some (area_at space ty tag page n), v\<lparr>virtual_memory_areas :=
            bt_insert (virtual_memory_areas v) (page * PAGE_SIZE) (area_at space ty tag page n)\<rparr>)
     else if n = 0 \<or> (page + n) * PAGE_SIZE \<ge> 2 ^ 64 \<or> canonical M ((page + n) * PAGE_SIZE)
     then Inr (None, v) else Inl (PanicMsg ''non-canonical address''))"
proof -
  let ?a = "page * PAGE_SIZE" and ?b = "(page + n) * PAGE_SIZE" and ?m = "virtual_memory_areas v"
  have ok: "areas_ok 0 ?m" using assms(1) by (simp add: wf_vas_def)
  have sum: "?a + n * PAGE_SIZE = ?b" by (simp add: algebra_simps)
  show ?thesis
  proof (cases "n = 0 \<or> 2 ^ 64 \<le> ?b \<or> \<not> canonical M ?b")
    case True
    have "\<not> room v space page n"
      using True bounds_below [OF assms(1), of space ?a ?b] canon by (auto simp: room_def)
    moreover have "n * PAGE_SIZE < 2 ^ 64" if "?b < 2 ^ 64" using that sum by linarith
    ultimately show ?thesis using True
      by (cases "?b < 2 ^ 64") (auto simp: alloc_at_def Let_def sum virt_new_def)
  next
    case False
    then have ab: "?a < ?b" by simp
    let ?chk = "(case bt_last_upto ?m ?a of Some (_, prev) \<Rightarrow> vma_end prev > ?a | None \<Rightarrow> False) \<or>
      (case bt_first_from ?m ?a of Some (next_start, _) \<Rightarrow> ?b > next_start | None \<Rightarrow> False)"
    have "alloc_at M v page n space ty tag =
      (if \<not> in_space_bounds v space ?a ?b \<or> ?chk then Inr (None, v)
       else Inr (Some (area_at space ty tag page n), v\<lparr>virtual_memory_areas :=
            bt_insert ?m ?a (area_at space ty tag page n)\<rparr>))"
    proof -
      have "n * PAGE_SIZE < 2 ^ 64" using False sum by linarith
      then show ?thesis using False by (simp add: alloc_at_def Let_def sum virt_new_def)
    qed
    also have "?chk \<longleftrightarrow> (\<exists>(k, w) \<in> set ?m. ?a < vma_end w \<and> vma_start w < ?b)"
      by (rule neighbours_suffice [OF ok ab])
    also have "(\<not> in_space_bounds v space ?a ?b \<or> (\<exists>(k, w) \<in> set ?m. ?a < vma_end w \<and> vma_start w < ?b))
        \<longleftrightarrow> \<not> room v space page n"
      using False by (auto simp: room_alt not_less [symmetric])
    finally show ?thesis using False by simp
  qed
qed

section \<open>The search for a gap\<close>

definition gap :: "(nat \<times> virtual_memory_area) list \<Rightarrow> nat \<Rightarrow> nat \<Rightarrow> bool" where
  "gap areas a b \<longleftrightarrow> (\<forall>(k, w) \<in> set areas. vma_end w \<le> a \<or> b \<le> vma_start w)"

lemma alloc_search_sound:
  "alloc_search M sz hi areas c = Inr (Some g) \<Longrightarrow> areas_ok lo areas \<Longrightarrow>
     \<forall>(k, w) \<in> set areas. k < hi \<Longrightarrow> c mod PAGE_SIZE = 0 \<Longrightarrow>
     c \<le> g \<and> g + sz \<le> hi \<and> g mod PAGE_SIZE = 0 \<and> gap areas g (g + sz)"
proof (induction areas arbitrary: c lo)
  case Nil
  then show ?case by (auto simp: and_then_Inr_iff vaddr_add_def virt_new_def gap_def split: if_splits)
next
  case (Cons e areas)
  obtain k w where e: "e = (k, w)" by fastforce
  have ok: "areas_ok (vma_end w) areas" "k = vma_start w" "vma_start w < vma_end w" "k < hi"
    using Cons.prems(2,3) e by auto
  show ?case
  proof (cases "c + sz \<le> vma_start w")
    case True
    have "g = c" using Cons.prems(1) True
      by (auto simp: e and_then_Inr_iff vaddr_add_def virt_new_def Let_def split: if_splits)
    moreover have "gap areas c (c + sz)"
      using areas_ok_ge [OF ok(1)] ok(3) True unfolding gap_def by fastforce
    ultimately show ?thesis using True ok Cons.prems(4) by (auto simp: e gap_def)
  next
    case False
    let ?c = "if vma_end w > c then vma_end w else c"
    have "alloc_search M sz hi areas ?c = Inr (Some g)"
      using Cons.prems(1) False
      by (auto simp: e and_then_Inr_iff vaddr_add_def virt_new_def Let_def split: if_splits)
    moreover have "?c mod PAGE_SIZE = 0" using Cons.prems(4) by (simp add: vma_end_def)
    ultimately have "?c \<le> g \<and> g + sz \<le> hi \<and> g mod PAGE_SIZE = 0 \<and> gap areas g (g + sz)"
      using Cons.prems(3) e by (intro Cons.IH [OF _ ok(1)]) auto
    then show ?thesis by (auto simp: e gap_def split: if_splits)
  qed
qed

lemma alloc_search_complete:
  "gap areas g (g + sz) \<Longrightarrow> areas_ok lo areas \<Longrightarrow> c \<le> g \<Longrightarrow> g + sz \<le> hi \<Longrightarrow> 0 < sz \<Longrightarrow>
     hi < 2 ^ 47 \<Longrightarrow> \<forall>a < 2 ^ 47. canonical M a \<Longrightarrow>
     \<exists>g' \<le> g. alloc_search M sz hi areas c = Inr (Some g')"
proof (induction areas arbitrary: c lo)
  case Nil
  then have "c + sz < 2 ^ 47" by linarith
  with Nil show ?case by (auto simp: vaddr_add_def virt_new_def)
next
  case (Cons e areas)
  obtain k w where e: "e = (k, w)" by fastforce
  have ok: "areas_ok (vma_end w) areas" "k = vma_start w" "vma_start w < vma_end w"
    using Cons.prems(2) e by auto
  have lt: "c + sz < 2 ^ 47" using Cons.prems(3,4,6) by linarith
  then have add: "vaddr_add M c sz = Inr (c + sz)" using Cons.prems(7) by (simp add: vaddr_add_def virt_new_def)
  show ?case
  proof (cases "c + sz \<le> vma_start w")
    case True
    then show ?thesis using add ok Cons.prems(3) by (auto simp: e vma_start_def vma_end_def)
  next
    case False
    let ?c = "if vma_end w > c then vma_end w else c"
    have "vma_end w \<le> g" using Cons.prems(1,3) False by (auto simp: e gap_def)
    then have c: "?c \<le> g" using Cons.prems(3) by simp
    have "\<exists>g' \<le> g. alloc_search M sz hi areas ?c = Inr (Some g')"
      using Cons.IH [OF _ ok(1) c Cons.prems(4-7)] Cons.prems(1) by (simp add: e gap_def)
    moreover have "alloc_search M sz hi (e # areas) c = alloc_search M sz hi areas ?c"
    proof -
      have "?c < hi" using c Cons.prems(4,5) by linarith
      then show ?thesis using add ok(3) False by (simp add: e vma_start_def vma_end_def)
    qed
    ultimately show ?thesis by simp
  qed
qed

lemma room_gap:
  assumes "wf_vas v" and "search_range v space = (lo, hi)"
  shows "room v space page n \<longleftrightarrow> 0 < n \<and> lo \<le> page * PAGE_SIZE \<and> (page + n) * PAGE_SIZE \<le> hi \<and>
    gap (bt_range (virtual_memory_areas v) lo hi) (page * PAGE_SIZE) ((page + n) * PAGE_SIZE)"
    (is "_ \<longleftrightarrow> ?R")
proof -
  let ?a = "page * PAGE_SIZE" and ?b = "(page + n) * PAGE_SIZE" and ?m = "virtual_memory_areas v"
  have "x < y \<Longrightarrow> in_space_bounds v space x y \<longleftrightarrow> lo \<le> x \<and> y \<le> hi" for x y
    using assms(2) by (auto simp: search_range_def in_space_bounds_def split: memory_space.splits if_splits)
  then have bounds: "0 < n \<Longrightarrow> in_space_bounds v space ?a ?b \<longleftrightarrow> lo \<le> ?a \<and> ?b \<le> hi" by simp
  have out: "vma_end w \<le> ?a \<or> ?b \<le> vma_start w"
    if "(k, w) \<in> set ?m" "\<not> (lo \<le> k \<and> k < hi)" "lo \<le> ?a" "?b \<le> hi" for k w
  proof -
    have "k = vma_start w" using areas_ok_ge [of 0 ?m k w] assms(1) that(1) by (simp add: wf_vas_def)
    moreover have "in_space_bounds v (vm_space w) (vma_start w) (vma_end w)"
      using assms(1) that(1) by (auto simp: wf_vas_def)
    ultimately show ?thesis using that(2-4) assms(2)
      by (auto simp: search_range_def in_space_bounds_def split: memory_space.splits if_splits)
  qed
  show ?thesis
  proof
    assume "room v space page n"
    then show ?R using bounds by (auto simp: room_alt gap_def bt_range_def)
  next
    assume ?R
    moreover from this have "vma_end w \<le> ?a \<or> ?b \<le> vma_start w" if "(k, w) \<in> set ?m" for k w
      using out [OF that] that by (cases "lo \<le> k \<and> k < hi") (auto simp: gap_def bt_range_def)
    ultimately show "room v space page n" using bounds by (auto simp: room_alt)
  qed
qed

lemma areas_ok_filter: "areas_ok lo m \<Longrightarrow> areas_ok lo (filter P m)"
proof (induction lo m rule: areas_ok.induct)
  case (2 lo k w m)
  then show ?case using areas_ok_mono [of "vma_end w" "filter P m" lo] by auto
qed simp

lemma vmm_alloc_cases:
  assumes wf: "wf_vas v" and canon: "\<forall>a < 2 ^ 47. canonical M a" and n: "0 < n"
  shows "(\<exists>page. room v space page n \<and> (\<forall>p < page. \<not> room v space p n) \<and>
       vmm_alloc M v n space ty tag = alloc_at M v page n space ty tag) \<or>
    (\<forall>page. \<not> room v space page n) \<and>
       (vmm_alloc M v n space ty tag = Inr (None, v) \<or> (\<exists>e. vmm_alloc M v n space ty tag = Inl e))"
proof -
  obtain lo hi where sr: "search_range v space = (lo, hi)" by fastforce
  let ?areas = "bt_range (virtual_memory_areas v) lo hi" and ?sz = "n * PAGE_SIZE"
  let ?search = "alloc_search M ?sz hi ?areas lo"
  have hi: "hi < 2 ^ 47" and lo: "lo mod PAGE_SIZE = 0"
    using wf sr by (auto simp: wf_vas_def search_range_def split: if_splits)
  have ok: "areas_ok 0 ?areas" using wf by (simp add: wf_vas_def bt_range_def areas_ok_filter)
  have below: "\<forall>(k, w) \<in> set ?areas. k < hi" by (auto simp: bt_range_def)
  have sum: "p * PAGE_SIZE + ?sz = (p + n) * PAGE_SIZE" for p by (simp add: algebra_simps)
  have sz: "0 < ?sz" using n by simp
  have least: "\<exists>g' \<le> p * PAGE_SIZE. ?search = Inr (Some g') \<and> lo < hi \<and> ?sz < 2 ^ 64"
    if "room v space p n" for p
  proof -
    have r: "lo \<le> p * PAGE_SIZE" "p * PAGE_SIZE + ?sz \<le> hi" "gap ?areas (p * PAGE_SIZE) (p * PAGE_SIZE + ?sz)"
      using room_gap [OF wf sr, of p n] that by (auto simp: sum)
    moreover have "(2 :: nat) ^ 47 \<le> 2 ^ 64" by simp
    ultimately have "lo < hi" "?sz < 2 ^ 64" using sz hi by linarith+
    with alloc_search_complete [OF r(3) ok r(1,2) sz hi canon] show ?thesis by auto
  qed
  show ?thesis
  proof (cases "lo < hi \<and> ?sz < 2 ^ 64 \<and> (\<exists>g. ?search = Inr (Some g))")
    case True
    then obtain g where g: "?search = Inr (Some g)" by auto
    from alloc_search_sound [OF g ok below lo]
    have s: "lo \<le> g" "g + ?sz \<le> hi" "g mod PAGE_SIZE = 0" "gap ?areas g (g + ?sz)" by auto
    then obtain page where page: "g = page * PAGE_SIZE" by (auto simp: mod_eq_0_iff_dvd elim: dvdE)
    have "room v space page n" using room_gap [OF wf sr, of page n] s n by (simp add: page sum)
    moreover have "\<not> room v space p n" if "p < page" for p
    proof
      assume "room v space p n"
      from least [OF this] g have "g \<le> p * PAGE_SIZE" by auto
      with that page show False by simp
    qed
    moreover have "vmm_alloc M v n space ty tag = alloc_at M v page n space ty tag"
      using True g n by (simp add: vmm_alloc_def sr page)
    ultimately show ?thesis by blast
  next
    case False
    then have "\<forall>page. \<not> room v space page n" using least by blast
    moreover have "vmm_alloc M v n space ty tag = Inr (None, v) \<or> (\<exists>e. vmm_alloc M v n space ty tag = Inl e)"
      using False by (cases ?search) (auto simp: vmm_alloc_def sr split: option.splits)
    ultimately show ?thesis by blast
  qed
qed

section \<open>The invariant\<close>

lemma room_area_ok:
  assumes "wf_vas v" and "room v space page n"
  shows "wf_vas (v\<lparr>virtual_memory_areas :=
    bt_insert (virtual_memory_areas v) (page * PAGE_SIZE) (area_at space ty tag page n)\<rparr>)"
proof -
  let ?w = "area_at space ty tag page n" and ?m = "virtual_memory_areas v"
  have w: "vma_start ?w = page * PAGE_SIZE" "vma_end ?w = (page + n) * PAGE_SIZE"
    by (simp_all add: vma_start_def vma_end_def)
  have "areas_ok 0 (bt_insert ?m (vma_start ?w) ?w)"
    using assms by (intro areas_ok_insert) (auto simp: wf_vas_def room_alt w not_less)
  moreover have "set (bt_insert ?m (page * PAGE_SIZE) ?w) \<subseteq> insert (page * PAGE_SIZE, ?w) (set ?m)"
    by (rule bt_insert_subset)
  moreover have "in_space_bounds (v\<lparr>virtual_memory_areas := m\<rparr>) = in_space_bounds v" for m
    by (simp add: in_space_bounds_def fun_eq_iff split: memory_space.splits)
  moreover have "in_space_bounds v (vm_space ?w) (vma_start ?w) (vma_end ?w)"
    using assms(2) by (simp add: room_def w)
  ultimately show ?thesis using assms(1) by (auto simp: wf_vas_def w(1))
qed

end
