(* ===== verification/VmmProps.thy ===== *)
theory VmmProps
  imports Vmm
begin

text \<open>
  Properties of address spaces: the areas of every reachable address space are disjoint and
  inside their bounds, allocation is exact and finds the lowest gap, and the operations that
  create areas together with mappings make exactly the pages of the new area present.
\<close>

section \<open>Operations that leave the areas alone\<close>

definition same_areas :: "virtual_address_space \<Rightarrow> virtual_address_space \<Rightarrow> bool" where
  "same_areas v v' \<longleftrightarrow> virtual_memory_areas v' = virtual_memory_areas v \<and>
     first_usable_user_addr v' = first_usable_user_addr v \<and> last_usable_user_addr v' = last_usable_user_addr v"

lemma wf_vas_same: "same_areas v v' \<Longrightarrow> wf_vas v \<Longrightarrow> wf_vas v'"
proof -
  assume s: "same_areas v v'" and "wf_vas v"
  moreover from s have "in_space_bounds v' = in_space_bounds v"
    by (simp add: same_areas_def in_space_bounds_def fun_eq_iff split: memory_space.splits)
  ultimately show "wf_vas v'" by (simp add: same_areas_def wf_vas_def)
qed

lemma same_areas_tables [simp]: "same_areas v (v\<lparr>page_tables := p\<rparr>)"
  by (simp add: same_areas_def)

lemma map_pfr_same:
  "map_pfr_for_partial_vma alloc v vma frames pr flags s = Inr (r, v', s') \<Longrightarrow> same_areas v v'"
  by (auto simp: map_pfr_for_partial_vma_def and_then_Inr_iff Let_def same_areas_def split: if_splits)

lemma map_pfr_vma_same:
  "map_pfr_for_vma alloc v vma frames flags s = Inr (r, v', s') \<Longrightarrow> same_areas v v'"
  by (simp add: map_pfr_for_vma_def map_pfr_same)

lemma map_partial_same:
  "map_partial_vma alloc v vma pr space flags s = Inr (v', s') \<Longrightarrow> same_areas v v'"
  by (auto simp: map_partial_vma_def and_then_Inr_iff same_areas_def split: if_splits)

lemma set_flags_same: "vas_set_flags v pages flags = Inr v' \<Longrightarrow> same_areas v v'"
  by (auto simp: vas_set_flags_def and_then_Inr_iff same_areas_def)

lemma unmap_same: "unmap_vma free v vma fp s = Inr (v', s') \<Longrightarrow> same_areas v v'"
  by (auto simp: unmap_vma_def and_then_Inr_iff same_areas_def)

section \<open>Operations that add an area\<close>

lemma alloc_vma_cases:
  assumes "wf_vas v" and "\<forall>a < 2 ^ 47. canonical M a" and "alloc_vma M v sp n space ty tag = Inr (r, v')"
  obtains "r = None" "v' = v"
  | page where "r = Some (area_at space ty tag page n)" "room v space page n"
      "sp = Some page \<or> sp = None \<and> (\<forall>p < page. \<not> room v space p n)"
      "v' = v\<lparr>virtual_memory_areas :=
         bt_insert (virtual_memory_areas v) (page * PAGE_SIZE) (area_at space ty tag page n)\<rparr>"
proof (cases "n = 0")
  case True
  then show thesis using assms(3) that(1) by (simp add: alloc_vma_def)
next
  case False
  show thesis
  proof (cases sp)
    case (Some page)
    then have "alloc_at M v page n space ty tag = Inr (r, v')" using assms(3) False by (simp add: alloc_vma_def)
    then have "(r = None \<and> v' = v) \<or> (r = Some (area_at space ty tag page n) \<and> room v space page n \<and>
      v' = v\<lparr>virtual_memory_areas :=
         bt_insert (virtual_memory_areas v) (page * PAGE_SIZE) (area_at space ty tag page n)\<rparr>)"
      unfolding alloc_at_eq [OF assms(1,2)] by (auto split: if_splits)
    then show thesis by (elim disjE conjE) (fact that(1), rule that(2), use Some in simp_all)
  next
    case None
    then have r: "vmm_alloc M v n space ty tag = Inr (r, v')" using assms(3) False by (simp add: alloc_vma_def)
    have "0 < n" using False by simp
    from vmm_alloc_cases [OF assms(1,2) this, of space ty tag] show thesis
    proof (elim disjE exE conjE)
      fix page assume "room v space page n" "\<forall>p < page. \<not> room v space p n"
        "vmm_alloc M v n space ty tag = alloc_at M v page n space ty tag"
      with r show thesis by (intro that(2) [of page]) (simp_all add: alloc_at_eq [OF assms(1,2)] None)
    qed (use r that(1) in simp_all)
  qed
qed

lemma alloc_vma_wf:
  assumes "wf_vas v" and "\<forall>a < 2 ^ 47. canonical M a" and "alloc_vma M v sp n space ty tag = Inr (r, v')"
  shows "wf_vas v'"
  by (rule alloc_vma_cases [OF assms]) (use room_area_ok assms(1) in auto)

lemma case_unit_Inr: "(case r of Inl _ \<Rightarrow> Inl e | Inr (_ :: unit) \<Rightarrow> f) = Inr y \<longleftrightarrow> r = Inr () \<and> f = Inr y"
  by (cases r) auto

lemma page_from_u64_expect: "and_then (page_from_u64 M x) expect = Inr y \<Longrightarrow> x = y * PAGE_SIZE"
  by (auto simp: page_from_u64_def virt_new_def page_from_start_def expect_def split: if_splits option.splits)

lemma expect_Inr: "expect x = Inr y \<longleftrightarrow> x = Some y"
  by (auto simp: expect_def split: option.splits)

lemma kernel_map_devmE:
  assumes "kernel_map_devm_identity alloc M v a b flags ty tag s = Inr (pr, v', s')"
  obtains start_frame end_aligned end_frame vma v1 where
    "a < b" "align_up b = Inr end_aligned" "frame_from_u64 M a = Inr start_frame" "frame_from_u64 M end_aligned = Inr end_frame"
    "and_then (page_from_u64 M a) expect = Inr (pg_start pr)" "and_then (page_from_u64 M end_aligned) expect = Inr (pg_end pr)"
    "alloc_vma M v (Some (pg_start pr)) (range_len pr) Kernel ty tag = Inr (Some vma, v1)"
    "map_pfr_for_vma alloc v1 vma \<lparr>fr_start = start_frame, fr_end = end_frame\<rparr> flags s = Inr (Inr (), v', s')"
proof -
  let ?page = "\<lambda>x. and_then (page_from_u64 M x) expect"
  let ?last = "\<lambda>pr (r :: int + unit, v2, s'). case r of Inl _ \<Rightarrow> Inl UnwrapNone | Inr _ \<Rightarrow> Inr (pr, v2, s')"
  from assms have lt: "a < b" by (auto simp: kernel_map_devm_identity_def split: if_splits)
  obtain start_frame end_aligned end_frame start_page end_page vma v1
    where f: "frame_from_u64 M a = Inr start_frame" "align_up b = Inr end_aligned"
      "frame_from_u64 M end_aligned = Inr end_frame" "?page a = Inr start_page" "?page end_aligned = Inr end_page"
      "alloc_vma M v (Some start_page) (range_len \<lparr>pg_start = start_page, pg_end = end_page\<rparr>) Kernel ty tag = Inr (Some vma, v1)"
      and rest: "and_then (map_pfr_for_vma alloc v1 vma \<lparr>fr_start = start_frame, fr_end = end_frame\<rparr> flags s)
        (?last \<lparr>pg_start = start_page, pg_end = end_page\<rparr>) = Inr (pr, v', s')"
    using assms lt unfolding kernel_map_devm_identity_def Let_def
    by (cases "frame_from_u64 M a"; cases "align_up b"; cases "?page a") 
      (auto simp: and_then_Inr_iff [of "frame_from_u64 _ _"] and_then_Inr_iff [of "?page _"]
          and_then_Inr_iff [of "alloc_vma _ _ _ _ _ _ _"] and_then_Inr_iff [of "expect _"] expect_Inr)
  from rest have "map_pfr_for_vma alloc v1 vma \<lparr>fr_start = start_frame, fr_end = end_frame\<rparr> flags s = Inr (Inr (), v', s')"
    "pr = \<lparr>pg_start = start_page, pg_end = end_page\<rparr>" by (auto simp: and_then_Inr_iff case_unit_Inr)
  with f lt show thesis by (intro that [of end_aligned start_frame end_frame vma v1]) simp_all
qed

lemma kernel_map_devm_wf:
  assumes "kernel_map_devm_identity alloc M v a b flags ty tag s = Inr (pr, v', s')"
    and "wf_vas v" and "\<forall>a < 2 ^ 47. canonical M a"
  shows "wf_vas v'"
  by (rule kernel_map_devmE [OF assms(1)])
    (rule wf_vas_same [OF map_pfr_vma_same alloc_vma_wf [OF assms(2,3)]])

lemma kernel_alloc_map_wf:
  assumes "kernel_alloc_map_identity alloc M v n flags ty tag s = Inr (pr, v', s')"
    and "wf_vas v" and "\<forall>a < 2 ^ 47. canonical M a"
  shows "wf_vas v'"
proof -
  from assms(1) obtain vma v1 sp k r pfr s1 s2 where "alloc_vma M v sp k Kernel ty tag = Inr (Some vma, v1)"
    "map_pfr_for_vma alloc v1 vma pfr flags s1 = Inr (r, v', s2)"
    by (auto simp: kernel_alloc_map_identity_def and_then_Inr_iff expect_Inr case_unit_Inr split: if_splits)
  then show ?thesis by (blast intro: wf_vas_same [OF map_pfr_vma_same alloc_vma_wf [OF assms(2,3)]])
qed

lemma user_full_wf:
  assumes "user_alloc_map_full alloc M v sp n ty tag s = Inr (r, v', s')"
    and "wf_vas v" and "\<forall>a < 2 ^ 47. canonical M a"
  shows "wf_vas v'"
  using assms(1) alloc_vma_wf [OF assms(2,3)] wf_vas_same [OF same_areas_tables]
  by (auto simp: user_alloc_map_full_def and_then_Inr_iff split: option.splits)

lemma user_partial_wf:
  assumes "user_alloc_map_partial alloc M v sp n ty tag an down s = Inr (r, v', s')"
    and "wf_vas v" and "\<forall>a < 2 ^ 47. canonical M a"
  shows "wf_vas v'"
  using assms(1) alloc_vma_wf [OF assms(2,3)] wf_vas_same [OF same_areas_tables] assms(2)
  by (auto simp: user_alloc_map_partial_def and_then_Inr_iff split: option.splits if_splits)

section \<open>Reachable address spaces\<close>

text \<open>
  An address space is created by \<open>new\<close> and changed by the public operations, in any order
  and with any arguments, as long as they return.
\<close>

inductive vas_reach ::
    "'s allocator \<Rightarrow> ('s \<Rightarrow> phys_frame_range \<Rightarrow> 's run) \<Rightarrow> machine \<Rightarrow> virtual_address_space \<Rightarrow> bool"
  for alloc free M where
  new: "vas_new M tables = Inr v \<Longrightarrow> vas_reach alloc free M v"
| alloc_vma: "vas_reach alloc free M v \<Longrightarrow> alloc_vma M v sp n space ty tag = Inr (r, v') \<Longrightarrow>
    vas_reach alloc free M v'"
| map_pfr: "vas_reach alloc free M v \<Longrightarrow>
    map_pfr_for_partial_vma alloc v vma frames pr flags s = Inr (res, v', s') \<Longrightarrow> vas_reach alloc free M v'"
| map_partial: "vas_reach alloc free M v \<Longrightarrow> map_partial_vma alloc v vma pr space flags s = Inr (v', s') \<Longrightarrow>
    vas_reach alloc free M v'"
| set_flags: "vas_reach alloc free M v \<Longrightarrow> vas_set_flags v pr flags = Inr v' \<Longrightarrow> vas_reach alloc free M v'"
| unmap: "vas_reach alloc free M v \<Longrightarrow> unmap_vma free v vma fp s = Inr (v', s') \<Longrightarrow> vas_reach alloc free M v'"
| devm: "vas_reach alloc free M v \<Longrightarrow>
    kernel_map_devm_identity alloc M v a b flags ty tag s = Inr (pr, v', s') \<Longrightarrow> vas_reach alloc free M v'"
| kernel_alloc: "vas_reach alloc free M v \<Longrightarrow>
    kernel_alloc_map_identity alloc M v n flags ty tag s = Inr (pr, v', s') \<Longrightarrow> vas_reach alloc free M v'"
| user_full: "vas_reach alloc free M v \<Longrightarrow>
    user_alloc_map_full alloc M v sp n ty tag s = Inr (r, v', s') \<Longrightarrow> vas_reach alloc free M v'"
| user_partial: "vas_reach alloc free M v \<Longrightarrow>
    user_alloc_map_partial alloc M v sp n ty tag an down s = Inr (r, v', s') \<Longrightarrow> vas_reach alloc free M v'"

lemma vas_new_wf: "vas_new M tables = Inr v \<Longrightarrow> linear_address_bits M \<le> 48 \<Longrightarrow> wf_vas v"
proof -
  assume new: "vas_new M tables = Inr v" and bits: "linear_address_bits M \<le> 48"
  have "(2 :: nat) ^ (linear_address_bits M - 1) \<le> 2 ^ 47" using bits by (intro power_increasing) auto
  moreover have "(0 :: nat) < 2 ^ (linear_address_bits M - 1)" by simp
  ultimately have "2 ^ (linear_address_bits M - 1) - 1 < (2 :: nat) ^ 47" by linarith
  with new show ?thesis
    by (auto simp: vas_new_def and_then_Inr_iff virt_new_def last_usable_virtual_address_def wf_vas_def
        USER_SPACE_START_def PAGE_SIZE_def split: if_splits)
qed

lemma vas_reach_wf:
  assumes "vas_reach alloc free M v" and "linear_address_bits M \<le> 48" and "\<forall>a < 2 ^ 47. canonical M a"
  shows "wf_vas v"
  using assms(1)
proof induction
  case (new tables v)
  then show ?case using assms(2) by (rule vas_new_wf)
next
  case (alloc_vma v sp n space ty tag r v')
  show ?case by (rule alloc_vma_wf [OF alloc_vma.IH assms(3) alloc_vma.hyps(2)])
next
  case (devm v a b flags ty tag s pr v' s')
  show ?case by (rule kernel_map_devm_wf [OF devm.hyps(2) devm.IH assms(3)])
next
  case (kernel_alloc v n flags ty tag s pr v' s')
  show ?case by (rule kernel_alloc_map_wf [OF kernel_alloc.hyps(2) kernel_alloc.IH assms(3)])
next
  case (user_full v sp n ty tag s r v' s')
  show ?case by (rule user_full_wf [OF user_full.hyps(2) user_full.IH assms(3)])
next
  case (user_partial v sp n ty tag an down s r v' s')
  show ?case by (rule user_partial_wf [OF user_partial.hyps(2) user_partial.IH assms(3)])
qed (erule wf_vas_same [OF map_pfr_same] wf_vas_same [OF map_partial_same]
    wf_vas_same [OF set_flags_same] wf_vas_same [OF unmap_same]; assumption)+

section \<open>Areas and their mappings\<close>

text \<open>With four levels the page tables cover every canonical address of the lower half.\<close>

lemma room_pages:
  assumes "wf_vas v" and "room v space page n" and "depth p = 4"
  shows "page < page + n" and "page + n \<le> page_count p"
proof -
  show "page < page + n" using assms(2) by (simp add: room_def)
  have "(page + n) * PAGE_SIZE < 2 ^ 47"
    using assms(2) by (intro bounds_below [OF assms(1), of space "page * PAGE_SIZE"]) (simp add: room_def)
  then show "page + n \<le> page_count p" by (simp add: page_count_def assms(3) PAGE_SIZE_def)
qed

lemma range_addr:
  "in_range (vm_range w) (addr div PAGE_SIZE) \<longleftrightarrow> vma_start w \<le> addr \<and> addr < vma_end w"
  by (auto simp: in_range_def vma_start_def vma_end_def less_eq_div_iff_mult_less_eq div_less_iff_less_mult)

lemma area_stored:
  "(page * PAGE_SIZE, w) \<in> set (bt_insert m (page * PAGE_SIZE) w)"
  by (rule bt_get_in) (simp add: bt_get_insert)

lemma low_page: "depth p = 4 \<Longrightarrow> addr < 2 ^ 48 \<Longrightarrow> addr div PAGE_SIZE < page_count p"
  by (simp add: page_count_def PAGE_SIZE_def div_less_iff_less_mult)

lemma user_flags_nonzero [simp]: "user_flags \<noteq> 0"
  by (simp add: user_flags_def PRESENT_def WRITABLE_def USER_ACCESSIBLE_def)

lemma user_full_maps:
  assumes wf: "wf_vas v" "wf_paging (page_tables v)" "depth (page_tables v) = 4"
    and canon: "\<forall>a < 2 ^ 47. canonical M a"
    and run: "user_alloc_map_full alloc M v sp n ty tag s = Inr (Some w, v', s')"
  shows "(\<exists>k. (k, w) \<in> set (virtual_memory_areas v')) \<and> wf_paging (page_tables v') \<and>
    (\<forall>addr < 2 ^ 48. if vma_start w \<le> addr \<and> addr < vma_end w
       then \<exists>pa. translate (page_tables v') addr = Some pa
       else translate (page_tables v') addr = translate (page_tables v) addr)"
proof -
  let ?p = "page_tables v"
  from run obtain v1 p' where al: "alloc_vma M v sp n User ty tag = Inr (Some w, v1)"
    and mp: "map_pages alloc (page_tables v1) (vm_range w) User user_flags s = Inr (p', s')"
    and v': "v' = v1\<lparr>page_tables := p'\<rparr>"
    by (auto simp: user_alloc_map_full_def and_then_Inr_iff split: option.splits)
  obtain page where w: "w = area_at User ty tag page n" and room: "room v User page n"
    and v1: "v1 = v\<lparr>virtual_memory_areas := bt_insert (virtual_memory_areas v) (page * PAGE_SIZE) w\<rparr>"
    by (rule alloc_vma_cases [OF wf(1) canon al]) auto
  note pages = room_pages [OF wf(1) room wf(3)]
  from mp v1 w have mp': "map_pages alloc ?p (vm_range w) User user_flags s = Inr (p', s')" by simp
  have "wf_paging p' \<and> (\<forall>page < page_count ?p. if in_range (vm_range w) page
      then \<exists>f. lookup 4 (root_table p') page = Some (f, user_flags)
      else lookup 4 (root_table p') page = lookup 4 (root_table ?p) page)" and d: "depth p' = 4"
    using map_pages_root [OF wf(2), of "vm_range w" user_flags alloc User s] pages w mp'
    by (auto simp: wf(3) map_pages_def and_then_Inr_iff split: if_splits)
  then have p': "wf_paging p'" and lk: "\<And>page. page < page_count ?p \<Longrightarrow> if in_range (vm_range w) page
      then \<exists>f. lookup 4 (root_table p') page = Some (f, user_flags)
      else lookup 4 (root_table p') page = lookup 4 (root_table ?p) page" by auto
  have "if vma_start w \<le> addr \<and> addr < vma_end w then \<exists>pa. translate p' addr = Some pa
      else translate p' addr = translate ?p addr" if "addr < 2 ^ 48" for addr
    using lk [OF low_page [OF wf(3) that]]
    by (auto simp: translate_page [OF p'] translate_page [OF wf(2)] range_addr wf(3) d split: if_splits)
  with p' area_stored [of page w] show ?thesis by (auto simp: v' v1)
qed

lemma or_present_nonzero [simp]: "x OR PRESENT \<noteq> 0"
proof
  assume "x OR PRESENT = 0"
  then have "bit (x OR PRESENT) 0 = bit (0 :: pflags) 0" by simp
  then show False by (simp add: bit_simps PRESENT_def)
qed

lemma frame_from_u64_aligned: "frame_from_u64 M (p * PAGE_SIZE) = Inr f \<Longrightarrow> f = p"
proof -
  have "(p * PAGE_SIZE + PAGE_SIZE - 1) div PAGE_SIZE = p"
    by (simp add: PAGE_SIZE_def)
  then show "frame_from_u64 M (p * PAGE_SIZE) = Inr f \<Longrightarrow> f = p"
    by (auto simp: frame_from_u64_def phys_new_def and_then_Inr_iff split: if_splits)
qed

lemma map_pfr_maps:
  assumes wf: "wf_paging (page_tables v)" "pg_start (vm_range w) < pg_end (vm_range w)"
      "pg_end (vm_range w) \<le> page_count (page_tables v)"
    and run: "map_pfr_for_vma alloc v w frames flags s = Inr (Inr (), v', s')"
  shows "fr_end frames - fr_start frames = pg_end (vm_range w) - pg_start (vm_range w) \<and>
    wf_paging (page_tables v') \<and> depth (page_tables v') = depth (page_tables v) \<and>
    (\<forall>addr. addr div PAGE_SIZE < page_count (page_tables v) \<longrightarrow> translate (page_tables v') addr =
       (if vma_start w \<le> addr \<and> addr < vma_end w
        then Some ((case vm_space w of Kernel \<Rightarrow> addr div PAGE_SIZE
          | User \<Rightarrow> fr_start frames + (addr div PAGE_SIZE - pg_start (vm_range w))) * PAGE_SIZE + addr mod PAGE_SIZE)
        else translate (page_tables v) addr))"
proof -
  let ?flags = "check_and_enforce_consistency w flags OR PRESENT"
  from run wf(2) have len: "fr_start frames \<le> fr_end frames"
      "fr_end frames - fr_start frames = pg_end (vm_range w) - pg_start (vm_range w)"
    and mp: "map_physical alloc (page_tables v) frames (vm_range w) (vm_space w) ?flags s = Inr (page_tables v', s')"
    by (auto simp: map_pfr_for_vma_def map_pfr_for_partial_vma_def and_then_Inr_iff Let_def
        frames_len_def pages_len_def split: if_splits)
  from map_physical_root [OF wf len or_present_nonzero, of alloc "vm_space w" "check_and_enforce_consistency w flags" s] mp
  have p: "wf_paging (page_tables v')" "depth (page_tables v') = depth (page_tables v)"
    and lk: "\<forall>page < page_count (page_tables v). lookup (depth (page_tables v)) (root_table (page_tables v')) page =
      (if in_range (vm_range w) page
       then Some (case vm_space w of Kernel \<Rightarrow> page | User \<Rightarrow> fr_start frames + (page - pg_start (vm_range w)), ?flags)
       else lookup (depth (page_tables v)) (root_table (page_tables v)) page)" by auto
  show ?thesis using len(2) p lk
    by (auto simp: translate_page [OF p(1)] translate_page [OF wf(1)] range_addr)
qed

text \<open>An x86-64 machine, for the witnesses: 48 virtual and 52 physical address bits.\<close>

definition amd64 :: machine where
  "amd64 = \<lparr>canonical = (\<lambda>a. a < 2 ^ 47 \<or> 2 ^ 64 - 2 ^ 47 \<le> a \<and> a < 2 ^ 64),
     phys_ok = (\<lambda>a. a < 2 ^ 52), linear_address_bits = 48\<rparr>"

lemma amd64_canonical: "\<forall>a < 2 ^ 47. canonical amd64 a"
  by (simp add: amd64_def)

definition empty_space :: virtual_address_space where
  "empty_space = \<lparr>virtual_memory_areas = [], page_tables = empty_paging,
     first_usable_user_addr = USER_SPACE_START, last_usable_user_addr = 2 ^ 47 - 1\<rparr>"

lemma empty_space_new: "vas_new amd64 empty_paging = Inr empty_space"
  by (simp add: vas_new_def virt_new_def amd64_def empty_space_def last_usable_virtual_address_def USER_SPACE_START_def)

lemma empty_space_wf: "wf_vas empty_space"
  using vas_new_wf [OF empty_space_new] by (simp add: amd64_def)

text \<open>The address space after a heap of two pages was allocated.\<close>

definition heap_area :: virtual_memory_area where
  "heap_area = area_at User Heap [] (2 ^ 28) 2"

definition heap_space :: virtual_address_space where
  "heap_space = empty_space\<lparr>virtual_memory_areas := [(USER_SPACE_START, heap_area)]\<rparr>"

lemma heap_space_alloc: "alloc_vma amd64 empty_space None 2 User Heap [] = Inr (Some heap_area, heap_space)"
  by (simp add: alloc_vma_def vmm_alloc_def search_range_def empty_space_def bt_range_def vaddr_add_def
      virt_new_def amd64_def USER_SPACE_START_def PAGE_SIZE_def alloc_at_def page_from_start_def
      in_space_bounds_def heap_area_def heap_space_def Let_def)

lemma heap_space_reach: "vas_reach bump_alloc (\<lambda>s r. Inr s) amd64 heap_space"
  by (rule vas_reach.alloc_vma [OF vas_reach.new [OF empty_space_new] heap_space_alloc])

lemma heap_space_wf: "wf_vas heap_space"
  using vas_reach_wf [OF heap_space_reach _ amd64_canonical] by (simp add: amd64_def)

section \<open>Properties\<close>

text \<open>
  C16. Every address space that can be built keeps its areas in order: any two different areas
  are disjoint, no area is empty, each is found under its start address, user areas lie in
  user space and kernel areas below it.
\<close>

theorem vas_invariant:
  assumes "vas_reach alloc free M v" and "linear_address_bits M \<le> 48" and "\<forall>a < 2 ^ 47. canonical M a"
  shows "bt_wf (virtual_memory_areas v) \<and>
    (\<forall>(k, w) \<in> set (virtual_memory_areas v). k = vma_start w \<and> vma_start w < vma_end w \<and>
       in_space_bounds v (vm_space w) (vma_start w) (vma_end w) \<and>
       (\<forall>(k', w') \<in> set (virtual_memory_areas v). k \<noteq> k' \<longrightarrow> \<not> overlaps_with w w'))"
proof -
  let ?m = "virtual_memory_areas v"
  have wf: "wf_vas v" by (rule vas_reach_wf [OF assms])
  then have ok: "areas_ok 0 ?m" by (simp add: wf_vas_def)
  have "\<not> overlaps_with w w'" if "(k, w) \<in> set ?m" "(k', w') \<in> set ?m" "k \<noteq> k'" for k w k' w'
    using areas_ok_disjoint [OF ok that(1,2)] areas_ok_disjoint [OF ok that(2,1)]
      areas_ok_ge [OF ok that(1)] areas_ok_ge [OF ok that(2)] that(3)
    by (cases "k < k'") (auto simp: overlaps_with_def vma_start_def vma_end_def)
  with wf areas_ok_wf [OF ok] areas_ok_ge [OF ok] show ?thesis
    by (auto simp: wf_vas_def)
qed

theorem vas_invariant_witness:
  "(USER_SPACE_START, heap_area) \<in> set (virtual_memory_areas heap_space) \<and>
   USER_SPACE_START = vma_start heap_area \<and> vma_start heap_area < vma_end heap_area"
proof -
  have "linear_address_bits amd64 \<le> 48" by (simp add: amd64_def)
  from vas_invariant [OF heap_space_reach this amd64_canonical]
  show ?thesis by (auto simp: heap_space_def)
qed

text \<open>
  C17. Allocation of an area at a given page succeeds exactly when the page range is not empty,
  lies in the bounds of its memory space and overlaps no area, although only the neighbours
  are checked; the area is then stored and nothing else changes. The only panic is an end
  address that is not canonical.
\<close>

theorem alloc_at_exact:
  assumes "wf_vas v" and "\<forall>a < 2 ^ 47. canonical M a"
  shows "alloc_at M v page n space ty tag =
    (if 0 < n \<and> in_space_bounds v space (page * PAGE_SIZE) ((page + n) * PAGE_SIZE) \<and>
        (\<forall>(k, w) \<in> set (virtual_memory_areas v). \<not> overlaps_with w (area_at space ty tag page n))
     then Inr (Some (area_at space ty tag page n), v\<lparr>virtual_memory_areas :=
            bt_insert (virtual_memory_areas v) (page * PAGE_SIZE) (area_at space ty tag page n)\<rparr>)
     else if n = 0 \<or> (page + n) * PAGE_SIZE \<ge> 2 ^ 64 \<or> canonical M ((page + n) * PAGE_SIZE)
     then Inr (None, v) else Inl (PanicMsg ''non-canonical address''))"
  using alloc_at_eq [OF assms, of page n space ty tag] unfolding room_def overlaps_bytes .

theorem alloc_at_exact_witness:
  "alloc_at amd64 heap_space (2 ^ 28 + 1) 3 User Anonymous [] = Inr (None, heap_space) \<and>
   (\<exists>w v'. alloc_at amd64 heap_space (2 ^ 28 + 2) 3 User Anonymous [] = Inr (Some w, v'))"
  unfolding alloc_at_exact [OF heap_space_wf amd64_canonical]
  by (simp add: heap_space_def heap_area_def overlaps_with_def in_space_bounds_def empty_space_def
      PAGE_SIZE_def amd64_def USER_SPACE_START_def)

text \<open>
  C18. Allocation of an area without a given page finds the lowest page where it fits, whenever
  there is one; if it returns nothing there is none.
\<close>

theorem alloc_lowest_gap:
  assumes "wf_vas v" and "\<forall>a < 2 ^ 47. canonical M a" and "0 < n"
  shows "case alloc_vma M v None n space ty tag of
      Inr (Some w, v') \<Rightarrow> \<exists>page. room v space page n \<and> (\<forall>p < page. \<not> room v space p n) \<and>
        w = area_at space ty tag page n \<and>
        virtual_memory_areas v' = bt_insert (virtual_memory_areas v) (page * PAGE_SIZE) w
    | Inr (None, v') \<Rightarrow> v' = v \<and> (\<forall>page. \<not> room v space page n)
    | Inl _ \<Rightarrow> \<forall>page. \<not> room v space page n"
  using vmm_alloc_cases [OF assms, of space ty tag] assms(3)
  by (auto simp: alloc_vma_def alloc_at_eq [OF assms(1,2)])

theorem alloc_lowest_gap_witness:
  "\<exists>w v'. alloc_vma amd64 heap_space None 5 User Anonymous [] = Inr (Some w, v') \<and>
     room heap_space User (2 ^ 28 + 2) 5 \<and> pg_start (vm_range w) \<le> 2 ^ 28 + 2"
proof -
  have room: "room heap_space User (2 ^ 28 + 2) 5"
    by (simp add: room_def heap_space_def heap_area_def overlaps_with_def in_space_bounds_def empty_space_def
        PAGE_SIZE_def USER_SPACE_START_def)
  have "case alloc_vma amd64 heap_space None 5 User Anonymous [] of
      Inr (Some w, v') \<Rightarrow> \<exists>page. room heap_space User page 5 \<and> (\<forall>p < page. \<not> room heap_space User p 5) \<and>
        w = area_at User Anonymous [] page 5 \<and>
        virtual_memory_areas v' = bt_insert (virtual_memory_areas heap_space) (page * PAGE_SIZE) w
    | Inr (None, v') \<Rightarrow> v' = heap_space \<and> (\<forall>page. \<not> room heap_space User page 5)
    | Inl _ \<Rightarrow> \<forall>page. \<not> room heap_space User page 5"
    by (rule alloc_lowest_gap [OF heap_space_wf amd64_canonical]) simp
  with room show ?thesis by (auto split: sum.splits option.splits simp: not_less [symmetric])
qed

text \<open>
  Looking up an address returns the one area that contains it, and nothing exactly when no
  area does.
\<close>

theorem address_lookup:
  assumes "wf_vas v" and "canonical M a"
  shows "is_address_within_vma M v a = Inr (Some w) \<longleftrightarrow>
    (\<exists>k. (k, w) \<in> set (virtual_memory_areas v)) \<and> vma_start w \<le> a \<and> a < vma_end w"
proof -
  let ?m = "virtual_memory_areas v"
  have ok: "areas_ok 0 ?m" using assms(1) by (simp add: wf_vas_def)
  note wf = areas_ok_wf [OF ok]
  have eq: "is_address_within_vma M v a = Inr (Some w) \<longleftrightarrow>
      (\<exists>k. bt_last_upto ?m a = Some (k, w) \<and> a < vma_end w)"
    by (auto simp: is_address_within_vma_def virt_new_def assms(2) split: option.splits)
  show ?thesis unfolding eq
  proof
    assume "\<exists>k. bt_last_upto ?m a = Some (k, w) \<and> a < vma_end w"
    then obtain k where k: "bt_last_upto ?m a = Some (k, w)" "a < vma_end w" by blast
    with bt_last_upto_Some [OF k(1)] areas_ok_ge [OF ok, of k w]
    show "(\<exists>k. (k, w) \<in> set ?m) \<and> vma_start w \<le> a \<and> a < vma_end w" by auto
  next
    assume r: "(\<exists>k. (k, w) \<in> set ?m) \<and> vma_start w \<le> a \<and> a < vma_end w"
    then obtain k where k: "(k, w) \<in> set ?m" by blast
    with areas_ok_ge [OF ok k] r have ka: "k \<le> a" by simp
    obtain k' w' where p: "bt_last_upto ?m a = Some (k', w')" "(k', w') \<in> set ?m" "k \<le> k'" "k' \<le> a"
      by (rule bt_last_upto_exists [OF wf k ka])
    have "k = k'" using areas_ok_disjoint [OF ok k p(2)] p(3,4) r by (cases "k < k'") auto
    with bt_wf_unique [OF wf k] p(1,2) r show "\<exists>k. bt_last_upto ?m a = Some (k, w) \<and> a < vma_end w" by blast
  qed
qed

theorem address_lookup_witness:
  "is_address_within_vma amd64 heap_space (USER_SPACE_START + 5000) = Inr (Some heap_area)"
proof -
  have "canonical amd64 (USER_SPACE_START + 5000)" by (simp add: amd64_def USER_SPACE_START_def)
  from address_lookup [OF heap_space_wf this, of heap_area] show ?thesis
    by (simp add: heap_space_def heap_area_def vma_start_def vma_end_def PAGE_SIZE_def USER_SPACE_START_def)
qed

text \<open>
  C19. Allocating a user area with its memory makes exactly its pages present: afterwards the
  area is part of the address space, every address in it translates to a physical address,
  and every other address below $2^{48}$ translates as before.
\<close>

theorem user_alloc_maps:
  assumes "wf_vas v" and "wf_paging (page_tables v)" and "depth (page_tables v) = 4"
    and "\<forall>a < 2 ^ 47. canonical M a"
    and "user_alloc_map_full alloc M v sp n ty tag s = Inr (Some w, v', s')"
  shows "wf_vas v' \<and> (\<exists>k. (k, w) \<in> set (virtual_memory_areas v')) \<and> wf_paging (page_tables v') \<and>
    (\<forall>addr < 2 ^ 48. if vma_start w \<le> addr \<and> addr < vma_end w
       then \<exists>pa. translate (page_tables v') addr = Some pa
       else translate (page_tables v') addr = translate (page_tables v) addr)"
  using user_full_maps [OF assms] user_full_wf [OF assms(5,1,4)] by simp

theorem user_alloc_maps_witness:
  "\<exists>v' s'. user_alloc_map_full bump_alloc amd64 empty_space None 2 Heap [] 20 = Inr (Some heap_area, v', s') \<and>
     (\<exists>pa. translate (page_tables v') (USER_SPACE_START + 4097) = Some pa)"
proof -
  have p: "page_tables empty_space = empty_paging" "page_tables heap_space = empty_paging" "depth empty_paging = 4"
    by (simp_all add: empty_space_def heap_space_def empty_paging_def)
  have "\<nexists>e s'. bump_alloc s' 1 = Inl e" by (simp add: bump_alloc_def)
  moreover have "pg_start (vm_range heap_area) < pg_end (vm_range heap_area)"
    "pg_end (vm_range heap_area) \<le> page_count empty_paging"
    by (simp_all add: heap_area_def page_count_def empty_paging_def)
  ultimately obtain p' s' where "map_pages bump_alloc empty_paging (vm_range heap_area) User user_flags 20 = Inr (p', s')"
    using map_pages_root [OF empty_paging_wf, of "vm_range heap_area" user_flags bump_alloc User 20] by auto
  then have r: "user_alloc_map_full bump_alloc amd64 empty_space None 2 Heap [] 20 =
      Inr (Some heap_area, heap_space\<lparr>page_tables := p'\<rparr>, s')"
    by (simp add: user_alloc_map_full_def heap_space_alloc p)
  from user_alloc_maps [OF empty_space_wf _ _ amd64_canonical r]
  have "\<forall>addr < 2 ^ 48. vma_start heap_area \<le> addr \<and> addr < vma_end heap_area \<longrightarrow> (\<exists>pa. translate p' addr = Some pa)"
    by (auto simp: p empty_paging_wf)
  then have "\<exists>pa. translate p' (USER_SPACE_START + 4097) = Some pa"
    by (auto simp: USER_SPACE_START_def vma_start_def vma_end_def heap_area_def PAGE_SIZE_def)
  with r show ?thesis by auto
qed

text \<open>
  Device memory is mapped to itself: when \<open>kernel_map_devm_identity\<close> returns, the page range
  it returns contains the given addresses and exceeds them by less than a page, every
  address in the range translates to itself, and no other translation changed.
\<close>

theorem devm_identity:
  assumes "wf_vas v" and "wf_paging (page_tables v)" and "depth (page_tables v) = 4"
    and "\<forall>a < 2 ^ 47. canonical M a"
    and "kernel_map_devm_identity alloc M v a b flags ty tag s = Inr (pr, v', s')"
  shows "pg_start pr * PAGE_SIZE = a \<and> b \<le> pg_end pr * PAGE_SIZE \<and> pg_end pr * PAGE_SIZE < b + PAGE_SIZE \<and>
    (\<forall>addr < 2 ^ 48. translate (page_tables v') addr =
       (if a \<le> addr \<and> addr < pg_end pr * PAGE_SIZE then Some addr else translate (page_tables v) addr))"
proof (rule kernel_map_devmE [OF assms(5)])
  fix start_frame end_aligned end_frame vma v1
  assume lt: "a < b" and al: "align_up b = Inr end_aligned"
    and fr: "frame_from_u64 M a = Inr start_frame" "frame_from_u64 M end_aligned = Inr end_frame"
    and pg: "and_then (page_from_u64 M a) expect = Inr (pg_start pr)" "and_then (page_from_u64 M end_aligned) expect = Inr (pg_end pr)"
    and vma: "alloc_vma M v (Some (pg_start pr)) (range_len pr) Kernel ty tag = Inr (Some vma, v1)"
    and run: "map_pfr_for_vma alloc v1 vma \<lparr>fr_start = start_frame, fr_end = end_frame\<rparr> flags s = Inr (Inr (), v', s')"
  from pg [THEN page_from_u64_expect] have ab: "a = pg_start pr * PAGE_SIZE" "end_aligned = pg_end pr * PAGE_SIZE" .
  have "b + PAGE_SIZE < 2 ^ 64" using al by (auto simp: align_up_def split: if_splits)
  with align_up_eq [of b] al have round: "b \<le> end_aligned" "end_aligned < b + PAGE_SIZE" by auto
  then have "pg_start pr * PAGE_SIZE < pg_end pr * PAGE_SIZE" using lt ab by linarith
  then have less: "pg_start pr < pg_end pr" by simp
  then have len: "range_len pr = pg_end pr - pg_start pr" by (simp add: range_len_def)
  obtain w: "vma = area_at Kernel ty tag (pg_start pr) (range_len pr)"
    and room: "room v Kernel (pg_start pr) (range_len pr)" and v1: "page_tables v1 = page_tables v"
    by (rule alloc_vma_cases [OF assms(1,4) vma]) auto
  have rng: "vm_range vma = \<lparr>pg_start = pg_start pr, pg_end = pg_end pr\<rparr>" using w less by (simp add: len)
  have sp: "vm_space vma = Kernel" by (simp add: w)
  have se: "vma_start vma = a" "vma_end vma = pg_end pr * PAGE_SIZE" by (simp_all add: vma_start_def vma_end_def rng ab)
  have "pg_end (vm_range vma) \<le> page_count (page_tables v1)"
    using room_pages(2) [OF assms(1) room assms(3)] less by (simp add: rng len v1)
  from map_pfr_maps [OF _ _ this run, unfolded se sp v1 memory_space.case] assms(2) less
  have "\<forall>addr. addr div PAGE_SIZE < page_count (page_tables v) \<longrightarrow> translate (page_tables v') addr =
      (if a \<le> addr \<and> addr < pg_end pr * PAGE_SIZE
       then Some (addr div PAGE_SIZE * PAGE_SIZE + addr mod PAGE_SIZE) else translate (page_tables v) addr)"
    by (simp add: rng)
  with round ab low_page [OF assms(3)] show ?thesis by simp
qed

definition apic_area :: virtual_memory_area where
  "apic_area = area_at Kernel DeviceMemory [] 0xFEE00 1"

theorem devm_identity_witness:
  "\<exists>pr v' s'. kernel_map_devm_identity bump_alloc amd64 empty_space 0xFEE00000 0xFEE00400 PRESENT DeviceMemory [] 20
       = Inr (pr, v', s') \<and> translate (page_tables v') 0xFEE00020 = Some 0xFEE00020"
proof -
  let ?pr = "\<lparr>pg_start = 0xFEE00, pg_end = 0xFEE01\<rparr>" and ?fr = "\<lparr>fr_start = 0xFEE00, fr_end = 0xFEE01\<rparr>"
  let ?v = "empty_space\<lparr>virtual_memory_areas := [(0xFEE00000, apic_area)]\<rparr>"
  have p: "page_tables empty_space = empty_paging" "depth empty_paging = 4"
    by (simp_all add: empty_space_def empty_paging_def)
  have "\<nexists>e s'. bump_alloc s' 1 = Inl e" by (simp add: bump_alloc_def)
  moreover have rng: "vm_range apic_area = ?pr" "vm_space apic_area = Kernel" by (simp_all add: apic_area_def)
  moreover have "page_count empty_paging = 512 ^ 4" by (simp add: page_count_def p)
  ultimately obtain p' s' where mp: "map_physical bump_alloc empty_paging ?fr ?pr Kernel
      (check_and_enforce_consistency apic_area PRESENT OR PRESENT) 20 = Inr (p', s')"
    using map_physical_root [OF empty_paging_wf, of ?pr ?fr "check_and_enforce_consistency apic_area PRESENT OR PRESENT"
        bump_alloc Kernel 20] by auto
  have vma: "alloc_vma amd64 empty_space (Some 0xFEE00) 1 Kernel DeviceMemory [] = Inr (Some apic_area, ?v)"
    by (simp add: alloc_vma_def alloc_at_def virt_new_def amd64_def page_from_start_def in_space_bounds_def
        empty_space_def PAGE_SIZE_def USER_SPACE_START_def Let_def apic_area_def)
  have r: "kernel_map_devm_identity bump_alloc amd64 empty_space 0xFEE00000 0xFEE00400 PRESENT DeviceMemory [] 20
      = Inr (?pr, ?v\<lparr>page_tables := p'\<rparr>, s')"
    using vma mp by (simp add: kernel_map_devm_identity_def frame_from_u64_def phys_new_def amd64_def align_up_def
        PAGE_SIZE_def page_from_u64_def virt_new_def page_from_start_def expect_def range_len_def Let_def
        map_pfr_for_vma_def map_pfr_for_partial_vma_def rng frames_len_def pages_len_def p)
  from devm_identity [OF empty_space_wf _ _ amd64_canonical r]
  have "translate p' 0xFEE00020 = Some 0xFEE00020"
    by (simp add: p empty_paging_wf PAGE_SIZE_def)
  with r show ?thesis by auto
qed

text \<open>
  A request for more memory than the address space has does not fail but panics: the end of
  the candidate range is computed with an addition that rejects addresses that are not
  canonical, before it is compared with the end of the search range.
\<close>

lemma huge_request_panics:
  "alloc_vma amd64 empty_space None (2 ^ 35) User Anonymous [] = Inl (PanicMsg ''non-canonical address'')"
  by (simp add: alloc_vma_def vmm_alloc_def search_range_def empty_space_def bt_range_def vaddr_add_def
      virt_new_def amd64_def USER_SPACE_START_def PAGE_SIZE_def)

end
