(* ===== verification/UserCopy.thy ===== *)
theory UserCopy
  imports VmmProps
begin

text \<open>
  Copying between the kernel and user memory and into another address space
  (\<open>access_ok\<close>, \<open>copy_bytes_to_user\<close>, \<open>copy_bytes_from_user\<close> and \<open>copy_to_addr_space\<close> of
  \<open>memory/vmm.rs\<close>). Memory is a function from physical addresses to bytes; user addresses go
  through the page tables, and an access that they do not map is a page fault.
\<close>

type_synonym memory = "nat \<Rightarrow> byte"

section \<open>User memory\<close>

datatype user_copy_error = NoUserAccess | PageNotMapped

definition access_ok :: "virtual_address_space \<Rightarrow> nat \<Rightarrow> nat \<Rightarrow> bool" where
  "access_ok v addr len =
     (if len = 0 then False
      else if addr + (len - 1) < 2 ^ 64
      then first_usable_user_addr v \<le> addr \<and> addr + (len - 1) \<le> last_usable_user_addr v
      else False)"

definition ensure_user_page_is_mapped :: "virtual_address_space \<Rightarrow> nat \<Rightarrow> bool" where
  "ensure_user_page_is_mapped v page \<longleftrightarrow> translate (page_tables v) (page * PAGE_SIZE) \<noteq> None"

text \<open>The checks both copy functions start with.\<close>

definition check_user_range :: "machine \<Rightarrow> virtual_address_space \<Rightarrow> nat \<Rightarrow> nat \<Rightarrow> (user_copy_error + unit) run" where
  "check_user_range M v addr len =
     (if \<not> access_ok v addr len then Inr (Inl NoUserAccess)
      else and_then (vaddr_add M addr len) (\<lambda>past.
        and_then (vaddr_sub M past 1) (\<lambda>last_byte.
          if list_all (ensure_user_page_is_mapped v) [addr div PAGE_SIZE ..< Suc (last_byte div PAGE_SIZE)]
          then Inr (Inr ()) else Inr (Inl PageNotMapped))))"

primrec write_user :: "paging \<Rightarrow> nat \<Rightarrow> byte list \<Rightarrow> memory \<Rightarrow> memory run" where
  "write_user p dst [] mem = Inr mem"
| "write_user p dst (b # bs) mem = (case translate p dst of
       None \<Rightarrow> Inl (PanicMsg ''page fault'')
     | Some pa \<Rightarrow> write_user p (dst + 1) bs (mem(pa := b)))"

primrec read_user :: "paging \<Rightarrow> nat \<Rightarrow> nat \<Rightarrow> memory \<Rightarrow> byte list run" where
  "read_user p src 0 mem = Inr []"
| "read_user p src (Suc n) mem = (case translate p src of
       None \<Rightarrow> Inl (PanicMsg ''page fault'')
     | Some pa \<Rightarrow> and_then (read_user p (src + 1) n mem) (\<lambda>bs. Inr (mem pa # bs)))"

definition copy_bytes_to_user ::
    "machine \<Rightarrow> virtual_address_space \<Rightarrow> nat \<Rightarrow> byte list \<Rightarrow> memory \<Rightarrow> ((user_copy_error + unit) \<times> memory) run" where
  "copy_bytes_to_user M v dst src mem =
     and_then (check_user_range M v dst (length src)) (\<lambda>r. case r of
         Inl e \<Rightarrow> Inr (Inl e, mem)
       | Inr _ \<Rightarrow> and_then (write_user (page_tables v) dst src mem) (\<lambda>mem'. Inr (Inr (), mem')))"

definition copy_bytes_from_user ::
    "machine \<Rightarrow> virtual_address_space \<Rightarrow> nat \<Rightarrow> nat \<Rightarrow> memory \<Rightarrow> (user_copy_error + byte list) run" where
  "copy_bytes_from_user M v src n mem =
     and_then (check_user_range M v src n) (\<lambda>r. case r of
         Inl e \<Rightarrow> Inr (Inl e)
       | Inr _ \<Rightarrow> and_then (read_user (page_tables v) src n mem) (\<lambda>bs. Inr (Inr bs)))"

section \<open>Copying into another address space\<close>

text \<open>
  The source is given by the physical address of its bytes, \<open>copy_from\<close> moves a block as a
  whole and \<open>write_bytes\<close> fills one.
\<close>

definition copy_from :: "memory \<Rightarrow> nat \<Rightarrow> (nat \<Rightarrow> nat) \<Rightarrow> nat \<Rightarrow> memory" where
  "copy_from mem dest source n = (\<lambda>x. if dest \<le> x \<and> x < dest + n then mem (source (x - dest)) else mem x)"

definition write_bytes :: "memory \<Rightarrow> nat \<Rightarrow> byte \<Rightarrow> nat \<Rightarrow> memory" where
  "write_bytes mem dest b n = (\<lambda>x. if dest \<le> x \<and> x < dest + n then b else mem x)"

primrec copy_pages ::
    "machine \<Rightarrow> virtual_address_space \<Rightarrow> nat \<Rightarrow> (nat \<Rightarrow> nat) \<Rightarrow> nat \<Rightarrow> nat \<Rightarrow> nat \<times> nat \<times> memory \<Rightarrow>
     (nat \<times> nat \<times> memory) run" where
  "copy_pages M dest_space dest_start src nbytes 0 st = Inr st"
| "copy_pages M dest_space dest_start src nbytes (Suc i) st = (case st of (offset, _, mem) \<Rightarrow>
     and_then (and_then (get_phys M dest_space (dest_start + offset)) expect) (\<lambda>dest.
       let bytes_to_copy = (if nbytes - offset < PAGE_SIZE then nbytes - offset else PAGE_SIZE);
           mem' = copy_from mem dest (\<lambda>j. src (offset + j)) bytes_to_copy
       in copy_pages M dest_space dest_start src nbytes i (offset + bytes_to_copy, dest, mem')))"

definition copy_to_addr_space ::
    "machine \<Rightarrow> (nat \<Rightarrow> nat) \<Rightarrow> virtual_address_space \<Rightarrow> virtual_memory_area \<Rightarrow> nat \<Rightarrow> bool \<Rightarrow> memory \<Rightarrow> memory run" where
  "copy_to_addr_space M src dest_space dest_vma nbytes fill_up_with_zeroes mem =
     (let pages_to_copy = (if nbytes mod PAGE_SIZE = 0 then nbytes div PAGE_SIZE else nbytes div PAGE_SIZE + 1);
          vma_size = range_len (vm_range dest_vma) * PAGE_SIZE
      in if vma_size < nbytes then Inl (PanicMsg ''Destination VMA is too small to hold the data to copy!'')
         else and_then (and_then (get_phys M dest_space (vma_start dest_vma)) expect) (\<lambda>dest.
           and_then (copy_pages M dest_space (vma_start dest_vma) src nbytes pages_to_copy (0, dest, mem))
             (\<lambda>(offset, dest', mem').
               Inr (if fill_up_with_zeroes then
                      let tail = nbytes mod PAGE_SIZE in
                      if tail \<noteq> 0 then write_bytes mem' (dest' + tail) 0 (PAGE_SIZE - tail) else mem'
                    else mem'))))"

section \<open>Checked copies\<close>

lemma page_mapped_addr:
  assumes "wf_paging p" and "translate p (addr div PAGE_SIZE * PAGE_SIZE) = Some pa"
  shows "translate p addr = Some (pa + addr mod PAGE_SIZE)"
  using assms(2) by (auto simp: translate_page [OF assms(1)])

lemma page_unmapped_addr:
  assumes "wf_paging p" and "translate p (addr div PAGE_SIZE * PAGE_SIZE) = None"
  shows "translate p addr = None"
  using assms(2) by (auto simp: translate_page [OF assms(1)])

text \<open>Every address of a range is mapped.\<close>

definition mapped :: "paging \<Rightarrow> nat \<Rightarrow> nat \<Rightarrow> bool" where
  "mapped p a n \<longleftrightarrow> (\<forall>i < n. translate p (a + i) \<noteq> None)"

lemma check_user_range_eq:
  assumes wf: "wf_paging (page_tables v)" and canon: "\<forall>a < 2 ^ 47. canonical M a" and last: "addr + len < 2 ^ 47"
  shows "check_user_range M v addr len =
    Inr (if len = 0 \<or> addr < first_usable_user_addr v \<or> last_usable_user_addr v < addr + (len - 1) then Inl NoUserAccess
      else if mapped (page_tables v) addr len then Inr () else Inl PageNotMapped)"
proof (cases "access_ok v addr len")
  case False
  then show ?thesis using last by (auto simp: check_user_range_def access_ok_def split: if_splits)
next
  case True
  then have len: "0 < len" by (auto simp: access_ok_def split: if_splits)
  let ?l = "addr + (len - 1)"
  have adds: "vaddr_add M addr len = Inr (addr + len)" "vaddr_sub M (addr + len) 1 = Inr ?l"
    using last len canon by (auto simp: vaddr_add_def vaddr_sub_def virt_new_def)
  have iff: "list_all (ensure_user_page_is_mapped v) [addr div PAGE_SIZE ..< Suc (?l div PAGE_SIZE)] \<longleftrightarrow>
      mapped (page_tables v) addr len" (is "?A \<longleftrightarrow> ?B")
    unfolding mapped_def
  proof
    assume A: ?A
    show "\<forall>i < len. translate (page_tables v) (addr + i) \<noteq> None"
    proof (intro allI impI)
      fix i assume "i < len"
      then have "addr + i \<le> ?l" by linarith
      then have "(addr + i) div PAGE_SIZE \<le> ?l div PAGE_SIZE" "addr div PAGE_SIZE \<le> (addr + i) div PAGE_SIZE"
        by (auto intro: div_le_mono)
      then have "(addr + i) div PAGE_SIZE \<in> set [addr div PAGE_SIZE ..< Suc (?l div PAGE_SIZE)]"
        unfolding set_upt atLeastLessThan_iff less_Suc_eq_le by blast
      with A have "ensure_user_page_is_mapped v ((addr + i) div PAGE_SIZE)" by (auto simp: list_all_iff)
      then show "translate (page_tables v) (addr + i) \<noteq> None"
        using page_mapped_addr [OF wf, of "addr + i"] by (auto simp: ensure_user_page_is_mapped_def)
    qed
  next
    assume B: "\<forall>i < len. translate (page_tables v) (addr + i) \<noteq> None"
    have "ensure_user_page_is_mapped v page" if p: "addr div PAGE_SIZE \<le> page" "page \<le> ?l div PAGE_SIZE" for page
    proof -
      define a where "a = max addr (page * PAGE_SIZE)"
      have "page * PAGE_SIZE \<le> ?l" using p(2) by (simp add: less_eq_div_iff_mult_less_eq)
      then have a: "addr \<le> a" "a < addr + len" using len by (auto simp: a_def)
      have "addr div PAGE_SIZE < page + 1" using p(1) by simp
      then have "addr < (page + 1) * PAGE_SIZE" unfolding div_less_iff_less_mult [OF PAGE_SIZE_pos] .
      then have "a div PAGE_SIZE = page" by (intro div_nat_eqI) (auto simp: a_def algebra_simps)
      moreover have "translate (page_tables v) a \<noteq> None" using B [rule_format, of "a - addr"] a by simp
      ultimately show ?thesis unfolding ensure_user_page_is_mapped_def
        using page_unmapped_addr [OF wf, of a] by metis
    qed
    then show ?A by (auto simp: list_all_iff)
  qed
  show ?thesis using True len last unfolding check_user_range_def adds and_then.simps iff
    by (auto simp: access_ok_def)
qed

section \<open>Reading and writing through the page tables\<close>

definition distinct_targets :: "paging \<Rightarrow> nat \<Rightarrow> nat \<Rightarrow> bool" where
  "distinct_targets p a n \<longleftrightarrow> inj_on (translate p) {a..<a + n}"

lemma write_user_ok:
  "mapped p dst (length bs) \<Longrightarrow> \<exists>mem'. write_user p dst bs mem = Inr mem'"
proof (induction bs arbitrary: dst mem)
  case (Cons b bs)
  from Cons.prems obtain pa where pa: "translate p dst = Some pa" by (auto simp: mapped_def dest: spec [of _ 0])
  have "mapped p (dst + 1) (length bs)"
    using Cons.prems by (auto simp: mapped_def dest: spec [of _ "Suc _"])
  from Cons.IH [OF this] pa show ?case by simp
qed simp

lemma write_user_mem:
  "write_user p dst bs mem = Inr mem' \<Longrightarrow> distinct_targets p dst (length bs) \<Longrightarrow>
     (\<forall>i < length bs. \<exists>pa. translate p (dst + i) = Some pa \<and> mem' pa = bs ! i) \<and>
     (\<forall>x. (\<forall>i < length bs. translate p (dst + i) \<noteq> Some x) \<longrightarrow> mem' x = mem x)"
proof (induction bs arbitrary: dst mem)
  case (Cons b bs)
  from Cons.prems obtain pa where pa: "translate p dst = Some pa"
    and w: "write_user p (dst + 1) bs (mem(pa := b)) = Inr mem'" by (auto split: option.splits)
  have inj: "inj_on (translate p) {dst..<dst + Suc (length bs)}" using Cons.prems(2) by (simp add: distinct_targets_def)
  then have "distinct_targets p (dst + 1) (length bs)"
    unfolding distinct_targets_def by (rule inj_on_subset) auto
  note IH = Cons.IH [OF w this]
  have fresh: "translate p (dst + 1 + i) \<noteq> Some pa" if "i < length bs" for i
  proof
    assume "translate p (dst + 1 + i) = Some pa"
    with pa inj_onD [OF inj, of "dst + 1 + i" dst] that show False by simp
  qed
  have at_pa: "mem' pa = b" using IH fresh by simp
  show ?case
  proof (intro conjI allI impI)
    fix i assume "i < length (b # bs)"
    then show "\<exists>pa. translate p (dst + i) = Some pa \<and> mem' pa = (b # bs) ! i"
      using pa at_pa IH by (cases i) auto
  next
    fix x assume *: "\<forall>i < length (b # bs). translate p (dst + i) \<noteq> Some x"
    then have "pa \<noteq> x" using pa by (auto dest: spec [of _ 0])
    moreover have "\<forall>i < length bs. translate p (dst + 1 + i) \<noteq> Some x"
      using * by (auto dest: spec [of _ "Suc _"])
    ultimately show "mem' x = mem x" using IH by simp
  qed
qed simp

lemma read_user_eq:
  "\<forall>i < length bs. \<exists>pa. translate p (src + i) = Some pa \<and> mem pa = bs ! i \<Longrightarrow>
     read_user p src (length bs) mem = Inr bs"
proof (induction bs arbitrary: src)
  case (Cons b bs)
  from Cons.prems obtain pa where "translate p src = Some pa" "mem pa = b" by (auto dest: spec [of _ 0])
  moreover have "\<forall>i < length bs. \<exists>pa. translate p (src + 1 + i) = Some pa \<and> mem pa = bs ! i"
    using Cons.prems by (auto dest: spec [of _ "Suc _"])
  from Cons.IH [OF this] have "read_user p (src + 1) (length bs) mem = Inr bs" .
  ultimately show ?case by simp
qed simp

section \<open>Copying page by page\<close>

text \<open>One block of a page: byte \<open>i\<close> of the data goes to offset \<open>i mod PAGE_SIZE\<close> of its page.\<close>

lemma copy_block:
  assumes "n \<le> PAGE_SIZE"
  shows "k * PAGE_SIZE \<le> i \<Longrightarrow> i < k * PAGE_SIZE + n \<Longrightarrow>
      copy_from m (f * PAGE_SIZE) (\<lambda>j. src (k * PAGE_SIZE + j)) n (f * PAGE_SIZE + i mod PAGE_SIZE) = m (src i) \<and> i div PAGE_SIZE = k"
    and "x div PAGE_SIZE \<noteq> f \<Longrightarrow> copy_from m (f * PAGE_SIZE) (\<lambda>j. src (k * PAGE_SIZE + j)) n x = m x"
    and "(\<forall>i. k * PAGE_SIZE \<le> i \<and> i < k * PAGE_SIZE + n \<longrightarrow> x \<noteq> f * PAGE_SIZE + i mod PAGE_SIZE) \<Longrightarrow>
      copy_from m (f * PAGE_SIZE) (\<lambda>j. src (k * PAGE_SIZE + j)) n x = m x"
proof -
  assume i: "k * PAGE_SIZE \<le> i" "i < k * PAGE_SIZE + n"
  have k: "i div PAGE_SIZE = k" using i assms by (intro div_nat_eqI) (auto simp: algebra_simps)
  then have "k * PAGE_SIZE + i mod PAGE_SIZE = i" using div_mult_mod_eq [of i PAGE_SIZE] by simp
  with i k show "copy_from m (f * PAGE_SIZE) (\<lambda>j. src (k * PAGE_SIZE + j)) n (f * PAGE_SIZE + i mod PAGE_SIZE) = m (src i) \<and>
      i div PAGE_SIZE = k" by (auto simp: copy_from_def)
next
  assume "x div PAGE_SIZE \<noteq> f"
  moreover have "x div PAGE_SIZE = f" if "f * PAGE_SIZE \<le> x" "x < f * PAGE_SIZE + n"
    using that assms by (intro div_nat_eqI) (auto simp: algebra_simps)
  ultimately show "copy_from m (f * PAGE_SIZE) (\<lambda>j. src (k * PAGE_SIZE + j)) n x = m x" by (auto simp: copy_from_def)
next
  assume *: "\<forall>i. k * PAGE_SIZE \<le> i \<and> i < k * PAGE_SIZE + n \<longrightarrow> x \<noteq> f * PAGE_SIZE + i mod PAGE_SIZE"
  have False if x: "f * PAGE_SIZE \<le> x" "x < f * PAGE_SIZE + n"
  proof -
    obtain d where d: "x = f * PAGE_SIZE + d" "d < n" using x by (metis le_Suc_ex nat_add_left_cancel_less)
    with * [rule_format, of "k * PAGE_SIZE + d"] assms show False by simp
  qed
  then show "copy_from m (f * PAGE_SIZE) (\<lambda>j. src (k * PAGE_SIZE + j)) n x = m x" by (auto simp: copy_from_def)
qed

definition placed :: "(nat \<Rightarrow> nat) \<Rightarrow> nat \<Rightarrow> nat" where
  "placed D i = D (i div PAGE_SIZE) * PAGE_SIZE + i mod PAGE_SIZE"

lemma placed_div [simp]: "placed D i div PAGE_SIZE = D (i div PAGE_SIZE)"
  by (simp add: placed_def)

text \<open>\<open>copied D src a b m m'\<close>: the bytes from \<open>a\<close> to \<open>b\<close> are copied, everything else is unchanged.\<close>

definition copied :: "(nat \<Rightarrow> nat) \<Rightarrow> (nat \<Rightarrow> nat) \<Rightarrow> nat \<Rightarrow> nat \<Rightarrow> memory \<Rightarrow> memory \<Rightarrow> bool" where
  "copied D src a b m m' \<longleftrightarrow> (\<forall>i. a \<le> i \<and> i < b \<longrightarrow> m' (placed D i) = m (src i)) \<and>
     (\<forall>x. (\<forall>i. a \<le> i \<and> i < b \<longrightarrow> x \<noteq> placed D i) \<longrightarrow> m' x = m x)"

lemma copied_block:
  assumes "n \<le> PAGE_SIZE" and "b = k * PAGE_SIZE + n"
  shows "copied D src (k * PAGE_SIZE) b m (copy_from m (D k * PAGE_SIZE) (\<lambda>j. src (k * PAGE_SIZE + j)) n)"
proof -
  have "i div PAGE_SIZE = k" if "k * PAGE_SIZE \<le> i" "i < b" for i
    using that assms by (intro div_nat_eqI) (auto simp: algebra_simps)
  then have "placed D i = D k * PAGE_SIZE + i mod PAGE_SIZE" if "k * PAGE_SIZE \<le> i" "i < b" for i
    using that by (simp add: placed_def)
  then show ?thesis using copy_block(1,3) [OF assms(1)] assms(2) by (simp add: copied_def)
qed

lemma copied_trans:
  assumes "copied D src a b m m1" and "copied D src b c m1 m2" and "a \<le> b" "b \<le> c"
    and src: "\<And>i j. b \<le> i \<Longrightarrow> i < c \<Longrightarrow> a \<le> j \<Longrightarrow> j < b \<Longrightarrow> src i \<noteq> placed D j"
    and inj: "\<And>i j. b \<le> i \<Longrightarrow> i < c \<Longrightarrow> a \<le> j \<Longrightarrow> j < b \<Longrightarrow> placed D i \<noteq> placed D j"
  shows "copied D src a c m m2"
  unfolding copied_def
proof (intro conjI allI impI)
  fix i assume i: "a \<le> i \<and> i < c"
  show "m2 (placed D i) = m (src i)"
  proof (cases "b \<le> i")
    case True
    then have "m2 (placed D i) = m1 (src i)" using assms(2) i by (simp add: copied_def)
    also have "m1 (src i) = m (src i)" using assms(1) src [OF True] i by (simp add: copied_def)
    finally show ?thesis .
  next
    case False
    then have "m2 (placed D i) = m1 (placed D i)" using assms(2) inj i unfolding copied_def by (metis not_le)
    also have "\<dots> = m (src i)" using assms(1) i False by (simp add: copied_def)
    finally show ?thesis .
  qed
next
  fix x assume "\<forall>i. a \<le> i \<and> i < c \<longrightarrow> x \<noteq> placed D i"
  with assms(1-4) show "m2 x = m x" unfolding copied_def by (metis le_trans less_le_trans)
qed

lemma copy_pages_copied:
  assumes phys: "\<And>k. k < pages \<Longrightarrow> and_then (get_phys M dest_space (dest_start + k * PAGE_SIZE)) expect = Inr (D k * PAGE_SIZE)"
    and inj: "inj_on D {..<pages}"
    and src: "\<And>i. i < nbytes \<Longrightarrow> src i div PAGE_SIZE \<notin> D ` {..<pages}"
    and pages: "nbytes \<le> pages * PAGE_SIZE" "(pages - 1) * PAGE_SIZE < nbytes"
  shows "k < pages \<Longrightarrow> \<exists>m'. copy_pages M dest_space dest_start src nbytes (pages - k) (k * PAGE_SIZE, d, m) =
      Inr (nbytes, D (pages - 1) * PAGE_SIZE, m') \<and> copied D src (k * PAGE_SIZE) nbytes m m'"
proof (induction "pages - Suc k" arbitrary: k d m)
  case 0
  then have k: "pages = Suc k" by simp
  let ?n = "nbytes - k * PAGE_SIZE"
  have n: "?n \<le> PAGE_SIZE" "nbytes = k * PAGE_SIZE + ?n" using pages k by auto
  then have "(if ?n < PAGE_SIZE then ?n else PAGE_SIZE) = ?n" by simp
  with copied_block [OF n, of D src m] show ?case
    using phys [of k] n(2) by (auto simp: k Let_def)
next
  case (Suc q)
  let ?b = "(k + 1) * PAGE_SIZE"
  let ?m = "copy_from m (D k * PAGE_SIZE) (\<lambda>j. src (k * PAGE_SIZE + j)) PAGE_SIZE"
  from Suc have lt: "Suc k < pages" and q: "q = pages - Suc (Suc k)" by auto
  have "?b \<le> (pages - 1) * PAGE_SIZE" using lt by (intro mult_le_mono1) simp
  then have b: "?b < nbytes" using pages(2) by linarith
  then have n: "(if nbytes - k * PAGE_SIZE < PAGE_SIZE then nbytes - k * PAGE_SIZE else PAGE_SIZE) = PAGE_SIZE" by auto
  obtain m' where m': "copy_pages M dest_space dest_start src nbytes (pages - Suc k) (Suc k * PAGE_SIZE, D k * PAGE_SIZE, ?m) =
      Inr (nbytes, D (pages - 1) * PAGE_SIZE, m')" "copied D src (Suc k * PAGE_SIZE) nbytes ?m m'"
    using Suc.hyps(1) [OF q lt] by blast
  have idx: "j div PAGE_SIZE = k" if "k * PAGE_SIZE \<le> j" "j < ?b" for j
    using that by (intro div_nat_eqI) (auto simp: algebra_simps)
  have later: "i div PAGE_SIZE < pages" "k < i div PAGE_SIZE" if "?b \<le> i" "i < nbytes" for i
  proof -
    have "i < pages * PAGE_SIZE" using that pages(1) by linarith
    then show "i div PAGE_SIZE < pages" by (simp add: div_less_iff_less_mult)
    have "k + 1 \<le> i div PAGE_SIZE" using that(1) unfolding less_eq_div_iff_mult_less_eq [OF PAGE_SIZE_pos] .
    then show "k < i div PAGE_SIZE" by simp
  qed
  have "copied D src (k * PAGE_SIZE) nbytes m m'"
  proof (rule copied_trans [of D src "k * PAGE_SIZE" ?b m ?m])
    show "copied D src (k * PAGE_SIZE) ?b m ?m" by (rule copied_block) simp_all
    show "copied D src ?b nbytes ?m m'" using m'(2) by simp
    fix i j assume ij: "?b \<le> i" "i < nbytes" "k * PAGE_SIZE \<le> j" "j < ?b"
    have j: "placed D j div PAGE_SIZE = D k" using idx ij by simp
    show "src i \<noteq> placed D j" using src [OF ij(2)] j lt by auto
    have "D (i div PAGE_SIZE) \<noteq> D k" using inj_onD [OF inj, of "i div PAGE_SIZE" k] later [OF ij(1,2)] lt by auto
    then show "placed D i \<noteq> placed D j" using j placed_div [of D i] by metis
  qed (use b in simp_all)
  moreover have "copy_pages M dest_space dest_start src nbytes (pages - k) (k * PAGE_SIZE, d, m) =
      copy_pages M dest_space dest_start src nbytes (pages - Suc k) (Suc k * PAGE_SIZE, D k * PAGE_SIZE, ?m)"
  proof -
    have "pages - k = Suc (pages - Suc k)" using lt by simp
    then show ?thesis using phys [of k] lt n by (simp add: Let_def add.commute)
  qed
  ultimately show ?case using m'(1) by auto
qed

definition page_units :: "nat \<Rightarrow> nat" where
  "page_units n = (if n mod PAGE_SIZE = 0 then n div PAGE_SIZE else n div PAGE_SIZE + 1)"

lemma page_units_bounds:
  assumes "0 < n"
  shows "n \<le> page_units n * PAGE_SIZE" and "(page_units n - 1) * PAGE_SIZE < n" and "0 < page_units n"
    and "n \<le> k * PAGE_SIZE \<Longrightarrow> page_units n \<le> k"
proof -
  define q r where "q = n div PAGE_SIZE" and "r = n mod PAGE_SIZE"
  then have n: "q * PAGE_SIZE + r = n" and m: "r < PAGE_SIZE" and u: "page_units n = (if r = 0 then q else q + 1)"
    by (simp_all add: page_units_def)
  show le: "n \<le> page_units n * PAGE_SIZE" using n m by (simp add: u)
  show pos: "0 < page_units n" using assms le by (cases "page_units n") auto
  have "q * PAGE_SIZE < n \<or> r = 0 \<and> 0 < q" using n assms by auto
  then show lt: "(page_units n - 1) * PAGE_SIZE < n" using n by (auto simp: u diff_mult_distrib)
  assume "n \<le> k * PAGE_SIZE"
  with lt have "(page_units n - 1) * PAGE_SIZE < k * PAGE_SIZE" by linarith
  then show "page_units n \<le> k" using pos by simp
qed

lemma translate_placed:
  assumes wf: "wf_paging p" and start: "start = pg * PAGE_SIZE"
    and D: "\<And>k. k < n \<Longrightarrow> translate p (start + k * PAGE_SIZE) = Some (D k * PAGE_SIZE)"
    and i: "i div PAGE_SIZE < n"
  shows "translate p (start + i) = Some (placed D i)"
proof -
  have "(start + i) div PAGE_SIZE * PAGE_SIZE = start + i div PAGE_SIZE * PAGE_SIZE"
    by (simp add: start algebra_simps)
  moreover have "(start + i) mod PAGE_SIZE = i mod PAGE_SIZE" by (simp add: start)
  ultimately show ?thesis using page_mapped_addr [OF wf, of "start + i"] D [OF i] by (simp add: placed_def)
qed

lemma frame_base: "wf_paging p \<Longrightarrow> translate p (q * PAGE_SIZE) = Some a \<Longrightarrow> \<exists>f. a = f * PAGE_SIZE"
  by (auto simp: translate_page)

lemma tail_block:
  assumes "0 < n"
  shows "(\<exists>i. n \<le> i \<and> i < page_units n * PAGE_SIZE \<and> x = placed D i) \<longleftrightarrow>
    n mod PAGE_SIZE \<noteq> 0 \<and> D (page_units n - 1) * PAGE_SIZE + n mod PAGE_SIZE \<le> x \<and>
    x < D (page_units n - 1) * PAGE_SIZE + PAGE_SIZE" (is "?L \<longleftrightarrow> ?R")
proof -
  define q r where "q = n div PAGE_SIZE" and "r = n mod PAGE_SIZE"
  then have n: "n = q * PAGE_SIZE + r" and m: "r < PAGE_SIZE" and u: "page_units n = (if r = 0 then q else q + 1)"
    by (simp_all add: page_units_def)
  have pl: "placed D (q * PAGE_SIZE + d) = D q * PAGE_SIZE + d" if "d < PAGE_SIZE" for d
    using that by (simp add: placed_def)
  show ?thesis
  proof
    assume ?L
    then obtain i where i: "n \<le> i" "i < page_units n * PAGE_SIZE" "x = placed D i" by blast
    note i2 = i(2) [unfolded u]
    have r: "r \<noteq> 0" using i(1) i2 n by (cases "r = 0") auto
    obtain d where d: "i = q * PAGE_SIZE + d" using i(1) n by (metis le_Suc_ex add.assoc)
    then have "r \<le> d" "d < PAGE_SIZE" using i(1) i2 n r by auto
    with i(3) d pl r show ?R by (simp add: u r_def [symmetric])
  next
    assume R: ?R
    then have r: "r \<noteq> 0" "D q * PAGE_SIZE + r \<le> x" "x < D q * PAGE_SIZE + PAGE_SIZE"
      by (auto simp: u r_def [symmetric])
    then obtain d where d: "x = D q * PAGE_SIZE + d" "r \<le> d" "d < PAGE_SIZE"
      by (metis add.commute add_le_cancel_left le_Suc_ex le_add1 le_trans nat_add_left_cancel_less)
    then show ?L using pl [of d] r(1) unfolding u
      by (intro exI [of _ "q * PAGE_SIZE + d"]) (simp add: n)
  qed
qed

lemma placed_inj:
  assumes "inj_on D {..<n}" and "i < n * PAGE_SIZE" and "j < n * PAGE_SIZE" and "placed D i = placed D j"
  shows "i = j"
proof -
  have "D (i div PAGE_SIZE) = D (j div PAGE_SIZE)" using assms(4) placed_div by metis
  then have d: "i div PAGE_SIZE = j div PAGE_SIZE"
    using assms(1-3) by (auto simp: div_less_iff_less_mult dest: inj_onD)
  then have "i mod PAGE_SIZE = j mod PAGE_SIZE" using assms(4) by (simp add: placed_def)
  with d show ?thesis by (metis div_mult_mod_eq)
qed

text \<open>An address space whose first two pages are mapped, for the witnesses.\<close>

definition two_page_space :: virtual_address_space where
  "two_page_space = \<lparr>virtual_memory_areas = [], page_tables = two_pages,
     first_usable_user_addr = 0, last_usable_user_addr = 2 ^ 47 - 1\<rparr>"

lemma two_pages_translate: "a < 2 * PAGE_SIZE \<Longrightarrow> translate two_pages a = Some (a + 7 * PAGE_SIZE)"
proof -
  assume "a < 2 * PAGE_SIZE"
  then have "a div PAGE_SIZE < 2" by (simp add: div_less_iff_less_mult)
  note eq = div_mult_mod_eq [of a PAGE_SIZE]
  from \<open>a div PAGE_SIZE < 2\<close> consider "a div PAGE_SIZE = 0" | "a div PAGE_SIZE = 1" by linarith
  then show ?thesis
  proof cases
    case 1
    have "a mod PAGE_SIZE = a" using eq unfolding 1 by (simp only: mult_0 add_0)
    with 1 show ?thesis unfolding translate_page [OF two_pages_wf]
      by (simp add: two_pages_def page_table_index_def entry_lookup_def)
  next
    case 2
    have "PAGE_SIZE + a mod PAGE_SIZE = a" using eq unfolding 2 by (simp only: mult_1)
    with 2 show ?thesis unfolding translate_page [OF two_pages_wf]
      by (simp add: two_pages_def page_table_index_def entry_lookup_def)
  qed
qed

lemma two_pages_distinct: "a + n \<le> 2 * PAGE_SIZE \<Longrightarrow> distinct_targets two_pages a n"
  by (auto simp: distinct_targets_def inj_on_def two_pages_translate)

section \<open>Properties\<close>



text \<open>
  C21. What was copied to user memory is read back: after a successful copy, copying the same
  range from user memory returns the same bytes, and no physical byte outside the range
  changed. The pages of the range are mapped to different frames.
\<close>

theorem user_copy_roundtrip:
  assumes "wf_paging (page_tables v)" and "\<forall>a < 2 ^ 47. canonical M a" and "dst + length bs < 2 ^ 47"
    and "distinct_targets (page_tables v) dst (length bs)"
    and "copy_bytes_to_user M v dst bs mem = Inr (Inr (), mem')"
  shows "copy_bytes_from_user M v dst (length bs) mem' = Inr (Inr bs) \<and>
    (\<forall>x. (\<forall>i < length bs. translate (page_tables v) (dst + i) \<noteq> Some x) \<longrightarrow> mem' x = mem x)"
proof -
  from assms(5) have chk: "check_user_range M v dst (length bs) = Inr (Inr ())"
    and w: "write_user (page_tables v) dst bs mem = Inr mem'"
    unfolding check_user_range_eq [OF assms(1-3)]
    by (auto simp: copy_bytes_to_user_def check_user_range_eq [OF assms(1-3)] and_then_Inr_iff split: if_splits)
  note m = write_user_mem [OF w assms(4)]
  then have "read_user (page_tables v) dst (length bs) mem' = Inr bs" by (intro read_user_eq) blast
  with chk m show ?thesis by (simp add: copy_bytes_from_user_def)
qed

theorem user_copy_roundtrip_witness:
  "\<exists>mem'. copy_bytes_to_user amd64 two_page_space 4095 [1, 2, 3] (\<lambda>_. 0) = Inr (Inr (), mem') \<and>
     copy_bytes_from_user amd64 two_page_space 4095 3 mem' = Inr (Inr [1, 2, 3])"
proof -
  have p: "page_tables two_page_space = two_pages" by (simp add: two_page_space_def)
  have d: "distinct_targets (page_tables two_page_space) 4095 (length [1 :: byte, 2, 3])"
    unfolding p by (rule two_pages_distinct) (simp add: PAGE_SIZE_def)
  have "mapped two_pages 4095 3"
    unfolding mapped_def by (intro allI impI) (subst two_pages_translate; simp add: PAGE_SIZE_def)
  moreover have len: "length [1 :: byte, 2, 3] = 3" by simp
  ultimately obtain mem' where w: "write_user two_pages 4095 [1, 2, 3] (\<lambda>_. 0) = Inr mem'"
    using write_user_ok [of two_pages 4095 "[1, 2, 3]" "\<lambda>_. 0", unfolded len] by blast
  have chk: "check_user_range amd64 two_page_space 4095 3 = Inr (Inr ())"
    using check_user_range_eq [OF _ amd64_canonical, of two_page_space 4095 3] two_pages_wf \<open>mapped two_pages 4095 3\<close>
    by (simp add: p) (simp add: two_page_space_def)
  have r: "copy_bytes_to_user amd64 two_page_space 4095 [1, 2, 3] (\<lambda>_. 0) = Inr (Inr (), mem')"
    by (simp only: copy_bytes_to_user_def len p chk w and_then.simps sum.case)
  from user_copy_roundtrip [OF _ amd64_canonical _ d r, unfolded len] two_pages_wf
  have "copy_bytes_from_user amd64 two_page_space 4095 3 mem' = Inr (Inr [1, 2, 3])" by (simp add: p)
  with r show ?thesis by blast
qed

text \<open>
  C22. Loading data into another address space works page by page through its page tables:
  afterwards the bytes of the area, read through these tables, are the source bytes, the rest
  of the last page is zero when requested, and no other physical byte changed.
\<close>

theorem copy_to_space_exact:
  assumes "wf_paging (page_tables v)" and "\<forall>a < 2 ^ 47. canonical M a" and "vma_end w < 2 ^ 47"
    and "0 < nbytes" and "nbytes \<le> range_len (vm_range w) * PAGE_SIZE"
    and "\<forall>k < range_len (vm_range w). translate (page_tables v) (vma_start w + k * PAGE_SIZE) \<noteq> None"
    and "inj_on (\<lambda>k. translate (page_tables v) (vma_start w + k * PAGE_SIZE)) {..<range_len (vm_range w)}"
    and "\<forall>i < nbytes. \<forall>k < range_len (vm_range w).
      translate (page_tables v) (vma_start w + k * PAGE_SIZE) \<noteq> Some (src i div PAGE_SIZE * PAGE_SIZE)"
  shows "\<exists>m'. copy_to_addr_space M src v w nbytes fill m = Inr m' \<and>
    (\<forall>i < nbytes. \<exists>pa. translate (page_tables v) (vma_start w + i) = Some pa \<and> m' pa = m (src i)) \<and>
    (fill \<longrightarrow> (\<forall>i. nbytes \<le> i \<and> i < page_units nbytes * PAGE_SIZE \<longrightarrow>
       (\<exists>pa. translate (page_tables v) (vma_start w + i) = Some pa \<and> m' pa = 0))) \<and>
    (\<forall>x. (\<forall>i < page_units nbytes * PAGE_SIZE. translate (page_tables v) (vma_start w + i) \<noteq> Some x) \<longrightarrow> m' x = m x)"
proof -
  let ?p = "page_tables v" and ?s = "vma_start w" and ?n = "page_units nbytes" and ?t = "nbytes mod PAGE_SIZE"
  define D where "D k = the (translate ?p (?s + k * PAGE_SIZE)) div PAGE_SIZE" for k
  note u = page_units_bounds [OF assms(4)]
  have le: "?n \<le> range_len (vm_range w)" by (rule u(4) [OF assms(5)])
  have start: "?s = pg_start (vm_range w) * PAGE_SIZE" by (simp add: vma_start_def)
  have base: "?s + k * PAGE_SIZE = (pg_start (vm_range w) + k) * PAGE_SIZE" for k by (simp add: start algebra_simps)
  have D: "translate ?p (?s + k * PAGE_SIZE) = Some (D k * PAGE_SIZE)" if k: "k < range_len (vm_range w)" for k
  proof -
    obtain a where a: "translate ?p (?s + k * PAGE_SIZE) = Some a" using assms(6) k by blast
    with frame_base [OF assms(1), of "pg_start (vm_range w) + k" a] show ?thesis by (auto simp: D_def base)
  qed
  have "?s + range_len (vm_range w) * PAGE_SIZE \<le> vma_end w \<or> range_len (vm_range w) = 0"
    by (auto simp: vma_start_def vma_end_def range_len_def diff_mult_distrib)
  then have below: "?s + k * PAGE_SIZE < 2 ^ 47" if "k < range_len (vm_range w)" for k
    using that assms(3) mult_less_mono1 [OF that PAGE_SIZE_pos] by linarith
  have phys: "and_then (get_phys M v (?s + k * PAGE_SIZE)) expect = Inr (D k * PAGE_SIZE)" if "k < ?n" for k
    using D [of k] below [of k] that le assms(2) by (simp add: get_phys_def virt_new_def expect_def)
  have inj: "inj_on D {..<?n}"
  proof (rule inj_onI)
    fix i j assume "i \<in> {..<?n}" "j \<in> {..<?n}" "D i = D j"
    then show "i = j" using inj_onD [OF assms(7), of i j] D [of i] D [of j] le by simp
  qed
  have src: "src i div PAGE_SIZE \<notin> D ` {..<?n}" if "i < nbytes" for i
  proof
    assume "src i div PAGE_SIZE \<in> D ` {..<?n}"
    then obtain k where "k < ?n" "src i div PAGE_SIZE = D k" by auto
    with D [of k] le assms(8) that show False by auto
  qed
  obtain m1 where m1: "copy_pages M v ?s src nbytes ?n (0, D 0 * PAGE_SIZE, m) = Inr (nbytes, D (?n - 1) * PAGE_SIZE, m1)"
    "copied D src 0 nbytes m m1"
    using copy_pages_copied [where src = src and k = 0 and d = "D 0 * PAGE_SIZE" and m = m, OF phys inj src u(1,2) u(3)] by auto
  define m2 where "m2 = (if fill \<and> ?t \<noteq> 0 then write_bytes m1 (D (?n - 1) * PAGE_SIZE + ?t) 0 (PAGE_SIZE - ?t) else m1)"
  have run: "copy_to_addr_space M src v w nbytes fill m = Inr m2"
    using assms(5) phys [OF u(3)] m1(1)
    by (simp add: copy_to_addr_space_def page_units_def [symmetric] m2_def Let_def)
  have pa: "translate ?p (?s + i) = Some (placed D i)" if "i < ?n * PAGE_SIZE" for i
    using that le by (intro translate_placed [OF assms(1) start D]) (auto simp: div_less_iff_less_mult intro: less_le_trans)
  have m2: "m2 x = (if fill \<and> (\<exists>i. nbytes \<le> i \<and> i < ?n * PAGE_SIZE \<and> x = placed D i) then 0 else m1 x)" for x
    using tail_block [OF assms(4), of x D] by (auto simp: m2_def write_bytes_def)
  have "m2 (placed D i) = m (src i)" if "i < nbytes" for i
    using m1(2) that placed_inj [OF inj, of i] u(1) by (auto simp: m2 copied_def)
  moreover have "m2 x = m x" if x: "\<forall>i < ?n * PAGE_SIZE. translate ?p (?s + i) \<noteq> Some x" for x
  proof -
    have "x \<noteq> placed D i" if "i < ?n * PAGE_SIZE" for i using x pa [OF that] that by auto
    with u(1) m1(2) show ?thesis by (auto simp: m2 copied_def)
  qed
  ultimately show ?thesis using run pa u(1) by (intro exI [of _ m2]) (auto simp: m2)
qed


theorem copy_to_space_exact_witness:
  "\<exists>m'. copy_to_addr_space amd64 (\<lambda>i. i) two_page_space
       (new_with_tag User \<lparr>pg_start = 0, pg_end = 2\<rparr> Code []) 5000 True (\<lambda>a. of_nat a) = Inr m' \<and>
     m' (7 * PAGE_SIZE + 4999) = of_nat 4999 \<and> m' (7 * PAGE_SIZE + 5000) = 0"
proof -
  let ?w = "new_with_tag User \<lparr>pg_start = 0, pg_end = 2\<rparr> Code []"
  have w: "vma_start ?w = 0" "range_len (vm_range ?w) = 2" "vma_end ?w < 2 ^ 47"
    by (simp_all add: vma_start_def range_len_def vma_end_def PAGE_SIZE_def)
  have p: "page_tables two_page_space = two_pages" by (simp add: two_page_space_def)
  have tr: "translate two_pages (k * PAGE_SIZE) = Some (k * PAGE_SIZE + 7 * PAGE_SIZE)" if "k < 2" for k
    using that by (intro two_pages_translate) simp
  have src: "translate two_pages (k * PAGE_SIZE) \<noteq> Some (i div PAGE_SIZE * PAGE_SIZE)" if "i < 5000" "k < 2" for i k
  proof -
    have "i div PAGE_SIZE * PAGE_SIZE \<le> i" by simp
    then show ?thesis using that tr [OF that(2)] by (simp add: PAGE_SIZE_def)
  qed
  have "page_units 5000 = 2" by (simp add: page_units_def PAGE_SIZE_def)
  with copy_to_space_exact [OF _ amd64_canonical w(3), of two_page_space 5000 "\<lambda>i. i" True "\<lambda>a. of_nat a",
      unfolded w(1,2) p] two_pages_wf tr src
  obtain m' where m': "copy_to_addr_space amd64 (\<lambda>i. i) two_page_space ?w 5000 True (\<lambda>a. of_nat a) = Inr m'"
    "\<forall>i < 5000. \<exists>pa. translate two_pages i = Some pa \<and> m' pa = of_nat i"
    "\<forall>i. 5000 \<le> i \<and> i < 2 * PAGE_SIZE \<longrightarrow> (\<exists>pa. translate two_pages i = Some pa \<and> m' pa = 0)"
    by (force simp: PAGE_SIZE_def inj_on_def)
  from m'(2) [rule_format, of 4999] m'(3) [rule_format, of 5000] m'(1) show ?thesis
    by (simp add: two_pages_translate PAGE_SIZE_def)
qed

text \<open>
  A buffer that ends with the last usable byte passes \<open>access_ok\<close>, but the address behind it is
  not canonical, so computing the last page panics.
\<close>

lemma copy_last_byte_panics:
  "access_ok two_page_space (2 ^ 47 - 1) 1 \<and>
   copy_bytes_to_user amd64 two_page_space (2 ^ 47 - 1) [7] mem = Inl (PanicMsg ''non-canonical address'')"
  by (simp add: copy_bytes_to_user_def check_user_range_def access_ok_def two_page_space_def vaddr_add_def
      virt_new_def amd64_def)

end
