(* ===== verification/Errno.thy ===== *)
theory Errno
  imports Prelude
begin

text \<open>
  The return values of the system calls (\<open>library/syscall/src/return_vals.rs\<close>): error codes are
  negative numbers, results non-negative ones, both in an \<open>isize\<close>.
\<close>

datatype errno =
    EUNKN | ENOENT | ENOHANDLES | EBADF | EACCES | EEXIST | ENOTDIR | EINVAL | EINVALH | ENOTEMPTY
  | EBADSTR | EBUSY | ENOTSUP | ECONNRESET | ERDONLY | EAGAIN | ESRCH | EOF | EPIPE | ENOMEM
  | EISDIR | EFAULT | ENOCMD

fun errno_code :: "errno \<Rightarrow> int" where
  "errno_code EUNKN = -1"
| "errno_code ENOENT = -2"
| "errno_code ENOHANDLES = -3"
| "errno_code EBADF = -4"
| "errno_code EACCES = -5"
| "errno_code EEXIST = -6"
| "errno_code ENOTDIR = -7"
| "errno_code EINVAL = -8"
| "errno_code EINVALH = -9"
| "errno_code ENOTEMPTY = -10"
| "errno_code EBADSTR = -11"
| "errno_code EBUSY = -12"
| "errno_code ENOTSUP = -13"
| "errno_code ECONNRESET = -14"
| "errno_code ERDONLY = -15"
| "errno_code EAGAIN = -16"
| "errno_code ESRCH = -17"
| "errno_code EOF = -18"
| "errno_code EPIPE = -19"
| "errno_code ENOMEM = -20"
| "errno_code EISDIR = -21"
| "errno_code EFAULT = -22"
| "errno_code ENOCMD = -23"

text \<open>The derived conversion from a number: the variant with this code, \<open>EUNKN\<close> if there is none.\<close>

definition all_errnos :: "errno list" where
  "all_errnos = [EUNKN, ENOENT, ENOHANDLES, EBADF, EACCES, EEXIST, ENOTDIR, EINVAL, EINVALH, ENOTEMPTY,
     EBADSTR, EBUSY, ENOTSUP, ECONNRESET, ERDONLY, EAGAIN, ESRCH, EOF, EPIPE, ENOMEM, EISDIR, EFAULT, ENOCMD]"

definition errno_from :: "int \<Rightarrow> errno" where
  "errno_from c = (case find (\<lambda>e. errno_code e = c) all_errnos of Some e \<Rightarrow> e | None \<Rightarrow> EUNKN)"

type_synonym syscall_result = "errno + nat"

text \<open>The casts \<open>as isize\<close> and \<open>as usize\<close> keep the bits of a 64-bit value.\<close>

definition as_isize :: "nat \<Rightarrow> int" where
  "as_isize n = sint (of_nat n :: 64 word)"

definition as_usize :: "int \<Rightarrow> nat" where
  "as_usize i = unat (of_int i :: 64 word)"

definition convert_ret_code_to_syscall_result :: "int \<Rightarrow> syscall_result" where
  "convert_ret_code_to_syscall_result ret_code =
     (if ret_code < 0 then Inl (errno_from ret_code) else Inr (as_usize ret_code))"

definition convert_syscall_result_to_ret_code :: "syscall_result \<Rightarrow> int" where
  "convert_syscall_result_to_ret_code r = (case r of Inr t \<Rightarrow> as_isize t | Inl e \<Rightarrow> errno_code e)"

lemma errno_negative [simp]: "errno_code e < 0"
  by (cases e) simp_all

lemma errno_from_code [simp]: "errno_from (errno_code e) = e"
  by (cases e) (simp_all add: errno_from_def all_errnos_def)

lemma errno_code_inj: "errno_code e = errno_code e' \<longleftrightarrow> e = e'"
  by (metis errno_from_code)

lemma as_isize_small: "n < 2 ^ 63 \<Longrightarrow> as_isize n = int n"
  by (simp add: as_isize_def signed_of_nat signed_take_bit_int_eq_self)

lemma as_usize_small: "0 \<le> i \<Longrightarrow> i < 2 ^ 64 \<Longrightarrow> as_usize i = nat i"
  by (simp add: as_usize_def unsigned_of_int take_bit_int_eq_self)

text \<open>
  A system call result survives the trip through the return register: every error and every
  result below $2^{63}$ is recovered by the caller.
\<close>

theorem syscall_result_roundtrip:
  assumes "case r of Inr t \<Rightarrow> t < 2 ^ 63 | Inl _ \<Rightarrow> True"
  shows "convert_ret_code_to_syscall_result (convert_syscall_result_to_ret_code r) = r"
  using assms
  by (cases r) (simp_all add: convert_ret_code_to_syscall_result_def convert_syscall_result_to_ret_code_def
      as_isize_small as_usize_small)

theorem syscall_result_roundtrip_witness:
  "convert_ret_code_to_syscall_result (convert_syscall_result_to_ret_code (Inl EPIPE)) = Inl EPIPE \<and>
   convert_ret_code_to_syscall_result (convert_syscall_result_to_ret_code (Inr 4711)) = Inr 4711"
  using syscall_result_roundtrip [of "Inl EPIPE"] syscall_result_roundtrip [of "Inr 4711"] by simp

text \<open>Larger results are taken for errors.\<close>

lemma large_result_lost:
  "convert_ret_code_to_syscall_result (convert_syscall_result_to_ret_code (Inr (2 ^ 64 - 20))) = Inl ENOMEM"
  by (simp add: convert_ret_code_to_syscall_result_def convert_syscall_result_to_ret_code_def as_isize_def
      errno_from_def all_errnos_def)

end
