(* ===== verification/Shm.thy ===== *)
theory Shm
  imports VmmProps Errno Frames "HOL-Library.List_Lexorder" "HOL-Library.Char_ord"
begin

text \<open>
  Shared memory objects (\<open>memory/shm.rs\<close>): a table from names to identifiers and a table from
  identifiers to entries, both behind one lock. An operation is one step under the lock, except
  that \<open>detach\<close> and \<open>unlink\<close> release it before they call \<open>delete\<close>: their part under the lock
  returns the identifier that is to be deleted, and the whole call is the composition. The
  address space is that of the calling process.
\<close>

section \<open>Tables\<close>

definition MAX_SHM_SIZE :: nat where
  "MAX_SHM_SIZE = 0x100000"

record shared_memory_entry =
  e_size :: nat
  e_frames :: phys_frame_range
  e_counter :: "64 word"
  e_unlinked :: bool

definition entry_new :: "nat \<Rightarrow> phys_frame_range \<Rightarrow> shared_memory_entry" where
  "entry_new sz frames = \<lparr>e_size = sz, e_frames = frames, e_counter = 0, e_unlinked = False\<rparr>"

record shm_tables =
  naming_table :: "(string, nat) btree"
  entry_table :: "(nat, shared_memory_entry) btree"
  next_free_id :: nat

definition shm_tables_new :: shm_tables where
  "shm_tables_new = \<lparr>naming_table = [], entry_table = [], next_free_id = 0\<rparr>"

section \<open>Operations\<close>

definition shm_open ::
    "'s allocator \<Rightarrow> shm_tables \<Rightarrow> 's \<Rightarrow> string \<Rightarrow> nat \<Rightarrow> bool \<Rightarrow> (int \<times> shm_tables \<times> 's) run" where
  "shm_open alloc t s name sz create =
     (if sz = 0 \<or> sz > MAX_SHM_SIZE then Inr (errno_code EINVAL, t, s)
      else if create then
        (if bt_get (naming_table t) name \<noteq> None then Inr (errno_code EEXIST, t, s)
         else
           let frame_count = (sz + PAGE_SIZE - 1) div PAGE_SIZE in
           and_then (alloc s frame_count) (\<lambda>(frames, s').
             let sid = next_free_id t;
                 entry = entry_new (frame_count * PAGE_SIZE) frames
             in Inr (as_isize sid, \<lparr>naming_table = bt_insert (naming_table t) name sid,
                  entry_table = bt_insert (entry_table t) sid entry,
                  next_free_id = (next_free_id t + 1) mod 2 ^ 64\<rparr>, s')))
      else (case bt_get (naming_table t) name of
          None \<Rightarrow> Inr (errno_code ENOENT, t, s)
        | Some sid \<Rightarrow> (case bt_get (entry_table t) sid of
              Some entry \<Rightarrow> if sz > e_size entry then Inr (errno_code EINVAL, t, s) else Inr (as_isize sid, t, s)
            | None \<Rightarrow> Inr (errno_code ENOENT, t, s))))"

definition set_entry :: "shm_tables \<Rightarrow> nat \<Rightarrow> shared_memory_entry \<Rightarrow> shm_tables" where
  "set_entry t sid entry = t\<lparr>entry_table := bt_insert (entry_table t) sid entry\<rparr>"

definition shm_attach ::
    "'s allocator \<Rightarrow> ('s \<Rightarrow> phys_frame_range \<Rightarrow> 's run) \<Rightarrow> machine \<Rightarrow> shm_tables \<Rightarrow> virtual_address_space \<Rightarrow> 's \<Rightarrow>
     nat \<Rightarrow> bool \<Rightarrow> (int \<times> shm_tables \<times> virtual_address_space \<times> 's) run" where
  "shm_attach alloc free M t v s sid read_only = (case bt_get (entry_table t) sid of
       None \<Rightarrow> Inr (errno_code EINVAL, t, v, s)
     | Some entry \<Rightarrow>
         let num_pages = e_size entry div PAGE_SIZE in
         and_then (alloc_vma M v None num_pages User (SharedMemory sid) (map (\<lambda>c. of_nat (of_char c)) ''shm''))
           (\<lambda>(vma, v1). case vma of
              None \<Rightarrow> Inr (errno_code ENOMEM, t, v1, s)
            | Some vma \<Rightarrow>
                let flags = (if read_only then PRESENT OR USER_ACCESSIBLE
                             else PRESENT OR WRITABLE OR USER_ACCESSIBLE) in
                and_then (map_pfr_for_vma alloc v1 vma (e_frames entry) flags s) (\<lambda>(r, v2, s2). case r of
                    Inl _ \<Rightarrow> and_then (unmap_vma free v2 vma False s2)
                      (\<lambda>(v3, s3). Inr (errno_code ENOMEM, t, v3, s3))
                  | Inr _ \<Rightarrow> Inr (as_isize (vma_start vma),
                      set_entry t sid (entry\<lparr>e_counter := e_counter entry + 1\<rparr>), v2, s2))))"

text \<open>The part under the lock; the last component is the identifier to delete.\<close>

definition detach_locked ::
    "('s \<Rightarrow> phys_frame_range \<Rightarrow> 's run) \<Rightarrow> machine \<Rightarrow> shm_tables \<Rightarrow> virtual_address_space \<Rightarrow> 's \<Rightarrow>
     nat \<Rightarrow> (int \<times> shm_tables \<times> virtual_address_space \<times> 's \<times> nat option) run" where
  "detach_locked free M t v s ptr =
     and_then (is_address_within_vma M v ptr) (\<lambda>area. case area of
         None \<Rightarrow> Inr (errno_code EINVAL, t, v, s, None)
       | Some vma \<Rightarrow>
           if vm_typ vma \<noteq> SharedMemory 0 then Inr (errno_code EINVAL, t, v, s, None)
           else (case vm_typ vma of
               SharedMemory sid \<Rightarrow>
                 and_then (unmap_vma free v vma False s) (\<lambda>(v', s'). case bt_get (entry_table t) sid of
                     None \<Rightarrow> Inr (errno_code EINVAL, t, v', s', None)
                   | Some entry \<Rightarrow>
                       Inr (0, set_entry t sid (entry\<lparr>e_counter := e_counter entry - 1\<rparr>), v', s',
                         if e_counter entry = 1 \<and> e_unlinked entry then Some sid else None))
             | _ \<Rightarrow> Inr (errno_code EINVAL, t, v, s, None)))"

definition unlink_locked :: "shm_tables \<Rightarrow> string \<Rightarrow> int \<times> shm_tables \<times> nat option" where
  "unlink_locked t name = (case bt_get (naming_table t) name of
       None \<Rightarrow> (errno_code ENOENT, t, None)
     | Some sid \<Rightarrow>
         let t1 = t\<lparr>naming_table := bt_remove (naming_table t) name\<rparr> in
         (case bt_get (entry_table t) sid of
            None \<Rightarrow> (errno_code ENOENT, t1, None)
          | Some entry \<Rightarrow>
              (0, set_entry t1 sid (entry\<lparr>e_unlinked := True\<rparr>),
               if e_counter entry = 0 then Some sid else None)))"

definition shm_delete ::
    "('s \<Rightarrow> phys_frame_range \<Rightarrow> 's run) \<Rightarrow> shm_tables \<Rightarrow> 's \<Rightarrow> nat \<Rightarrow> (shm_tables \<times> 's) run" where
  "shm_delete free t s sid = (case bt_get (entry_table t) sid of
       None \<Rightarrow> Inr (t, s)
     | Some entry \<Rightarrow> and_then (free s (e_frames entry))
         (\<lambda>s'. Inr (t\<lparr>entry_table := bt_remove (entry_table t) sid\<rparr>, s')))"

definition shm_delete_pending ::
    "('s \<Rightarrow> phys_frame_range \<Rightarrow> 's run) \<Rightarrow> shm_tables \<Rightarrow> 's \<Rightarrow> nat option \<Rightarrow> (shm_tables \<times> 's) run" where
  "shm_delete_pending free t s pending =
     (case pending of None \<Rightarrow> Inr (t, s) | Some sid \<Rightarrow> shm_delete free t s sid)"

definition shm_detach ::
    "('s \<Rightarrow> phys_frame_range \<Rightarrow> 's run) \<Rightarrow> machine \<Rightarrow> shm_tables \<Rightarrow> virtual_address_space \<Rightarrow> 's \<Rightarrow>
     nat \<Rightarrow> (int \<times> shm_tables \<times> virtual_address_space \<times> 's) run" where
  "shm_detach free M t v s ptr =
     and_then (detach_locked free M t v s ptr) (\<lambda>(ret, t1, v1, s1, pending).
     and_then (shm_delete_pending free t1 s1 pending) (\<lambda>(t2, s2). Inr (ret, t2, v1, s2)))"

definition shm_unlink ::
    "('s \<Rightarrow> phys_frame_range \<Rightarrow> 's run) \<Rightarrow> shm_tables \<Rightarrow> 's \<Rightarrow> string \<Rightarrow> (int \<times> shm_tables \<times> 's) run" where
  "shm_unlink free t s name = (case unlink_locked t name of (ret, t1, pending) \<Rightarrow>
     and_then (shm_delete_pending free t1 s pending) (\<lambda>(t2, s2). Inr (ret, t2, s2)))"

section \<open>Objects and their frames\<close>

text \<open>
  Every name stands for an entry that is not unlinked, different names for different entries,
  and every entry has frames of its own that the allocator does not consider free.
\<close>

definition entries_ok :: "('s \<Rightarrow> nat set) \<Rightarrow> (phys_frame_range \<Rightarrow> bool) \<Rightarrow> shm_tables \<Rightarrow> 's \<Rightarrow> nat set \<Rightarrow> bool" where
  "entries_ok avail valid t s others \<longleftrightarrow>
     (\<forall>sid e. bt_get (entry_table t) sid = Some e \<longrightarrow> sid < next_free_id t \<and> valid (e_frames e) \<and>
        frame_set (e_frames e) \<inter> (avail s \<union> others) = {}) \<and>
     (\<forall>i j e e'. bt_get (entry_table t) i = Some e \<and> bt_get (entry_table t) j = Some e' \<and> i \<noteq> j \<longrightarrow>
        frame_set (e_frames e) \<inter> frame_set (e_frames e') = {})"

definition names_ok :: "shm_tables \<Rightarrow> bool" where
  "names_ok t \<longleftrightarrow> bt_wf (naming_table t) \<and> bt_wf (entry_table t) \<and>
     (\<forall>name sid. bt_get (naming_table t) name = Some sid \<longrightarrow>
        (\<exists>e. bt_get (entry_table t) sid = Some e \<and> \<not> e_unlinked e)) \<and>
     (\<forall>n n' sid. bt_get (naming_table t) n = Some sid \<and> bt_get (naming_table t) n' = Some sid \<longrightarrow> n = n')"

text \<open>
  The histories of the tables and the frame allocator: \<open>rs\<close> are the ranges that other users of
  the allocator hold. \<open>attach\<close> and \<open>detach\<close> change the counter of an entry, and the last
  \<open>detach\<close> deletes an entry that is unlinked.
\<close>

inductive shm_reach ::
    "'s allocator \<Rightarrow> ('s \<Rightarrow> phys_frame_range \<Rightarrow> 's run) \<Rightarrow> 's \<Rightarrow> shm_tables \<Rightarrow> 's \<Rightarrow> phys_frame_range list \<Rightarrow> bool"
  for alloc free s0 where
  start: "shm_reach alloc free s0 shm_tables_new s0 []"
| create: "shm_reach alloc free s0 t s rs \<Longrightarrow> next_free_id t + 1 < 2 ^ 64 \<Longrightarrow>
    shm_open alloc t s name sz create = Inr (ret, t', s') \<Longrightarrow> shm_reach alloc free s0 t' s' rs"
| unlink: "shm_reach alloc free s0 t s rs \<Longrightarrow> shm_unlink free t s name = Inr (ret, t', s') \<Longrightarrow>
    shm_reach alloc free s0 t' s' rs"
| attached: "shm_reach alloc free s0 t s rs \<Longrightarrow> bt_get (entry_table t) sid = Some e \<Longrightarrow>
    shm_reach alloc free s0 (set_entry t sid (e\<lparr>e_counter := c\<rparr>)) s rs"
| last_detach: "shm_reach alloc free s0 t s rs \<Longrightarrow> bt_get (entry_table t) sid = Some e \<Longrightarrow> e_unlinked e \<Longrightarrow>
    shm_delete free t s sid = Inr (t', s') \<Longrightarrow> shm_reach alloc free s0 t' s' rs"
| other_alloc: "shm_reach alloc free s0 t s rs \<Longrightarrow> 0 < n \<Longrightarrow> alloc s n = Inr (r, s') \<Longrightarrow>
    shm_reach alloc free s0 t s' (r # rs)"
| other_free: "shm_reach alloc free s0 t s (xs @ r # ys) \<Longrightarrow> free s r = Inr s' \<Longrightarrow>
    shm_reach alloc free s0 t s' (xs @ ys)"

text \<open>What every history keeps.\<close>

definition shm_ok ::
    "('s \<Rightarrow> bool) \<Rightarrow> ('s \<Rightarrow> nat set) \<Rightarrow> (phys_frame_range \<Rightarrow> bool) \<Rightarrow> shm_tables \<Rightarrow> 's \<Rightarrow> phys_frame_range list \<Rightarrow> bool" where
  "shm_ok invar avail valid t s rs \<longleftrightarrow> invar s \<and> names_ok t \<and> entries_ok avail valid t s (frames_of rs) \<and>
     disjoint_ranges rs \<and> (\<forall>r \<in> set rs. valid r) \<and> frames_of rs \<inter> avail s = {}"

lemmas bt_entry_simps = bt.get_ins bt.get_rem bt.ok_ins bt.ok_rem

lemma names_okD:
  assumes "names_ok t"
  shows "bt_wf (naming_table t)" "bt_wf (entry_table t)"
    "bt_get (naming_table t) name = Some sid \<Longrightarrow> \<exists>e. bt_get (entry_table t) sid = Some e \<and> \<not> e_unlinked e"
    "bt_get (naming_table t) n = Some sid \<Longrightarrow> bt_get (naming_table t) n' = Some sid \<Longrightarrow> n = n'"
  using assms unfolding names_ok_def by blast+

lemma names_okI:
  assumes "bt_wf (naming_table t)" "bt_wf (entry_table t)"
    "\<And>name sid. bt_get (naming_table t) name = Some sid \<Longrightarrow>
       \<exists>e. bt_get (entry_table t) sid = Some e \<and> \<not> e_unlinked e"
    "\<And>n n' sid. bt_get (naming_table t) n = Some sid \<Longrightarrow> bt_get (naming_table t) n' = Some sid \<Longrightarrow> n = n'"
  shows "names_ok t"
  using assms unfolding names_ok_def by blast

lemma names_ok_set_entry:
  assumes ok: "names_ok t" and e: "bt_get (entry_table t) sid = Some e" "e_unlinked e' = e_unlinked e"
  shows "names_ok (set_entry t sid e')"
proof (rule names_okI)
  note wf = names_okD(1,2) [OF ok]
  show "bt_wf (naming_table (set_entry t sid e'))" "bt_wf (entry_table (set_entry t sid e'))"
    using wf by (simp_all add: set_entry_def bt_entry_simps)
  show "\<exists>f. bt_get (entry_table (set_entry t sid e')) i = Some f \<and> \<not> e_unlinked f"
    if "bt_get (naming_table (set_entry t sid e')) n = Some i" for n i
    using names_okD(3) [OF ok, of n i] that e wf by (cases "i = sid") (auto simp: set_entry_def bt_entry_simps)
  show "n = n'" if "bt_get (naming_table (set_entry t sid e')) n = Some i"
    "bt_get (naming_table (set_entry t sid e')) n' = Some i" for n n' i
    using names_okD(4) [OF ok, of n i n'] that by (simp add: set_entry_def)
qed

lemma names_ok_unlink:
  assumes ok: "names_ok t" and name: "bt_get (naming_table t) name = Some sid"
  shows "names_ok (set_entry (t\<lparr>naming_table := bt_remove (naming_table t) name\<rparr>) sid e)"
proof (rule names_okI)
  let ?t = "set_entry (t\<lparr>naming_table := bt_remove (naming_table t) name\<rparr>) sid e"
  note wf = names_okD(1,2) [OF ok]
  show "bt_wf (naming_table ?t)" "bt_wf (entry_table ?t)" using wf by (simp_all add: set_entry_def bt_entry_simps)
  have get: "bt_get (naming_table ?t) n = Some i \<Longrightarrow> n \<noteq> name \<and> bt_get (naming_table t) n = Some i" for n i
    using wf by (simp add: set_entry_def bt_entry_simps split: if_splits)
  show "\<exists>e'. bt_get (entry_table ?t) i = Some e' \<and> \<not> e_unlinked e'" if "bt_get (naming_table ?t) n = Some i" for n i
  proof -
    have n: "n \<noteq> name" "bt_get (naming_table t) n = Some i" using get [OF that] by auto
    then have "i \<noteq> sid" using names_okD(4) [OF ok n(2), of name] name by blast
    with names_okD(3) [OF ok n(2)] wf show ?thesis by (auto simp: set_entry_def bt_entry_simps)
  qed
  show "n = n'" if "bt_get (naming_table ?t) n = Some i" "bt_get (naming_table ?t) n' = Some i" for n n' i
    using get [OF that(1)] get [OF that(2)] names_okD(4) [OF ok, of n i n'] by blast
qed

lemma names_ok_delete:
  assumes ok: "names_ok t" and e: "bt_get (entry_table t) sid = Some e" "e_unlinked e"
  shows "names_ok (t\<lparr>entry_table := bt_remove (entry_table t) sid\<rparr>)"
proof (rule names_okI)
  let ?t = "t\<lparr>entry_table := bt_remove (entry_table t) sid\<rparr>"
  note wf = names_okD(1,2) [OF ok]
  show "bt_wf (naming_table ?t)" "bt_wf (entry_table ?t)" using wf by (simp_all add: bt_entry_simps)
  show "\<exists>e'. bt_get (entry_table ?t) i = Some e' \<and> \<not> e_unlinked e'" if "bt_get (naming_table ?t) n = Some i" for n i
    using names_okD(3) [OF ok, of n i] that e wf by (cases "i = sid") (auto simp: bt_entry_simps)
  show "n = n'" if "bt_get (naming_table ?t) n = Some i" "bt_get (naming_table ?t) n' = Some i" for n n' i
    using names_okD(4) [OF ok, of n i n'] that by simp
qed

lemma entries_okD:
  assumes "entries_ok avail valid t s others" and "bt_get (entry_table t) sid = Some e"
  shows "sid < next_free_id t" "valid (e_frames e)" "frame_set (e_frames e) \<inter> avail s = {}"
    "frame_set (e_frames e) \<inter> others = {}"
    "bt_get (entry_table t) j = Some e' \<Longrightarrow> sid \<noteq> j \<Longrightarrow> frame_set (e_frames e) \<inter> frame_set (e_frames e') = {}"
  using assms unfolding entries_ok_def by blast+

lemma entries_okI:
  assumes "\<And>sid e. bt_get (entry_table t) sid = Some e \<Longrightarrow> sid < next_free_id t \<and> valid (e_frames e) \<and>
      frame_set (e_frames e) \<inter> avail s = {} \<and> frame_set (e_frames e) \<inter> others = {}"
    and "\<And>i j e e'. bt_get (entry_table t) i = Some e \<Longrightarrow> bt_get (entry_table t) j = Some e' \<Longrightarrow> i \<noteq> j \<Longrightarrow>
      frame_set (e_frames e) \<inter> frame_set (e_frames e') = {}"
  shows "entries_ok avail valid t s others"
  using assms unfolding entries_ok_def by blast

text \<open>Changing the tables without changing the frames of an entry.\<close>

lemma entries_ok_cong:
  assumes ok: "entries_ok avail valid t s others" and nx: "next_free_id t \<le> next_free_id t'"
    and get: "\<And>sid e. bt_get (entry_table t') sid = Some e \<Longrightarrow>
      \<exists>f. bt_get (entry_table t) sid = Some f \<and> e_frames e = e_frames f"
  shows "entries_ok avail valid t' s others"
proof (rule entries_okI)
  fix sid e assume "bt_get (entry_table t') sid = Some e"
  then obtain f where f: "bt_get (entry_table t) sid = Some f" "e_frames e = e_frames f" using get by blast
  with entries_okD(1-4) [OF ok f(1)] nx show "sid < next_free_id t' \<and> valid (e_frames e) \<and>
      frame_set (e_frames e) \<inter> avail s = {} \<and> frame_set (e_frames e) \<inter> others = {}" by simp
next
  fix i j e e' assume ij: "bt_get (entry_table t') i = Some e" "bt_get (entry_table t') j = Some e'" "i \<noteq> j"
  from get [OF ij(1)] get [OF ij(2)] ij(3) entries_okD(5) [OF ok]
  show "frame_set (e_frames e) \<inter> frame_set (e_frames e') = {}" by fastforce
qed

lemma entries_ok_set_entry:
  assumes "entries_ok avail valid t s others" and "names_ok t"
    and "bt_get (entry_table t) sid = Some e" and "e_frames e' = e_frames e"
  shows "entries_ok avail valid (set_entry t sid e') s others"
  using assms names_okD(2) [OF assms(2)]
  by (intro entries_ok_cong [OF assms(1)]) (auto simp: set_entry_def bt_entry_simps split: if_splits)

context frame_allocator
begin

lemma delete_ok:
  assumes names: "names_ok t" and ok: "entries_ok avail valid t s others" and inv: "invar s"
    and e: "bt_get (entry_table t) sid = Some e"
  shows "\<exists>s'. shm_delete free t s sid = Inr (t\<lparr>entry_table := bt_remove (entry_table t) sid\<rparr>, s') \<and> invar s' \<and>
    avail s' = avail s \<union> frame_set (e_frames e) \<and>
    entries_ok avail valid (t\<lparr>entry_table := bt_remove (entry_table t) sid\<rparr>) s' others"
proof -
  let ?t = "t\<lparr>entry_table := bt_remove (entry_table t) sid\<rparr>"
  from free_ok [OF inv entries_okD(2,3) [OF ok e]] obtain s' where
    s': "free s (e_frames e) = Inr s'" "invar s'" "avail s' = avail s \<union> frame_set (e_frames e)" by blast
  have get: "bt_get (entry_table ?t) j = Some f \<Longrightarrow> j \<noteq> sid \<and> bt_get (entry_table t) j = Some f" for j f
    using names_okD(2) [OF names] by (simp add: bt_entry_simps split: if_splits)
  have "entries_ok avail valid ?t s' others"
  proof (rule entries_okI)
    fix j f assume "bt_get (entry_table ?t) j = Some f"
    then have j: "j \<noteq> sid" "bt_get (entry_table t) j = Some f" using get by blast+
    with entries_okD(1-4) [OF ok j(2)] entries_okD(5) [OF ok j(2) e] s'(3)
    show "j < next_free_id ?t \<and> valid (e_frames f) \<and> frame_set (e_frames f) \<inter> avail s' = {} \<and>
        frame_set (e_frames f) \<inter> others = {}" by auto
  next
    fix i j f f' assume "bt_get (entry_table ?t) i = Some f" "bt_get (entry_table ?t) j = Some f'" "i \<noteq> j"
    then show "frame_set (e_frames f) \<inter> frame_set (e_frames f') = {}"
      using get entries_okD(5) [OF ok] by blast
  qed
  with s' e show ?thesis by (simp add: shm_delete_def)
qed


lemma open_ok:
  assumes names: "names_ok t" and ok: "entries_ok avail valid t s others" and inv: "invar s"
    and nx: "next_free_id t + 1 < 2 ^ 64" and run: "shm_open alloc t s name sz create = Inr (ret, t', s')"
  shows "(t' = t \<and> s' = s) \<or> (\<exists>n r. 0 < n \<and> alloc s n = Inr (r, s') \<and> names_ok t' \<and> entries_ok avail valid t' s' (others - frame_set r))"
proof (cases "t' = t \<and> s' = s")
  case False
  let ?sid = "next_free_id t" and ?n = "(sz + PAGE_SIZE - 1) div PAGE_SIZE"
  have new: "bt_get (naming_table t) name = None" and sz: "0 < sz" and "sz \<le> MAX_SHM_SIZE" and "create"
    using False run by (auto simp: shm_open_def simp del: not_None_eq split: if_splits option.split_asm)
  with run nx obtain r where al: "alloc s ?n = Inr (r, s')"
    and t': "t' = \<lparr>naming_table = bt_insert (naming_table t) name ?sid,
      entry_table = bt_insert (entry_table t) ?sid (entry_new (?n * PAGE_SIZE) r), next_free_id = ?sid + 1\<rparr>"
    by (auto simp: shm_open_def Let_def and_then_Inr_iff)
  have "PAGE_SIZE \<le> sz + PAGE_SIZE - 1" using sz by simp
  then have n: "0 < ?n" by (simp add: div_greater_zero_iff)
  note a = alloc_ok [OF inv n al]
  note wf = names_okD(1,2) [OF names]
  have fresh: "bt_get (entry_table t) ?sid = None" using entries_okD(1) [OF ok, of ?sid] by (cases "bt_get (entry_table t) ?sid") auto
  have "names_ok t'"
  proof (rule names_okI)
    show "bt_wf (naming_table t')" "bt_wf (entry_table t')" using wf by (simp_all add: t' bt_entry_simps)
    show "\<exists>e. bt_get (entry_table t') i = Some e \<and> \<not> e_unlinked e" if "bt_get (naming_table t') m = Some i" for m i
      using that names_okD(3) [OF names, of m i] wf fresh
      by (cases "m = name") (auto simp: t' bt_entry_simps entry_new_def)
    show "m = m'" if "bt_get (naming_table t') m = Some i" "bt_get (naming_table t') m' = Some i" for m m' i
    proof -
      have "bt_get (naming_table t) x \<noteq> Some ?sid" for x using names_okD(3) [OF names, of x ?sid] fresh by auto
      with that names_okD(4) [OF names, of m i m'] wf show ?thesis
        by (cases "m = name"; cases "m' = name") (auto simp: t' bt_entry_simps)
    qed
  qed
  moreover have "entries_ok avail valid t' s' (others - frame_set r)"
  proof (rule entries_okI)
    fix i e assume i: "bt_get (entry_table t') i = Some e"
    show "i < next_free_id t' \<and> valid (e_frames e) \<and> frame_set (e_frames e) \<inter> avail s' = {} \<and>
      frame_set (e_frames e) \<inter> (others - frame_set r) = {}"
    proof (cases "i = ?sid")
      case True
      with i a wf show ?thesis by (auto simp: t' bt_entry_simps entry_new_def)
    next
      case False
      with i wf have "bt_get (entry_table t) i = Some e" by (simp add: t' bt_entry_simps)
      from entries_okD(1-4) [OF ok this] a show ?thesis by (auto simp: t')
    qed
  next
    fix i j e e' assume ij: "bt_get (entry_table t') i = Some e" "bt_get (entry_table t') j = Some e'" "i \<noteq> j"
    have new: "frame_set (e_frames f) \<inter> frame_set r = {}" if "bt_get (entry_table t) k = Some f" for k f
      using entries_okD(3) [OF ok that] a by blast
    show "frame_set (e_frames e) \<inter> frame_set (e_frames e') = {}"
      using ij wf new [of j e'] new [of i e] entries_okD(5) [OF ok, of i e j e']
      by (cases "i = ?sid"; cases "j = ?sid") (auto simp: t' bt_entry_simps entry_new_def)
  qed
  ultimately show ?thesis using n al by blast
qed blast

lemma unlink_ok:
  assumes names: "names_ok t" and ok: "entries_ok avail valid t s others" and inv: "invar s"
  shows "\<exists>ret t' s'. shm_unlink free t s name = Inr (ret, t', s') \<and> names_ok t' \<and>
    entries_ok avail valid t' s' others \<and> invar s' \<and> avail s \<subseteq> avail s' \<and> avail s' \<inter> others = avail s \<inter> others"
proof (cases "bt_get (naming_table t) name")
  case None
  then show ?thesis using assms by (simp add: shm_unlink_def unlink_locked_def shm_delete_pending_def)
next
  case (Some sid)
  obtain e where e: "bt_get (entry_table t) sid = Some e" using names_okD(3) [OF names Some] by blast
  let ?t0 = "t\<lparr>naming_table := bt_remove (naming_table t) name\<rparr>" and ?e = "e\<lparr>e_unlinked := True\<rparr>"
  let ?t = "set_entry ?t0 sid ?e"
  have n1: "names_ok ?t" by (rule names_ok_unlink [OF names Some])
  have wf: "bt_wf (entry_table t)" by (rule names_okD(2) [OF names])
  have o1: "entries_ok avail valid ?t s others"
    using e wf by (intro entries_ok_cong [OF ok]) (auto simp: set_entry_def bt_entry_simps split: if_splits)
  have e1: "bt_get (entry_table ?t) sid = Some ?e" using wf by (simp add: set_entry_def bt_entry_simps)
  show ?thesis
  proof (cases "e_counter e = 0")
    case True
    from delete_ok [OF n1 o1 inv e1] obtain s' where
      s': "shm_delete free ?t s sid = Inr (?t\<lparr>entry_table := bt_remove (entry_table ?t) sid\<rparr>, s')" "invar s'"
        "avail s' = avail s \<union> frame_set (e_frames ?e)"
        "entries_ok avail valid (?t\<lparr>entry_table := bt_remove (entry_table ?t) sid\<rparr>) s' others" by blast
    moreover have "names_ok (?t\<lparr>entry_table := bt_remove (entry_table ?t) sid\<rparr>)"
      by (rule names_ok_delete [OF n1 e1]) simp
    moreover have "frame_set (e_frames ?e) \<inter> others = {}" using entries_okD(4) [OF o1 e1] .
    ultimately show ?thesis using True Some e
      by (auto simp: shm_unlink_def unlink_locked_def shm_delete_pending_def Let_def)
  next
    case False
    then show ?thesis using Some e n1 o1 inv
      by (auto simp: shm_unlink_def unlink_locked_def shm_delete_pending_def Let_def)
  qed
qed

lemma reach_ok: "shm_reach alloc free s0 t s rs \<Longrightarrow> invar s0 \<Longrightarrow> shm_ok invar avail valid t s rs"
proof (induction rule: shm_reach.induct)
  case start
  then show ?case by (simp add: shm_ok_def names_ok_def entries_ok_def shm_tables_new_def)
next
  case (create t s rs name sz cr ret t' s')
  then have ok: "names_ok t" "entries_ok avail valid t s (frames_of rs)" "invar s"
    and rs: "disjoint_ranges rs" "\<forall>r \<in> set rs. valid r" "frames_of rs \<inter> avail s = {}"
    by (simp_all add: shm_ok_def)
  from open_ok [OF ok create.hyps(2,3)] show ?case
  proof (elim disjE exE conjE)
    fix n r assume n: "0 < n" "alloc s n = Inr (r, s')" and ok': "names_ok t'" "entries_ok avail valid t' s' (frames_of rs - frame_set r)"
    note a = alloc_ok [OF ok(3) n]
    have "frames_of rs - frame_set r = frames_of rs" "frames_of rs \<inter> avail s' = {}" using rs(3) a by blast+
    with ok' rs(1,2) a show ?case by (simp add: shm_ok_def)
  qed (use create in simp)
next
  case (unlink t s rs name ret t' s')
  then have ok: "names_ok t" "entries_ok avail valid t s (frames_of rs)" "invar s"
    and rs: "disjoint_ranges rs" "\<forall>r \<in> set rs. valid r" "frames_of rs \<inter> avail s = {}"
    by (simp_all add: shm_ok_def)
  from unlink_ok [OF ok, of name] unlink.hyps(2) rs show ?case by (auto simp: shm_ok_def Int_commute)
next
  case (attached t s rs sid e c)
  then show ?case using names_ok_set_entry [of t sid e "e\<lparr>e_counter := c\<rparr>"]
      entries_ok_set_entry [of avail valid t s "frames_of rs" sid e "e\<lparr>e_counter := c\<rparr>"]
    by (simp add: shm_ok_def)
next
  case (last_detach t s rs sid e t' s')
  then have ok: "names_ok t" "entries_ok avail valid t s (frames_of rs)" "invar s"
    and rs: "disjoint_ranges rs" "\<forall>r \<in> set rs. valid r" "frames_of rs \<inter> avail s = {}"
    by (simp_all add: shm_ok_def)
  have "frame_set (e_frames e) \<inter> frames_of rs = {}" by (rule entries_okD(4) [OF ok(2) last_detach.hyps(2)])
  with delete_ok [OF ok last_detach.hyps(2)] names_ok_delete [OF ok(1) last_detach.hyps(2,3)] last_detach.hyps(4) rs
  show ?case by (auto simp: shm_ok_def)
next
  case (other_alloc t s rs n r s')
  then have ok: "entries_ok avail valid t s (frames_of rs)" "invar s" by (simp_all add: shm_ok_def)
  note a = alloc_ok [OF ok(2) other_alloc.hyps(2,3)]
  have "entries_ok avail valid t s' (frames_of (r # rs))"
  proof (rule entries_okI)
    fix i e assume i: "bt_get (entry_table t) i = Some e"
    from entries_okD(1-4) [OF ok(1) i] a show "i < next_free_id t \<and> valid (e_frames e) \<and>
      frame_set (e_frames e) \<inter> avail s' = {} \<and> frame_set (e_frames e) \<inter> frames_of (r # rs) = {}" by auto
  qed (rule entries_okD(5) [OF ok(1)])
  with a other_alloc.IH other_alloc.prems show ?case by (auto simp: shm_ok_def)
next
  case (other_free t s xs r ys s')
  then have ok: "entries_ok avail valid t s (frames_of (xs @ r # ys))" "invar s" "valid r" "frame_set r \<inter> avail s = {}"
    by (auto simp: shm_ok_def)
  from free_ok [OF ok(2-4)] other_free.hyps(2) have a: "invar s'" "avail s' = avail s \<union> frame_set r" by auto
  have "entries_ok avail valid t s' (frames_of (xs @ ys))"
  proof (rule entries_okI)
    fix i e assume i: "bt_get (entry_table t) i = Some e"
    from entries_okD(1-4) [OF ok(1) i] a show "i < next_free_id t \<and> valid (e_frames e) \<and>
      frame_set (e_frames e) \<inter> avail s' = {} \<and> frame_set (e_frames e) \<inter> frames_of (xs @ ys) = {}" by auto
  qed (rule entries_okD(5) [OF ok(1)])
  with a other_free.IH other_free.prems show ?case by (auto simp: shm_ok_def)
qed


end

section \<open>Attached objects\<close>

lemma attach_cases:
  assumes "shm_attach alloc free M t v s sid ro = Inr (a, t', v', s')" and "0 \<le> a"
  obtains e vma v1 flags where "bt_get (entry_table t) sid = Some e"
    "alloc_vma M v None (e_size e div PAGE_SIZE) User (SharedMemory sid) (map (\<lambda>c. of_nat (of_char c)) ''shm'') = Inr (Some vma, v1)"
    "map_pfr_for_vma alloc v1 vma (e_frames e) flags s = Inr (Inr (), v', s')"
    "a = as_isize (vma_start vma)" "t' = set_entry t sid (e\<lparr>e_counter := e_counter e + 1\<rparr>)"
proof -
  have err: "\<not> 0 \<le> errno_code x" for x using errno_negative [of x] by linarith
  from assms err obtain e where e: "bt_get (entry_table t) sid = Some e"
    by (auto simp: shm_attach_def split: option.splits)
  let ?tag = "map (\<lambda>c. of_nat (of_char c)) ''shm''" and ?n = "e_size e div PAGE_SIZE"
  let ?flags = "if ro then PRESENT OR USER_ACCESSIBLE else PRESENT OR WRITABLE OR USER_ACCESSIBLE"
  from assms(1) e obtain r v1 where al: "alloc_vma M v None ?n User (SharedMemory sid) ?tag = Inr (r, v1)"
    by (auto simp: shm_attach_def Let_def elim: and_then_InrE)
  with assms e err obtain vma where r: "r = Some vma" by (cases r) (auto simp: shm_attach_def Let_def)
  from assms(1) e al r obtain q v2 s2 where mp: "map_pfr_for_vma alloc v1 vma (e_frames e) ?flags s = Inr (q, v2, s2)"
    by (auto simp: shm_attach_def Let_def elim!: and_then_InrE)
  have "q = Inr ()"
  proof (cases q)
    case (Inl x)
    with assms e al r mp err show ?thesis by (auto simp: shm_attach_def Let_def elim!: and_then_InrE)
  qed simp
  with assms(1) e al r mp show thesis by (intro that [of e vma v1 ?flags]) (auto simp: shm_attach_def Let_def)
qed

lemma attach_maps:
  assumes wf: "wf_vas v" "wf_paging (page_tables v)" "depth (page_tables v) = 4"
    and canon: "\<forall>a < 2 ^ 47. canonical M a"
    and e: "bt_get (entry_table t) sid = Some e" "PAGE_SIZE dvd e_size e"
    and run: "shm_attach alloc free M t v s sid ro = Inr (a, t', v', s')" "0 \<le> a" and i: "i < e_size e"
  shows "translate (page_tables v') (nat a + i) = Some (fr_start (e_frames e) * PAGE_SIZE + i)"
proof (rule attach_cases [OF run])
  let ?n = "e_size e div PAGE_SIZE"
  fix e' vma v1 flags
  assume e': "bt_get (entry_table t) sid = Some e'"
    and al: "alloc_vma M v None (e_size e' div PAGE_SIZE) User (SharedMemory sid) (map (\<lambda>c. of_nat (of_char c)) ''shm'') = Inr (Some vma, v1)"
    and mp: "map_pfr_for_vma alloc v1 vma (e_frames e') flags s = Inr (Inr (), v', s')" and a: "a = as_isize (vma_start vma)"
  have [simp]: "e' = e" using e e' by simp
  obtain page ty tag where w: "vma = area_at User ty tag page ?n" and room: "room v User page ?n" and v1: "page_tables v1 = page_tables v"
    by (rule alloc_vma_cases [OF wf(1) canon al]) auto
  have rng: "vm_range vma = \<lparr>pg_start = page, pg_end = page + ?n\<rparr>" "vm_space vma = User" by (simp_all add: w)
  note pages = room_pages [OF wf(1) room wf(3)]
  have size: "e_size e = ?n * PAGE_SIZE" using e(2) by simp
  have low: "(page + ?n) * PAGE_SIZE < 2 ^ 47"
    using room by (intro bounds_below [OF wf(1), of User "page * PAGE_SIZE"]) (simp add: room_def)
  then have "vma_start vma < 2 ^ 47" by (simp add: vma_start_def rng algebra_simps)
  then have "a = int (vma_start vma)" unfolding a by (intro as_isize_small) simp
  then have na: "nat a = page * PAGE_SIZE" using nat_int [of "vma_start vma"] by (simp only: vma_start_def rng page_range.simps)
  let ?addr = "page * PAGE_SIZE + i"
  have div: "?addr div PAGE_SIZE = page + i div PAGE_SIZE" "?addr mod PAGE_SIZE = i mod PAGE_SIZE" by simp_all
  have idx: "i div PAGE_SIZE < ?n" using i size by (simp add: div_less_iff_less_mult)
  have inside: "vma_start vma \<le> ?addr" "?addr < vma_end vma"
    using i size by (simp_all add: vma_start_def vma_end_def rng algebra_simps)
  have pre: "wf_paging (page_tables v1)" "pg_start (vm_range vma) < pg_end (vm_range vma)"
    "pg_end (vm_range vma) \<le> page_count (page_tables v1)" using wf(2) pages by (simp_all add: v1 rng)
  have "?addr div PAGE_SIZE < page_count (page_tables v1)" using idx pages by (simp add: v1 div)
  with map_pfr_maps [OF pre mp] inside
  have "translate (page_tables v') ?addr = Some ((fr_start (e_frames e) + (?addr div PAGE_SIZE - page)) * PAGE_SIZE + ?addr mod PAGE_SIZE)"
    by (simp add: rng)
  also have "(fr_start (e_frames e) + (?addr div PAGE_SIZE - page)) * PAGE_SIZE + ?addr mod PAGE_SIZE
      = fr_start (e_frames e) * PAGE_SIZE + i"
    by (simp add: div algebra_simps)
  finally show ?thesis by (simp add: na)
qed

section \<open>Properties\<close>

text \<open>Tables with one object of two pages, for the witnesses.\<close>

definition demo_entry :: shared_memory_entry where
  "demo_entry = entry_new (2 * PAGE_SIZE) \<lparr>fr_start = 7, fr_end = 9\<rparr>"

definition demo_tables :: shm_tables where
  "demo_tables = \<lparr>naming_table = [(''buf'', 0)], entry_table = [(0, demo_entry)], next_free_id = 1\<rparr>"

definition demo_heap :: "page_frame_node list" where
  "demo_heap = [\<lparr>pn_start = 7, frame_count = 10\<rparr>]"

lemma demo_open:
  "shm_open alloc_block shm_tables_new demo_heap ''buf'' 5000 True =
     Inr (0, demo_tables, [\<lparr>pn_start = 9, frame_count = 8\<rparr>])"
  by (simp add: shm_open_def shm_tables_new_def demo_heap_def demo_tables_def demo_entry_def MAX_SHM_SIZE_def PAGE_SIZE_def
      alloc_block_def pn_end_def frames_len_def insert_frames_def Let_def as_isize_small)



text \<open>
  C24. An object is really shared: two successful attachments, in any two address spaces and at
  whatever addresses, translate every offset of the object to the same physical byte.
\<close>

theorem shm_attach_shares:
  assumes "wf_vas v1" "wf_paging (page_tables v1)" "depth (page_tables v1) = 4"
    and "wf_vas v2" "wf_paging (page_tables v2)" "depth (page_tables v2) = 4"
    and "\<forall>a < 2 ^ 47. canonical M a"
    and "bt_get (entry_table t1) sid = Some e" "bt_get (entry_table t2) sid = Some (e\<lparr>e_counter := c\<rparr>)" "PAGE_SIZE dvd e_size e"
    and "shm_attach alloc free M t1 v1 s1 sid ro1 = Inr (a1, t1', v1', s1')" "0 \<le> a1"
    and "shm_attach alloc free M t2 v2 s2 sid ro2 = Inr (a2, t2', v2', s2')" "0 \<le> a2"
    and "i < e_size e"
  shows "\<exists>pa. translate (page_tables v1') (nat a1 + i) = Some pa \<and> translate (page_tables v2') (nat a2 + i) = Some pa"
  using attach_maps [OF assms(1-3,7,8,10,11,12,15)] attach_maps [OF assms(4-6,7,9) _ assms(13,14), of i] assms(10,15) by simp

lemma demo_attach:
  assumes "bt_get (entry_table t) 0 = Some (demo_entry\<lparr>e_counter := c\<rparr>)"
  shows "\<exists>v' s'. shm_attach bump_alloc free amd64 t empty_space s 0 ro =
    Inr (int USER_SPACE_START, set_entry t 0 (demo_entry\<lparr>e_counter := c + 1\<rparr>), v', s')"
proof -
  let ?tag = "map (\<lambda>c. of_nat (of_char c)) ''shm'' :: byte list"
  let ?w = "area_at User (SharedMemory 0) ?tag (2 ^ 28) 2"
  let ?v = "empty_space\<lparr>virtual_memory_areas := [(USER_SPACE_START, ?w)]\<rparr>"
  let ?fr = "\<lparr>fr_start = 7, fr_end = 9\<rparr>" and ?pr = "\<lparr>pg_start = 2 ^ 28, pg_end = 2 ^ 28 + 2\<rparr>"
  let ?fl = "if ro then PRESENT OR USER_ACCESSIBLE else PRESENT OR WRITABLE OR USER_ACCESSIBLE"
  let ?flags = "check_and_enforce_consistency ?w ?fl OR PRESENT"
  have e: "e_size demo_entry = 2 * PAGE_SIZE" "e_frames demo_entry = ?fr"
    by (simp_all add: demo_entry_def entry_new_def)
  have al: "alloc_vma amd64 empty_space None 2 User (SharedMemory 0) ?tag = Inr (Some ?w, ?v)"
    by (simp add: alloc_vma_def vmm_alloc_def search_range_def empty_space_def bt_range_def vaddr_add_def
        virt_new_def amd64_def USER_SPACE_START_def PAGE_SIZE_def alloc_at_def page_from_start_def in_space_bounds_def Let_def)
  have p: "page_tables ?v = empty_paging" by (simp add: empty_space_def)
  have "\<nexists>e s'. bump_alloc s' 1 = Inl e" by (simp add: bump_alloc_def)
  moreover have "page_count empty_paging = 512 ^ 4" by (simp add: page_count_def empty_paging_def)
  ultimately obtain p' s' where mp: "map_physical bump_alloc empty_paging ?fr ?pr User ?flags s = Inr (p', s')"
    using map_physical_root [OF empty_paging_wf, of ?pr ?fr ?flags bump_alloc User s] by auto
  have "map_pfr_for_vma bump_alloc ?v ?w ?fr ?fl s = Inr (Inr (), ?v\<lparr>page_tables := p'\<rparr>, s')"
    using mp unfolding map_pfr_for_vma_def map_pfr_for_partial_vma_def p
    by (simp add: frames_len_def pages_len_def Let_def)
  moreover have "vma_start ?w = USER_SPACE_START" by (simp add: vma_start_def PAGE_SIZE_def USER_SPACE_START_def)
  moreover have "as_isize USER_SPACE_START = int USER_SPACE_START" by (rule as_isize_small) (simp add: USER_SPACE_START_def)
  ultimately show ?thesis using assms al unfolding shm_attach_def
    by (simp add: e Let_def)
qed

theorem shm_attach_shares_witness:
  "\<exists>v1 s1 v2 s2 t1. shm_attach bump_alloc (\<lambda>s r. Inr s) amd64 demo_tables empty_space 20 0 False = Inr (int USER_SPACE_START, t1, v1, s1) \<and>
     shm_attach bump_alloc (\<lambda>s r. Inr s) amd64 t1 empty_space s1 0 True = Inr (int USER_SPACE_START, demo_tables\<lparr>entry_table := [(0, demo_entry\<lparr>e_counter := 2\<rparr>)]\<rparr>, v2, s2) \<and>
     (\<exists>pa. translate (page_tables v1) (USER_SPACE_START + 4097) = Some pa \<and> translate (page_tables v2) (USER_SPACE_START + 4097) = Some pa)"
proof -
  let ?t = "demo_tables\<lparr>entry_table := [(0, demo_entry\<lparr>e_counter := 1\<rparr>)]\<rparr>"
  have wf: "wf_vas empty_space" "wf_paging (page_tables empty_space)" "depth (page_tables empty_space) = 4"
    using empty_space_wf empty_paging_wf by (simp_all add: empty_space_def empty_paging_def)
  have e: "demo_entry\<lparr>e_counter := 0\<rparr> = demo_entry" "e_size demo_entry = 2 * PAGE_SIZE"
    by (simp_all add: demo_entry_def entry_new_def)
  have g: "bt_get (entry_table demo_tables) 0 = Some demo_entry" "bt_get (entry_table ?t) 0 = Some (demo_entry\<lparr>e_counter := 1\<rparr>)"
    by (simp_all add: demo_tables_def)
  obtain v1 s1 where r1: "shm_attach bump_alloc (\<lambda>s r. Inr s) amd64 demo_tables empty_space 20 0 False = Inr (int USER_SPACE_START, ?t, v1, s1)"
    using demo_attach [of demo_tables 0 "\<lambda>s r. Inr s" 20 False] g(1) by (auto simp: e set_entry_def demo_tables_def)
  obtain v2 s2 where r2: "shm_attach bump_alloc (\<lambda>s r. Inr s) amd64 ?t empty_space s1 0 True =
      Inr (int USER_SPACE_START, demo_tables\<lparr>entry_table := [(0, demo_entry\<lparr>e_counter := 2\<rparr>)]\<rparr>, v2, s2)"
    using demo_attach [OF g(2), of "\<lambda>s r. Inr s" s1 True] by (auto simp: set_entry_def)
  have "4097 < e_size demo_entry" by (simp add: e PAGE_SIZE_def)
  with shm_attach_shares [OF wf wf amd64_canonical g(1,2) _ r1 _ r2] have
    "\<exists>pa. translate (page_tables v1) (USER_SPACE_START + 4097) = Some pa \<and> translate (page_tables v2) (USER_SPACE_START + 4097) = Some pa"
    by (simp add: e)
  with r1 r2 show ?thesis by blast
qed

text \<open>
  \<open>detach\<close> compares the type of the area with the object number 0, so an attachment of any
  other object cannot be given back.
\<close>

lemma detach_other_object:
  "is_address_within_vma M v ptr = Inr (Some vma) \<Longrightarrow> vm_typ vma = SharedMemory sid \<Longrightarrow> sid \<noteq> 0 \<Longrightarrow>
     shm_detach free M t v s ptr = Inr (errno_code EINVAL, t, v, s)"
  by (simp add: shm_detach_def detach_locked_def shm_delete_pending_def)

text \<open>
  \<open>unlink\<close> releases the lock between its check of the counter and \<open>delete\<close>. When another process
  attaches the object in between, the frames are released although they are mapped.
\<close>

lemma attach_before_delete:
  assumes "bt_wf (entry_table t)" and "bt_get (naming_table t) name = Some sid"
    and "bt_get (entry_table t) sid = Some e" and "e_counter e = 0"
  shows "\<exists>t1 e1. unlink_locked t name = (0, t1, Some sid) \<and> bt_get (entry_table t1) sid = Some e1 \<and>
    shm_delete free (set_entry t1 sid (e1\<lparr>e_counter := e_counter e1 + 1\<rparr>)) s sid =
      and_then (free s (e_frames e)) (\<lambda>s'. Inr (t1\<lparr>entry_table := bt_remove (entry_table t1) sid\<rparr>, s'))"
proof -
  let ?e = "e\<lparr>e_unlinked := True\<rparr>"
  let ?t = "set_entry (t\<lparr>naming_table := bt_remove (naming_table t) name\<rparr>) sid ?e"
  have wf: "bt_wf (entry_table ?t)" using assms(1) by (simp add: set_entry_def bt_entry_simps)
  have get: "bt_get (entry_table ?t) sid = Some ?e" using assms(1) by (simp add: set_entry_def bt_entry_simps)
  have "bt_remove (bt_insert (entry_table ?t) sid f) sid = bt_remove (entry_table ?t) sid" for f
    using wf by (intro bt.extensional) (auto simp: bt_entry_simps fun_eq_iff)
  then have "shm_delete free (set_entry ?t sid f) s sid =
      and_then (free s (e_frames f)) (\<lambda>s'. Inr (?t\<lparr>entry_table := bt_remove (entry_table ?t) sid\<rparr>, s'))" for f
    using wf by (simp add: shm_delete_def set_entry_def bt_entry_simps)
  with get assms(2-4) show ?thesis
    by (intro exI [of _ ?t] exI [of _ ?e]) (simp add: unlink_locked_def Let_def)
qed

end
