(* ===== verification/Pipe.thy ===== *)
theory Pipe
  imports Errno "HOL-Library.Sublist"
begin

text \<open>
  Wait queues (\<open>sync/wait_queue.rs\<close>) and named pipes (\<open>Pipe\<close> in \<open>naming/tmpfs.rs\<close>). The
  byte queue of a pipe is a lock-free queue of another package: its operations are arguments,
  \<open>fifo_spec\<close> states what the pipe relies on.

  A read and a write are sequences of atomic steps of a thread, as the source has them, and
  the counter is updated after the queue. A thread that waits checks its condition, and if it
  does not hold, enters the wait queue, is marked by \<open>park_current\<close>, gives up the processor and
  checks again when it runs next: \<open>park_current\<close> only changes the state field of the thread and
  \<open>yield_now\<close> keeps it in the ready queue (theory \<open>Scheduler\<close>), so a waiting thread stays
  runnable. A system state has the pipe, one reading and one writing thread; the scheduler is
  an argument and may change its own state at any time.
\<close>

type_synonym tid = "uuid \<times> nat"

section \<open>Wait queues\<close>

text \<open>
  The two operations of the scheduler that wait queues use. \<open>unblock\<close> returns whether it found
  the thread; entries of threads that it does not find are dropped.
\<close>

record 's wait_ops =
  park_current :: "tid \<Rightarrow> 's \<Rightarrow> 's"
  unblock :: "tid \<Rightarrow> 's \<Rightarrow> bool \<times> 's"

fun notify_one :: "'s wait_ops \<Rightarrow> tid list \<Rightarrow> 's \<Rightarrow> bool \<times> tid list \<times> 's" where
  "notify_one K [] s = (False, [], s)"
| "notify_one K (t # queue) s = (case unblock K t s of (ok, s') \<Rightarrow>
     if ok then (True, queue, s') else notify_one K queue s')"

fun notify_all_loop :: "'s wait_ops \<Rightarrow> tid list \<Rightarrow> nat \<Rightarrow> 's \<Rightarrow> nat \<times> tid list \<times> 's" where
  "notify_all_loop K [] woke s = (woke, [], s)"
| "notify_all_loop K (t # queue) woke s = (case unblock K t s of (ok, s') \<Rightarrow>
     notify_all_loop K queue (if ok then woke + 1 else woke) s')"

definition notify_all :: "'s wait_ops \<Rightarrow> tid list \<Rightarrow> 's \<Rightarrow> nat \<times> tid list \<times> 's" where
  "notify_all K queue s = notify_all_loop K queue 0 s"

text \<open>One turn of the loop in \<open>wait\<close>: go on, or queue up.\<close>

definition wait_turn :: "'s wait_ops \<Rightarrow> bool \<Rightarrow> tid \<Rightarrow> tid list \<Rightarrow> 's \<Rightarrow> bool \<times> tid list \<times> 's" where
  "wait_turn K pred t queue s = (if pred then (True, queue, s) else (False, queue @ [t], park_current K t s))"

lemma notify_one_suffix: "notify_one K queue s = (ok, queue', s') \<Longrightarrow> suffix queue' queue"
  by (induction queue arbitrary: s) (auto split: prod.splits if_splits intro: suffix_ConsI)

lemma notify_all_empties: "notify_all_loop K queue woke s = (n, queue', s') \<Longrightarrow> queue' = [] \<and> n \<le> woke + length queue"
  by (induction queue arbitrary: woke s) (fastforce split: prod.splits if_splits)+

section \<open>Pipes\<close>

definition PIPE_SIZE :: nat where
  "PIPE_SIZE = 0x1000"

text \<open>The options a named object can be opened with.\<close>

type_synonym open_options = "64 word"

definition READONLY :: open_options where "READONLY = 1"
definition READWRITE :: open_options where "READWRITE = 2"
definition CREATE :: open_options where "CREATE = 4"
definition EXCLUSIVE :: open_options where "EXCLUSIVE = 8"
definition DIRECTORY :: open_options where "DIRECTORY = 16"
definition WRITEONLY :: open_options where "WRITEONLY = 32"

text \<open>A bounded queue: creation with a capacity, \<open>try_enqueue\<close> and \<open>try_dequeue\<close>.\<close>

record 'q queue_ops =
  q_new :: "nat \<Rightarrow> 'q"
  q_enq :: "'q \<Rightarrow> byte \<Rightarrow> 'q option"
  q_deq :: "'q \<Rightarrow> (byte \<times> 'q) option"

record 'q pipe =
  pq :: 'q
  pcount :: "64 word"
  open_wq :: "tid list"
  open_epoch :: "64 word"
  rx_wq :: "tid list"
  wx_wq :: "tid list"
  reader_open :: bool
  writer_open :: bool

definition pipe_new :: "'q queue_ops \<Rightarrow> 'q pipe" where
  "pipe_new Q = \<lparr>pq = q_new Q PIPE_SIZE, pcount = 0, open_wq = [], open_epoch = 0, rx_wq = [], wx_wq = [],
     reader_open = False, writer_open = False\<rparr>"

definition has_data :: "'q pipe \<Rightarrow> bool" where
  "has_data p \<longleftrightarrow> pcount p > 0"

definition has_space :: "'q pipe \<Rightarrow> bool" where
  "has_space p \<longleftrightarrow> pcount p < of_nat PIPE_SIZE"

definition bump_epoch_and_wake_open :: "'s wait_ops \<Rightarrow> 'q pipe \<Rightarrow> 's \<Rightarrow> 'q pipe \<times> 's" where
  "bump_epoch_and_wake_open K p s = (case notify_all K (open_wq p) s of (_, queue, s') \<Rightarrow>
     (p\<lparr>open_epoch := open_epoch p + 1, open_wq := queue\<rparr>, s'))"

text \<open>\<open>open\<close> up to the wait for the other side, and the condition it waits for.\<close>

definition pipe_open_locked ::
  "'s wait_ops \<Rightarrow> 'q pipe \<Rightarrow> open_options \<Rightarrow> 's \<Rightarrow> (errno + unit) \<times> 'q pipe \<times> 's" where
  "pipe_open_locked K p flags s =
     (if flags = READONLY then
        (if reader_open p then (Inl EBUSY, p, s)
         else case bump_epoch_and_wake_open K (p\<lparr>reader_open := True\<rparr>) s of (p', s') \<Rightarrow> (Inr (), p', s'))
      else if flags = WRITEONLY then
        (if writer_open p then (Inl EBUSY, p, s)
         else case bump_epoch_and_wake_open K (p\<lparr>writer_open := True\<rparr>) s of (p', s') \<Rightarrow> (Inr (), p', s'))
      else (Inl EINVAL, p, s))"

definition pipe_open_ready :: "'q pipe \<Rightarrow> open_options \<Rightarrow> bool" where
  "pipe_open_ready p flags = (if flags = READONLY then writer_open p else reader_open p)"

text \<open>
  The turns of \<open>wait_open\<close>: check the condition, remember the epoch, and wait until the
  condition holds or some side was opened or closed in between.
\<close>

datatype open_pc = OCheck | OWait "64 word" | OReturn

definition wait_open_step ::
  "'s wait_ops \<Rightarrow> tid \<Rightarrow> 'q pipe \<Rightarrow> open_options \<Rightarrow> open_pc \<Rightarrow> 's \<Rightarrow> 'q pipe \<times> open_pc \<times> 's" where
  "wait_open_step K me p flags pc s = (case pc of
       OCheck \<Rightarrow> (p, if pipe_open_ready p flags then OReturn else OWait (open_epoch p), s)
     | OWait e \<Rightarrow> (case wait_turn K (pipe_open_ready p flags \<or> open_epoch p \<noteq> e) me (open_wq p) s of (go, queue, s') \<Rightarrow>
         (p\<lparr>open_wq := queue\<rparr>, if go then OCheck else pc, s'))
     | OReturn \<Rightarrow> (p, pc, s))"

text \<open>A side that waits returns after the other side was opened.\<close>

lemma open_rendezvous:
  assumes "flags = READONLY \<and> other = WRITEONLY \<or> flags = WRITEONLY \<and> other = READONLY"
    and "pipe_open_locked K p other s = (Inr (), p', s')"
  shows "wait_open_step K me p' flags (OWait e) s' = (p', OCheck, s')"
    and "wait_open_step K me p' flags OCheck s' = (p', OReturn, s')"
proof -
  define q where "q = (if other = READONLY then p\<lparr>reader_open := True\<rparr> else p\<lparr>writer_open := True\<rparr>)"
  have b: "bump_epoch_and_wake_open K q s = (p', s')"
    using assms by (auto simp: pipe_open_locked_def q_def READONLY_def WRITEONLY_def split: if_splits prod.splits)
  then have "reader_open p' = reader_open q" "writer_open p' = writer_open q"
    by (auto simp: bump_epoch_and_wake_open_def split: prod.splits)
  then have "pipe_open_ready p' flags"
    using assms(1) by (auto simp: q_def pipe_open_ready_def READONLY_def WRITEONLY_def)
  then show "wait_open_step K me p' flags (OWait e) s' = (p', OCheck, s')"
    "wait_open_step K me p' flags OCheck s' = (p', OReturn, s')" by (simp_all add: wait_open_step_def wait_turn_def)
qed

definition pipe_close ::
  "'q queue_ops \<Rightarrow> 's wait_ops \<Rightarrow> 'q pipe \<Rightarrow> open_options \<Rightarrow> 's \<Rightarrow> 'q pipe \<times> 's" where
  "pipe_close Q K p flags s =
     (let (p1, s1) =
        (if flags = READONLY then
           (case bump_epoch_and_wake_open K (p\<lparr>reader_open := False\<rparr>) s of (p', s') \<Rightarrow>
              case notify_all K (wx_wq p') s' of (_, queue, s'') \<Rightarrow> (p'\<lparr>wx_wq := queue\<rparr>, s''))
         else if flags = WRITEONLY then
           (case bump_epoch_and_wake_open K (p\<lparr>writer_open := False\<rparr>) s of (p', s') \<Rightarrow>
              case notify_all K (rx_wq p') s' of (_, queue, s'') \<Rightarrow> (p'\<lparr>rx_wq := queue\<rparr>, s''))
         else (p, s))
      in if \<not> reader_open p1 \<and> \<not> writer_open p1
         then (p1\<lparr>pq := q_new Q PIPE_SIZE, pcount := 0\<rparr>, s1) else (p1, s1))"

section \<open>Reading\<close>

datatype read_pc = RWait | RCheck | RLoop | RSub byte | RWaitMore | RCheckMore | RNotify | RDone "errno + nat"

record reader =
  r_pc :: read_pc
  r_len :: nat
  r_buf :: "byte list"

definition read_begin :: "nat \<Rightarrow> open_options \<Rightarrow> reader" where
  "read_begin len options =
     \<lparr>r_pc = (if options = WRITEONLY then RDone (Inl EBADF) else if len = 0 then RDone (Inr 0) else RWait),
      r_len = len, r_buf = []\<rparr>"

definition read_step ::
  "'q queue_ops \<Rightarrow> 's wait_ops \<Rightarrow> tid \<Rightarrow> 'q pipe \<Rightarrow> reader \<Rightarrow> 's \<Rightarrow> 'q pipe \<times> reader \<times> 's" where
  "read_step Q K me p r s = (case r_pc r of
       RWait \<Rightarrow> (case wait_turn K (has_data p \<or> \<not> writer_open p) me (rx_wq p) s of (go, queue, s') \<Rightarrow>
         (p\<lparr>rx_wq := queue\<rparr>, if go then r\<lparr>r_pc := RCheck\<rparr> else r, s'))
     | RCheck \<Rightarrow> (p, r\<lparr>r_pc := if \<not> has_data p \<and> \<not> writer_open p then RDone (Inr 0) else RLoop\<rparr>, s)
     | RLoop \<Rightarrow>
         if length (r_buf r) \<ge> r_len r then (p, r\<lparr>r_pc := RNotify\<rparr>, s)
         else (case q_deq Q (pq p) of
             Some (b, q) \<Rightarrow> (p\<lparr>pq := q\<rparr>, r\<lparr>r_pc := RSub b\<rparr>, s)
           | None \<Rightarrow> (p, r\<lparr>r_pc := RWaitMore\<rparr>, s))
     | RSub b \<Rightarrow> (p\<lparr>pcount := pcount p - 1\<rparr>, r\<lparr>r_pc := RLoop, r_buf := r_buf r @ [b]\<rparr>, s)
     | RWaitMore \<Rightarrow> (case wait_turn K (has_data p \<or> \<not> writer_open p) me (rx_wq p) s of (go, queue, s') \<Rightarrow>
         (p\<lparr>rx_wq := queue\<rparr>, if go then r\<lparr>r_pc := RCheckMore\<rparr> else r, s'))
     | RCheckMore \<Rightarrow> (p, r\<lparr>r_pc := if \<not> has_data p then RNotify else RLoop\<rparr>, s)
     | RNotify \<Rightarrow>
         if length (r_buf r) > 0 then
           (case notify_one K (wx_wq p) s of (_, queue, s') \<Rightarrow>
              (p\<lparr>wx_wq := queue\<rparr>, r\<lparr>r_pc := RDone (Inr (length (r_buf r)))\<rparr>, s'))
         else (p, r\<lparr>r_pc := RDone (Inr (length (r_buf r)))\<rparr>, s)
     | RDone _ \<Rightarrow> (p, r, s))"

section \<open>Writing\<close>

datatype write_pc = WWait | WCheck | WLoop | WAdd | WWaitMore | WCheckMore | WNotify | WDone "errno + nat"

record writer =
  w_pc :: write_pc
  w_data :: "byte list"
  w_done :: nat

definition write_begin :: "byte list \<Rightarrow> open_options \<Rightarrow> writer" where
  "write_begin bs options =
     \<lparr>w_pc = (if options = READONLY then WDone (Inl EBADF) else if bs = [] then WDone (Inr 0) else WWait),
      w_data = bs, w_done = 0\<rparr>"

definition write_step ::
  "'q queue_ops \<Rightarrow> 's wait_ops \<Rightarrow> tid \<Rightarrow> 'q pipe \<Rightarrow> writer \<Rightarrow> 's \<Rightarrow> 'q pipe \<times> writer \<times> 's" where
  "write_step Q K me p w s = (case w_pc w of
       WWait \<Rightarrow> (case wait_turn K (has_space p \<or> \<not> reader_open p) me (wx_wq p) s of (go, queue, s') \<Rightarrow>
         (p\<lparr>wx_wq := queue\<rparr>, if go then w\<lparr>w_pc := WCheck\<rparr> else w, s'))
     | WCheck \<Rightarrow> (p, w\<lparr>w_pc := if \<not> reader_open p then WDone (Inl EPIPE) else WLoop\<rparr>, s)
     | WLoop \<Rightarrow>
         if w_done w \<ge> length (w_data w) then (p, w\<lparr>w_pc := WNotify\<rparr>, s)
         else (case q_enq Q (pq p) (w_data w ! w_done w) of
             Some q \<Rightarrow> (p\<lparr>pq := q\<rparr>, w\<lparr>w_pc := WAdd\<rparr>, s)
           | None \<Rightarrow> (p, w\<lparr>w_pc := WWaitMore\<rparr>, s))
     | WAdd \<Rightarrow> (p\<lparr>pcount := pcount p + 1\<rparr>, w\<lparr>w_pc := WLoop, w_done := w_done w + 1\<rparr>, s)
     | WWaitMore \<Rightarrow> (case wait_turn K (has_space p \<or> \<not> reader_open p) me (wx_wq p) s of (go, queue, s') \<Rightarrow>
         (p\<lparr>wx_wq := queue\<rparr>, if go then w\<lparr>w_pc := WCheckMore\<rparr> else w, s'))
     | WCheckMore \<Rightarrow> (p, w\<lparr>w_pc := if \<not> reader_open p then WDone (Inl EPIPE) else WLoop\<rparr>, s)
     | WNotify \<Rightarrow>
         if w_done w > 0 then
           (case notify_one K (rx_wq p) s of (_, queue, s') \<Rightarrow>
              (p\<lparr>rx_wq := queue\<rparr>, w\<lparr>w_pc := WDone (Inr (w_done w))\<rparr>, s'))
         else (p, w\<lparr>w_pc := WDone (Inr (w_done w))\<rparr>, s)
     | WDone _ \<Rightarrow> (p, w, s))"

section \<open>A reader and a writer\<close>

text \<open>What the pipe relies on: a first-in first-out queue that refuses bytes only when it is full.\<close>

definition fifo_spec :: "'q queue_ops \<Rightarrow> ('q \<Rightarrow> byte list) \<Rightarrow> bool" where
  "fifo_spec Q contents \<longleftrightarrow> contents (q_new Q PIPE_SIZE) = [] \<and>
     (\<forall>q b. case q_enq Q q b of Some q' \<Rightarrow> length (contents q) < PIPE_SIZE \<and> contents q' = contents q @ [b]
        | None \<Rightarrow> PIPE_SIZE \<le> length (contents q)) \<and>
     (\<forall>q. case q_deq Q q of Some (b, q') \<Rightarrow> contents q = b # contents q' | None \<Rightarrow> contents q = [])"

record ('q, 's) psys =
  sp :: "'q pipe"
  sr :: reader
  sw :: writer
  ss :: 's

text \<open>
  Steps of the two threads in any order, changes of the scheduler's own state, and the end of
  each side, which is closed only after its call has returned.
\<close>

inductive pipe_sys :: "'q queue_ops \<Rightarrow> 's wait_ops \<Rightarrow> ('q, 's) psys \<Rightarrow> ('q, 's) psys \<Rightarrow> bool" for Q K where
  reader: "read_step Q K me (sp S) (sr S) (ss S) = (p, r, s) \<Longrightarrow> pipe_sys Q K S \<lparr>sp = p, sr = r, sw = sw S, ss = s\<rparr>"
| writer: "write_step Q K me (sp S) (sw S) (ss S) = (p, w, s) \<Longrightarrow> pipe_sys Q K S \<lparr>sp = p, sr = sr S, sw = w, ss = s\<rparr>"
| sched: "pipe_sys Q K S (S\<lparr>ss := s\<rparr>)"
| close_reader: "r_pc (sr S) = RDone x \<Longrightarrow> pipe_close Q K (sp S) READONLY (ss S) = (p, s) \<Longrightarrow>
    pipe_sys Q K S \<lparr>sp = p, sr = sr S, sw = sw S, ss = s\<rparr>"
| close_writer: "w_pc (sw S) = WDone x \<Longrightarrow> pipe_close Q K (sp S) WRITEONLY (ss S) = (p, s) \<Longrightarrow>
    pipe_sys Q K S \<lparr>sp = p, sr = sr S, sw = sw S, ss = s\<rparr>"

definition pipe_start :: "'q queue_ops \<Rightarrow> nat \<Rightarrow> byte list \<Rightarrow> 's \<Rightarrow> ('q, 's) psys" where
  "pipe_start Q n bs s = \<lparr>sp = (pipe_new Q)\<lparr>reader_open := True, writer_open := True\<rparr>,
     sr = read_begin n READONLY, sw = write_begin bs WRITEONLY, ss = s\<rparr>"

definition pipe_reach :: "'q queue_ops \<Rightarrow> 's wait_ops \<Rightarrow> nat \<Rightarrow> byte list \<Rightarrow> ('q, 's) psys \<Rightarrow> bool" where
  "pipe_reach Q K n bs S \<longleftrightarrow> (\<exists>s. (pipe_sys Q K)\<^sup>*\<^sup>* (pipe_start Q n bs s) S)"

text \<open>Bytes taken from the queue but not yet stored, and bytes put into the queue.\<close>

definition in_flight :: "reader \<Rightarrow> byte list" where
  "in_flight r = (case r_pc r of RSub b \<Rightarrow> [b] | _ \<Rightarrow> [])"

definition enqueued :: "writer \<Rightarrow> nat" where
  "enqueued w = w_done w + (if w_pc w = WAdd then 1 else 0)"

definition reader_done :: "reader \<Rightarrow> bool" where
  "reader_done r \<longleftrightarrow> (case r_pc r of RDone _ \<Rightarrow> True | _ \<Rightarrow> False)"

definition writer_done :: "writer \<Rightarrow> bool" where
  "writer_done w \<longleftrightarrow> (case w_pc w of WDone _ \<Rightarrow> True | _ \<Rightarrow> False)"

text \<open>
  The invariant: what was read, what is in flight and what is in the queue is what was put in;
  the counter is the number of bytes whose counting is complete, modulo the word size.
\<close>

definition data_inv :: "('q \<Rightarrow> byte list) \<Rightarrow> byte list \<Rightarrow> 'q pipe \<Rightarrow> reader \<Rightarrow> writer \<Rightarrow> bool" where
  "data_inv contents bs p r w \<longleftrightarrow> w_data w = bs \<and> enqueued w \<le> length bs \<and>
     (\<not> reader_open p \<longrightarrow> reader_done r) \<and> (\<not> writer_open p \<longrightarrow> writer_done w) \<and>
     (\<exists>rest. r_buf r @ in_flight r @ rest = take (enqueued w) bs \<and>
        (reader_open p \<or> writer_open p \<longrightarrow> rest = contents (pq p) \<and>
           pcount p = of_nat (w_done w) - of_nat (length (r_buf r))))"

text \<open>A read returns nothing only for an empty buffer or when the writer left without a byte.\<close>

fun eof_inv :: "read_pc \<Rightarrow> nat \<Rightarrow> byte list \<Rightarrow> bool \<Rightarrow> nat \<Rightarrow> bool" where
  "eof_inv RWait len buf open_w done_w \<longleftrightarrow> buf = []"
| "eof_inv RCheck len buf open_w done_w \<longleftrightarrow> buf = [] \<and> (0 < done_w \<or> \<not> open_w)"
| "eof_inv RLoop len buf open_w done_w \<longleftrightarrow> buf \<noteq> [] \<or> 0 < done_w"
| "eof_inv (RSub b) len buf open_w done_w \<longleftrightarrow> True"
| "eof_inv RWaitMore len buf open_w done_w \<longleftrightarrow> buf \<noteq> []"
| "eof_inv RCheckMore len buf open_w done_w \<longleftrightarrow> buf \<noteq> []"
| "eof_inv RNotify len buf open_w done_w \<longleftrightarrow> buf \<noteq> [] \<or> len = 0"
| "eof_inv (RDone (Inl e)) len buf open_w done_w \<longleftrightarrow> True"
| "eof_inv (RDone (Inr m)) len buf open_w done_w \<longleftrightarrow>
     m = length buf \<and> (m = 0 \<longrightarrow> len = 0 \<or> \<not> open_w \<and> done_w = 0)"

definition pipe_inv :: "('q \<Rightarrow> byte list) \<Rightarrow> byte list \<Rightarrow> ('q, 's) psys \<Rightarrow> bool" where
  "pipe_inv contents bs S \<longleftrightarrow> data_inv contents bs (sp S) (sr S) (sw S) \<and>
     eof_inv (r_pc (sr S)) (r_len (sr S)) (r_buf (sr S)) (writer_open (sp S)) (w_done (sw S))"

lemma fifo_deq:
  assumes "fifo_spec Q contents"
  shows "q_deq Q q = Some (b, q') \<Longrightarrow> contents q = b # contents q'" and "q_deq Q q = None \<Longrightarrow> contents q = []"
  using assms by (auto simp: fifo_spec_def dest: spec [of _ q])

lemma fifo_enq:
  assumes "fifo_spec Q contents"
  shows "q_enq Q q b = Some q' \<Longrightarrow> length (contents q) < PIPE_SIZE \<and> contents q' = contents q @ [b]"
    and "q_enq Q q b = None \<Longrightarrow> PIPE_SIZE \<le> length (contents q)"
proof -
  have *: "case q_enq Q q b of Some q' \<Rightarrow> length (contents q) < PIPE_SIZE \<and> contents q' = contents q @ [b]
      | None \<Rightarrow> PIPE_SIZE \<le> length (contents q)" using assms by (simp add: fifo_spec_def)
  show "q_enq Q q b = Some q' \<Longrightarrow> length (contents q) < PIPE_SIZE \<and> contents q' = contents q @ [b]"
    "q_enq Q q b = None \<Longrightarrow> PIPE_SIZE \<le> length (contents q)" using * by auto
qed

lemma data_inv_reader:
  assumes "data_inv contents bs p r w" and "r_buf r' @ in_flight r' = r_buf r @ in_flight r" "r_buf r' = r_buf r"
    and "pq p' = pq p" "pcount p' = pcount p" "reader_open p' = reader_open p" "writer_open p' = writer_open p"
    and "reader_done r \<longrightarrow> reader_done r'"
  shows "data_inv contents bs p' r' w"
  using assms by (auto simp: data_inv_def append_assoc [symmetric] simp del: append_assoc)

lemma count_word: "n < 2 ^ 64 \<Longrightarrow> (of_nat n :: 64 word) = 0 \<longleftrightarrow> n = 0"
  by (auto simp: word_of_nat_eq_0_iff dest: dvd_imp_le)

lemma not_done_open: "data_inv contents bs p r w \<Longrightarrow> \<not> reader_done r \<Longrightarrow> reader_open p"
  by (auto simp: data_inv_def)

lemma pipe_invI:
  "data_inv contents bs p r w \<Longrightarrow> eof_inv (r_pc r) (r_len r) (r_buf r) (writer_open p) (w_done w) \<Longrightarrow>
   pipe_inv contents bs \<lparr>sp = p, sr = r, sw = w, ss = s\<rparr>"
  by (simp add: pipe_inv_def)

text \<open>Steps of the reader that move no data.\<close>

lemma reader_moves:
  assumes d: "data_inv contents bs p r w" and "in_flight r = []" "in_flight r' = []" "r_buf r' = r_buf r"
    and "\<not> reader_done r" and "pq p' = pq p" "pcount p' = pcount p" "reader_open p' = reader_open p"
    "writer_open p' = writer_open p"
    and "eof_inv (r_pc r') (r_len r') (r_buf r') (writer_open p) (w_done w)"
  shows "pipe_inv contents bs \<lparr>sp = p', sr = r', sw = w, ss = s\<rparr>"
  by (rule pipe_invI [OF data_inv_reader [OF d]]) (use assms in auto)

lemma reader_takes:
  assumes d: "data_inv contents bs p r w" and "in_flight r = []" "\<not> reader_done r" "contents (pq p) = b # contents q"
  shows "pipe_inv contents bs \<lparr>sp = p\<lparr>pq := q\<rparr>, sr = r\<lparr>r_pc := RSub b\<rparr>, sw = w, ss = s\<rparr>"
  by (rule pipe_invI) (use assms in \<open>auto simp: data_inv_def in_flight_def\<close>)

lemma reader_counts:
  assumes d: "data_inv contents bs p r w" and "r_pc r = RSub b"
  shows "pipe_inv contents bs \<lparr>sp = p\<lparr>pcount := pcount p - 1\<rparr>, sr = r\<lparr>r_pc := RLoop, r_buf := r_buf r @ [b]\<rparr>,
    sw = w, ss = s\<rparr>"
  by (rule pipe_invI) (use assms in \<open>auto simp: data_inv_def in_flight_def reader_done_def\<close>)

lemma read_step_inv:
  assumes Q: "fifo_spec Q contents" and len: "length bs < 2 ^ 64"
    and inv: "pipe_inv contents bs S" and step: "read_step Q K me (sp S) (sr S) (ss S) = (p, r, s)"
  shows "pipe_inv contents bs \<lparr>sp = p, sr = r, sw = sw S, ss = s\<rparr>"
proof (cases "reader_done (sr S)")
  case True
  then obtain x where "r_pc (sr S) = RDone x" by (auto simp: reader_done_def split: read_pc.splits)
  with step inv show ?thesis by (cases S) (simp add: pipe_inv_def read_step_def)
next
  case False
  let ?p = "sp S" and ?r = "sr S" and ?w = "sw S"
  have d: "data_inv contents bs ?p ?r ?w" and e: "eof_inv (r_pc ?r) (r_len ?r) (r_buf ?r) (writer_open ?p) (w_done ?w)"
    using inv by (auto simp: pipe_inv_def)
  have wd: "w_done ?w < 2 ^ 64" using d len by (auto simp: data_inv_def enqueued_def split: if_splits)
  have op: "reader_open ?p" by (rule not_done_open [OF d False])
  then have cnt: "pcount ?p = of_nat (w_done ?w) - of_nat (length (r_buf ?r))"
    and con: "r_buf ?r @ in_flight ?r @ contents (pq ?p) = take (enqueued ?w) bs"
    using d by (auto simp: data_inv_def)
  have data: "0 < w_done ?w \<longleftrightarrow> has_data ?p" if "r_buf ?r = []"
    using that cnt wd by (auto simp: has_data_def word_neq_0_conv [symmetric] count_word)
  note simps = read_step_def wait_turn_def in_flight_def reader_done_def
  show ?thesis
  proof (cases "r_pc ?r")
    case RWait
    then show ?thesis using step e data False
      by (intro reader_moves [OF d]) (auto simp: simps split: if_splits)
  next
    case RCheck
    then show ?thesis using step e data False
      by (intro reader_moves [OF d]) (auto simp: simps split: if_splits)
  next
    case RLoop
    show ?thesis
    proof (cases "length (r_buf ?r) \<ge> r_len ?r")
      case True
      with RLoop step e False show ?thesis by (intro reader_moves [OF d]) (auto simp: simps)
    next
      case more: False
      show ?thesis
      proof (cases "q_deq Q (pq ?p)")
        case None
        have "contents (pq ?p) = []" by (rule fifo_deq(2) [OF Q None])
        then have "r_buf ?r \<noteq> []" using con e RLoop d by (auto simp: in_flight_def data_inv_def enqueued_def)
        with RLoop more None step False show ?thesis by (intro reader_moves [OF d]) (auto simp: simps)
      next
        case (Some bq)
        then obtain b q where bq: "q_deq Q (pq ?p) = Some (b, q)" by (cases bq) auto
        then show ?thesis using RLoop more step reader_takes [OF d _ False fifo_deq(1) [OF Q bq]]
          by (auto simp: in_flight_def read_step_def)
      qed
    qed
  next
    case (RSub b)
    with step reader_counts [OF d RSub] show ?thesis by (simp add: read_step_def)
  next
    case RWaitMore
    then show ?thesis using step e False
      by (intro reader_moves [OF d]) (auto simp: simps split: if_splits)
  next
    case RCheckMore
    then show ?thesis using step e False
      by (intro reader_moves [OF d]) (auto simp: simps split: if_splits)
  next
    case RNotify
    then show ?thesis using step e False
      by (intro reader_moves [OF d]) (auto simp: simps split: if_splits prod.splits)
  next
    case (RDone x)
    with False show ?thesis by (simp add: reader_done_def)
  qed
qed

text \<open>Steps of the writer: those that move no data, and the two that do.\<close>

lemma eof_mono: "eof_inv pc len buf True n \<Longrightarrow> n \<le> n' \<Longrightarrow> eof_inv pc len buf True n'"
  by (cases "(pc, len, buf, True, n)" rule: eof_inv.cases) auto

lemma writer_still_open: "data_inv contents bs p r w \<Longrightarrow> \<not> writer_done w \<Longrightarrow> writer_open p"
  by (auto simp: data_inv_def)

lemma writer_moves:
  assumes d: "data_inv contents bs p r w" and e: "eof_inv (r_pc r) (r_len r) (r_buf r) (writer_open p) (w_done w)"
    and "w_pc w \<noteq> WAdd" "w_pc w' \<noteq> WAdd" "w_done w' = w_done w" "w_data w' = w_data w"
    and "\<not> writer_done w" and "pq p' = pq p" "pcount p' = pcount p" "reader_open p' = reader_open p"
    "writer_open p' = writer_open p"
  shows "pipe_inv contents bs \<lparr>sp = p', sr = r, sw = w', ss = s\<rparr>"
  by (rule pipe_invI) (use assms in \<open>auto simp: data_inv_def enqueued_def\<close>)

lemma writer_puts:
  assumes d: "data_inv contents bs p r w" and e: "eof_inv (r_pc r) (r_len r) (r_buf r) (writer_open p) (w_done w)"
    and "w_pc w = WLoop" "w_done w < length (w_data w)" "contents q = contents (pq p) @ [w_data w ! w_done w]"
  shows "pipe_inv contents bs \<lparr>sp = p\<lparr>pq := q\<rparr>, sr = r, sw = w\<lparr>w_pc := WAdd\<rparr>, ss = s\<rparr>"
  by (rule pipe_invI)
    (use assms writer_still_open [OF d] in \<open>auto simp: data_inv_def enqueued_def writer_done_def take_Suc_conv_app_nth\<close>)

lemma writer_counts:
  assumes d: "data_inv contents bs p r w" and e: "eof_inv (r_pc r) (r_len r) (r_buf r) (writer_open p) (w_done w)"
    and "w_pc w = WAdd"
  shows "pipe_inv contents bs \<lparr>sp = p\<lparr>pcount := pcount p + 1\<rparr>, sr = r,
    sw = w\<lparr>w_pc := WLoop, w_done := w_done w + 1\<rparr>, ss = s\<rparr>"
proof -
  have "writer_open p" using writer_still_open [OF d] assms(3) by (simp add: writer_done_def)
  then have "eof_inv (r_pc r) (r_len r) (r_buf r) (writer_open p) (w_done w + 1)"
    using eof_mono [of _ _ _ "w_done w" "w_done w + 1"] e by simp
  with \<open>writer_open p\<close> show ?thesis
    by (intro pipe_invI) (use assms in \<open>auto simp: data_inv_def enqueued_def writer_done_def\<close>)
qed

lemma write_step_inv:
  assumes Q: "fifo_spec Q contents"
    and inv: "pipe_inv contents bs S" and step: "write_step Q K me (sp S) (sw S) (ss S) = (p, w, s)"
  shows "pipe_inv contents bs \<lparr>sp = p, sr = sr S, sw = w, ss = s\<rparr>"
proof (cases "writer_done (sw S)")
  case True
  then obtain x where "w_pc (sw S) = WDone x" by (auto simp: writer_done_def split: write_pc.splits)
  with step inv show ?thesis by (cases S) (simp add: pipe_inv_def write_step_def)
next
  case False
  let ?p = "sp S" and ?r = "sr S" and ?w = "sw S"
  have d: "data_inv contents bs ?p ?r ?w" and e: "eof_inv (r_pc ?r) (r_len ?r) (r_buf ?r) (writer_open ?p) (w_done ?w)"
    using inv by (auto simp: pipe_inv_def)
  note simps = write_step_def wait_turn_def writer_done_def
  show ?thesis
  proof (cases "w_pc ?w")
    case WLoop
    show ?thesis
    proof (cases "q_enq Q (pq ?p) (w_data ?w ! w_done ?w)")
      case None
      with WLoop step False show ?thesis by (intro writer_moves [OF d e]) (auto simp: simps split: if_splits)
    next
      case (Some q)
      show ?thesis
      proof (cases "w_done ?w < length (w_data ?w)")
        case True
        have "contents q = contents (pq ?p) @ [w_data ?w ! w_done ?w]" using fifo_enq(1) [OF Q Some] by simp
        from writer_puts [OF d e WLoop True this] True Some WLoop step show ?thesis by (auto simp: write_step_def)
      next
        case all: False
        with WLoop step False show ?thesis by (intro writer_moves [OF d e]) (auto simp: simps)
      qed
    qed
  next
    case WAdd
    with step writer_counts [OF d e WAdd] show ?thesis by (simp add: write_step_def)
  next
    case (WDone x)
    with False show ?thesis by (simp add: writer_done_def)
  qed (use step False in \<open>intro writer_moves [OF d e]; auto simp: simps split: if_splits prod.splits\<close>)+
qed

section \<open>Closing\<close>

lemma bump_epoch_fields:
  assumes "bump_epoch_and_wake_open K p s = (p', s')"
  shows "pq p' = pq p" "pcount p' = pcount p" "reader_open p' = reader_open p" "writer_open p' = writer_open p"
  using assms by (auto simp: bump_epoch_and_wake_open_def split: prod.splits)

lemma ro_wo: "READONLY \<noteq> WRITEONLY"
  by (simp add: READONLY_def WRITEONLY_def)

lemma pipe_close_fields:
  assumes "pipe_close Q K p flags s = (p', s')"
  shows "reader_open p' \<longleftrightarrow> reader_open p \<and> flags \<noteq> READONLY"
    and "writer_open p' \<longleftrightarrow> writer_open p \<and> flags \<noteq> WRITEONLY"
    and "reader_open p' \<or> writer_open p' \<Longrightarrow> pq p' = pq p \<and> pcount p' = pcount p"
proof -
  let ?reset = "\<lambda>p. if \<not> reader_open p \<and> \<not> writer_open p then p\<lparr>pq := q_new Q PIPE_SIZE, pcount := 0\<rparr> else p"
  obtain p1 where p1: "p' = ?reset p1" "reader_open p1 \<longleftrightarrow> reader_open p \<and> flags \<noteq> READONLY"
    "writer_open p1 \<longleftrightarrow> writer_open p \<and> flags \<noteq> WRITEONLY" "pq p1 = pq p" "pcount p1 = pcount p"
  proof (cases "flags = READONLY")
    case True
    obtain p2 s2 where b: "bump_epoch_and_wake_open K (p\<lparr>reader_open := False\<rparr>) s = (p2, s2)" by fastforce
    obtain n queue s3 where "notify_all K (wx_wq p2) s2 = (n, queue, s3)" by (metis surj_pair)
    with True b assms that [of "p2\<lparr>wx_wq := queue\<rparr>"] bump_epoch_fields [OF b] ro_wo show ?thesis
      by (simp add: pipe_close_def split: if_splits)
  next
    case not_ro: False
    show ?thesis
    proof (cases "flags = WRITEONLY")
      case True
      obtain p2 s2 where b: "bump_epoch_and_wake_open K (p\<lparr>writer_open := False\<rparr>) s = (p2, s2)" by fastforce
      obtain n queue s3 where "notify_all K (rx_wq p2) s2 = (n, queue, s3)" by (metis surj_pair)
      with True not_ro b assms that [of "p2\<lparr>rx_wq := queue\<rparr>"] bump_epoch_fields [OF b] show ?thesis
        by (simp add: pipe_close_def split: if_splits)
    next
      case False
      with not_ro assms that [of p] show ?thesis by (simp add: pipe_close_def split: if_splits)
    qed
  qed
  from p1 show "reader_open p' \<longleftrightarrow> reader_open p \<and> flags \<noteq> READONLY"
    "writer_open p' \<longleftrightarrow> writer_open p \<and> flags \<noteq> WRITEONLY"
    "reader_open p' \<or> writer_open p' \<Longrightarrow> pq p' = pq p \<and> pcount p' = pcount p" by (auto split: if_splits)
qed

lemma close_inv:
  assumes inv: "pipe_inv contents bs S" and step: "pipe_close Q K (sp S) flags (ss S) = (p, s)"
    and "flags = READONLY \<Longrightarrow> reader_done (sr S)" and "flags = WRITEONLY \<Longrightarrow> writer_done (sw S)"
  shows "pipe_inv contents bs \<lparr>sp = p, sr = sr S, sw = sw S, ss = s\<rparr>"
proof (rule pipe_invI)
  note f = pipe_close_fields [OF step]
  have "data_inv contents bs (sp S) (sr S) (sw S)" using inv by (simp add: pipe_inv_def)
  then obtain rest where d: "w_data (sw S) = bs" "enqueued (sw S) \<le> length bs" "\<not> reader_open (sp S) \<longrightarrow> reader_done (sr S)"
    "\<not> writer_open (sp S) \<longrightarrow> writer_done (sw S)" "r_buf (sr S) @ in_flight (sr S) @ rest = take (enqueued (sw S)) bs"
    "reader_open (sp S) \<or> writer_open (sp S) \<longrightarrow> rest = contents (pq (sp S)) \<and>
       pcount (sp S) = of_nat (w_done (sw S)) - of_nat (length (r_buf (sr S)))"
    by (auto simp: data_inv_def)
  have "reader_open p \<or> writer_open p \<longrightarrow> rest = contents (pq p) \<and>
      pcount p = of_nat (w_done (sw S)) - of_nat (length (r_buf (sr S)))" using d(6) f by simp
  moreover have "\<not> reader_open p \<longrightarrow> reader_done (sr S)" "\<not> writer_open p \<longrightarrow> writer_done (sw S)"
    using d(3,4) f(1,2) assms(3,4) by auto
  ultimately show "data_inv contents bs p (sr S) (sw S)" using d(1,2,5) unfolding data_inv_def
    by (intro conjI exI [of _ rest]) simp_all
  have "eof_inv (r_pc (sr S)) (r_len (sr S)) (r_buf (sr S)) (writer_open (sp S)) (w_done (sw S))"
    using inv by (simp add: pipe_inv_def)
  then show "eof_inv (r_pc (sr S)) (r_len (sr S)) (r_buf (sr S)) (writer_open p) (w_done (sw S))"
    using f(2) by (cases "(r_pc (sr S), r_len (sr S), r_buf (sr S), writer_open p, w_done (sw S))" rule: eof_inv.cases) auto
qed

lemma start_inv: "fifo_spec Q contents \<Longrightarrow> pipe_inv contents bs (pipe_start Q n bs s)"
  unfolding pipe_start_def
  by (rule pipe_invI)
    (auto simp: data_inv_def pipe_new_def read_begin_def write_begin_def in_flight_def enqueued_def fifo_spec_def
      READONLY_def WRITEONLY_def)

lemma step_inv:
  assumes Q: "fifo_spec Q contents" and len: "length bs < 2 ^ 64" and inv: "pipe_inv contents bs S"
    and step: "pipe_sys Q K S T"
  shows "pipe_inv contents bs T"
  using step
proof cases
  case (sched s)
  then show ?thesis using inv by (simp add: pipe_inv_def)
next
  case (close_reader x p s)
  with close_inv [OF inv close_reader(3)] show ?thesis
    by (auto simp: reader_done_def READONLY_def WRITEONLY_def)
next
  case (close_writer x p s)
  with close_inv [OF inv close_writer(3)] show ?thesis
    by (auto simp: writer_done_def READONLY_def WRITEONLY_def)
qed (use read_step_inv [OF Q len inv] write_step_inv [OF Q inv] in auto)

lemma reach_induct [consumes 1, case_names start step]:
  assumes "pipe_reach Q K n bs S" and "\<And>s. P (pipe_start Q n bs s)"
    and "\<And>S T. pipe_reach Q K n bs S \<Longrightarrow> pipe_sys Q K S T \<Longrightarrow> P S \<Longrightarrow> P T"
  shows "P S"
proof -
  obtain s where "(pipe_sys Q K)\<^sup>*\<^sup>* (pipe_start Q n bs s) S" using assms(1) by (auto simp: pipe_reach_def)
  then show ?thesis by (induction rule: rtranclp_induct) (use assms(2,3) in \<open>auto simp: pipe_reach_def\<close>)
qed

lemma reach_inv:
  assumes Q: "fifo_spec Q contents" and len: "length bs < 2 ^ 64" and reach: "pipe_reach Q K n bs S"
  shows "pipe_inv contents bs S"
  using reach by (induction rule: reach_induct) (auto intro: start_inv [OF Q] step_inv [OF Q len])

section \<open>What a transfer delivers\<close>

lemma reader_length:
  assumes "pipe_reach Q K n bs S"
  shows "r_len (sr S) = n \<and> length (r_buf (sr S) @ in_flight (sr S)) \<le> n"
  using assms
proof (induction rule: reach_induct)
  case (start s)
  show ?case by (auto simp: pipe_start_def read_begin_def in_flight_def READONLY_def WRITEONLY_def)
next
  case (step S T)
  from step(2) step(3) show ?case
  proof cases
    case (reader me p r s)
    with step(3) show ?thesis
      by (cases "r_pc (sr S)") (auto simp: read_step_def in_flight_def split: if_splits prod.splits option.splits)
  qed auto
qed

text \<open>
  C25. Whatever the interleaving of a reader and a writer, what the reader has in its buffer is
  a prefix of what is written, in order and without loss or duplication; a read that returned
  gives the length of that prefix, never more than was asked for, and returns zero for a
  non-empty buffer only when the writer has left without a byte.
\<close>
theorem pipe_fifo:
  assumes "fifo_spec Q contents" and "length bs < 2 ^ 64" and "pipe_reach Q K n bs S"
  shows "prefix (r_buf (sr S)) bs \<and>
    (\<forall>m. r_pc (sr S) = RDone (Inr m) \<longrightarrow> m = length (r_buf (sr S)) \<and> m \<le> n \<and>
       (m = 0 \<longrightarrow> n = 0 \<or> \<not> writer_open (sp S) \<and> w_done (sw S) = 0))"
proof -
  note inv = reach_inv [OF assms] and len = reader_length [OF assms(3)]
  from inv obtain rest where "r_buf (sr S) @ in_flight (sr S) @ rest = take (enqueued (sw S)) bs"
    by (auto simp: pipe_inv_def data_inv_def)
  then have "prefix (r_buf (sr S)) bs" by (metis prefixI prefix_order.trans take_is_prefix)
  moreover have "eof_inv (r_pc (sr S)) n (r_buf (sr S)) (writer_open (sp S)) (w_done (sw S))"
    using inv len by (simp add: pipe_inv_def)
  ultimately show ?thesis using len by auto
qed

section \<open>Transfers complete\<close>

text \<open>
  How far the two calls are from returning: the bytes that are not yet in the queue, the bytes
  in the queue, the ends that are open, and the positions of the two threads.
\<close>

definition w_rank :: "bool \<Rightarrow> bool \<Rightarrow> write_pc \<Rightarrow> nat" where
  "w_rank full r_open pc = (case pc of WWait \<Rightarrow> 10 | WCheck \<Rightarrow> 9 | WLoop \<Rightarrow> if full then 8 else 4 | WAdd \<Rightarrow> 9
     | WWaitMore \<Rightarrow> if full then 7 else 6 | WCheckMore \<Rightarrow> if \<not> r_open then 1 else if full then 9 else 5
     | WNotify \<Rightarrow> 1 | WDone x \<Rightarrow> 0)"

definition r_rank :: "bool \<Rightarrow> read_pc \<Rightarrow> nat" where
  "r_rank none pc = (case pc of RWait \<Rightarrow> 8 | RCheck \<Rightarrow> 7 | RLoop \<Rightarrow> 5 | RSub b \<Rightarrow> 6
     | RWaitMore \<Rightarrow> if none then 4 else 7 | RCheckMore \<Rightarrow> if none then 3 else 6 | RNotify \<Rightarrow> 2 | RDone x \<Rightarrow> 0)"

definition left :: "('q \<Rightarrow> byte list) \<Rightarrow> ('q, 's) psys \<Rightarrow> nat" where
  "left contents S = (let c = contents (pq (sp S)) in
     20 * (length (w_data (sw S)) - enqueued (sw S)) + 10 * length c +
     (if reader_open (sp S) then 30 else 0) + (if writer_open (sp S) then 30 else 0) +
     w_rank (PIPE_SIZE \<le> length c) (reader_open (sp S)) (w_pc (sw S)) + r_rank (c = []) (r_pc (sr S)))"

text \<open>While one of the ends is open the counter is the number of bytes in the queue and in flight.\<close>

lemma counter_exact:
  assumes inv: "pipe_inv contents bs S" and "reader_open (sp S) \<or> writer_open (sp S)" and "w_pc (sw S) \<noteq> WAdd"
  shows "pcount (sp S) = of_nat (length (in_flight (sr S)) + length (contents (pq (sp S))))"
    and "length (in_flight (sr S)) + length (contents (pq (sp S))) \<le> length bs"
proof -
  have con: "r_buf (sr S) @ in_flight (sr S) @ contents (pq (sp S)) = take (w_done (sw S)) bs"
    and cnt: "pcount (sp S) = of_nat (w_done (sw S)) - of_nat (length (r_buf (sr S)))"
    and upto: "w_done (sw S) \<le> length bs"
    using assms by (auto simp: pipe_inv_def data_inv_def enqueued_def)
  have "length (r_buf (sr S) @ in_flight (sr S) @ contents (pq (sp S))) = w_done (sw S)" unfolding con using upto by simp
  then have sum: "w_done (sw S) = length (r_buf (sr S)) + length (in_flight (sr S)) + length (contents (pq (sp S)))" by simp
  show "pcount (sp S) = of_nat (length (in_flight (sr S)) + length (contents (pq (sp S))))" unfolding cnt sum by simp
  show "length (in_flight (sr S)) + length (contents (pq (sp S))) \<le> length bs" using sum upto by simp
qed

lemma has_data_iff:
  assumes "pipe_inv contents bs S" and "reader_open (sp S) \<or> writer_open (sp S)" and "w_pc (sw S) \<noteq> WAdd"
    and "length bs < 2 ^ 64"
  shows "has_data (sp S) \<longleftrightarrow> in_flight (sr S) \<noteq> [] \<or> contents (pq (sp S)) \<noteq> []"
  using counter_exact [OF assms(1-3)] assms(4)
    count_word [of "length (in_flight (sr S)) + length (contents (pq (sp S)))"]
  by (auto simp: has_data_def word_neq_0_conv [symmetric])

lemma has_space_iff:
  assumes "pipe_inv contents bs S" and "reader_open (sp S) \<or> writer_open (sp S)" and "w_pc (sw S) \<noteq> WAdd"
    and "length bs < 2 ^ 64"
  shows "has_space (sp S) \<longleftrightarrow> length (in_flight (sr S)) + length (contents (pq (sp S))) < PIPE_SIZE"
proof -
  let ?n = "length (in_flight (sr S)) + length (contents (pq (sp S)))"
  have "?n < 2 ^ 64" using counter_exact(2) [OF assms(1-3)] assms(4) by linarith
  then have "unat (of_nat ?n :: 64 word) = ?n" by (simp add: unat_of_nat del: of_nat_add)
  then show ?thesis unfolding has_space_def counter_exact(1) [OF assms(1-3)]
    by (simp add: word_less_nat_alt PIPE_SIZE_def del: of_nat_add)
qed

lemma left_eq:
  "left contents \<lparr>sp = p, sr = r, sw = w, ss = s\<rparr> =
     20 * (length (w_data w) - enqueued w) + 10 * length (contents (pq p)) +
     (if reader_open p then 30 else 0) + (if writer_open p then 30 else 0) +
     w_rank (PIPE_SIZE \<le> length (contents (pq p))) (reader_open p) (w_pc w) + r_rank (contents (pq p) = []) (r_pc r)"
  by (simp add: left_def Let_def)

lemma writer_rank_down:
  assumes "pq p' = pq p" "reader_open p' = reader_open p" "writer_open p' = writer_open p"
    and "w_data w' = w_data w" "enqueued w' = enqueued w"
    and "w_rank (PIPE_SIZE \<le> length (contents (pq p))) (reader_open p) (w_pc w') <
         w_rank (PIPE_SIZE \<le> length (contents (pq p))) (reader_open p) (w_pc w)"
  shows "left contents \<lparr>sp = p', sr = r, sw = w', ss = s'\<rparr> < left contents \<lparr>sp = p, sr = r, sw = w, ss = s\<rparr>"
  using assms unfolding left_eq by simp

lemma reader_rank_down:
  assumes "pq p' = pq p" "reader_open p' = reader_open p" "writer_open p' = writer_open p"
    and "r_rank (contents (pq p) = []) (r_pc r') < r_rank (contents (pq p) = []) (r_pc r)"
  shows "left contents \<lparr>sp = p', sr = r', sw = w, ss = s'\<rparr> < left contents \<lparr>sp = p, sr = r, sw = w, ss = s\<rparr>"
  using assms unfolding left_eq by simp

lemma put_down:
  assumes "contents q = contents (pq p) @ [b]" "length (contents (pq p)) < PIPE_SIZE" "w_pc w = WLoop"
    "w_done w < length (w_data w)"
  shows "left contents \<lparr>sp = p\<lparr>pq := q\<rparr>, sr = r, sw = w\<lparr>w_pc := WAdd\<rparr>, ss = s'\<rparr> <
    left contents \<lparr>sp = p, sr = r, sw = w, ss = s\<rparr>"
proof -
  define a where "a = length (w_data w) - Suc (w_done w)"
  define X where "X = (if reader_open p then 30 else 0) + (if writer_open p then 30 else 0 :: nat)"
  have left1: "length (w_data w) - w_done w = Suc a" using assms(4) by (simp add: a_def)
  have full: "(PIPE_SIZE \<le> length (contents (pq p))) = False" using assms(2) by simp
  have new: "left contents \<lparr>sp = p\<lparr>pq := q\<rparr>, sr = r, sw = w\<lparr>w_pc := WAdd\<rparr>, ss = s'\<rparr> =
      20 * a + 10 * Suc (length (contents (pq p))) + X + 9 + r_rank False (r_pc r)"
    unfolding left_eq by (simp add: assms(1) enqueued_def w_rank_def a_def X_def)
  have old: "left contents \<lparr>sp = p, sr = r, sw = w, ss = s\<rparr> =
      20 * Suc a + 10 * length (contents (pq p)) + X + 4 + r_rank (contents (pq p) = []) (r_pc r)"
    unfolding left_eq full by (simp add: assms(3) enqueued_def w_rank_def left1 X_def)
  have "r_rank False (r_pc r) \<le> r_rank (contents (pq p) = []) (r_pc r) + 3"
    by (simp add: r_rank_def split: read_pc.split)
  then show ?thesis unfolding new old by simp
qed

lemma take_down:
  assumes "contents (pq p) = b # contents q" "r_pc r = RLoop"
  shows "left contents \<lparr>sp = p\<lparr>pq := q\<rparr>, sr = r\<lparr>r_pc := RSub b\<rparr>, sw = w, ss = s'\<rparr> <
    left contents \<lparr>sp = p, sr = r, sw = w, ss = s\<rparr>"
proof -
  define X where "X = 20 * (length (w_data w) - enqueued w) + (if reader_open p then 30 else 0) +
    (if writer_open p then 30 else 0 :: nat)"
  let ?w = "\<lambda>n. w_rank (PIPE_SIZE \<le> n) (reader_open p) (w_pc w)"
  have new: "left contents \<lparr>sp = p\<lparr>pq := q\<rparr>, sr = r\<lparr>r_pc := RSub b\<rparr>, sw = w, ss = s'\<rparr> =
      X + 10 * length (contents q) + ?w (length (contents q)) + 6"
    unfolding left_eq by (simp add: r_rank_def X_def)
  have old: "left contents \<lparr>sp = p, sr = r, sw = w, ss = s\<rparr> =
      X + 10 * Suc (length (contents q)) + ?w (Suc (length (contents q))) + 5"
    unfolding left_eq by (simp add: assms r_rank_def X_def)
  have "?w (length (contents q)) \<le> ?w (Suc (length (contents q)))"
    by (simp add: w_rank_def split: write_pc.split)
  then show ?thesis unfolding new old by simp
qed

lemma writer_progress:
  assumes Q: "fifo_spec Q contents" and len: "length bs < 2 ^ 64" and inv: "pipe_inv contents bs S"
    and nd: "\<not> writer_done (sw S)"
    and go: "w_pc (sw S) = WWait \<or> w_pc (sw S) = WWaitMore \<Longrightarrow> has_space (sp S) \<or> \<not> reader_open (sp S)"
    and step: "write_step Q K me (sp S) (sw S) (ss S) = (p, w, s)"
  shows "left contents \<lparr>sp = p, sr = sr S, sw = w, ss = s\<rparr> < left contents \<lparr>sp = sp S, sr = sr S, sw = sw S, ss = ss S\<rparr>"
proof (cases "w_pc (sw S)")
  case WLoop
  show ?thesis
  proof (cases "w_done (sw S) < length (w_data (sw S))")
    case False
    with WLoop step show ?thesis
      by (intro writer_rank_down) (auto simp: write_step_def w_rank_def enqueued_def)
  next
    case more: True
    show ?thesis
    proof (cases "q_enq Q (pq (sp S)) (w_data (sw S) ! w_done (sw S))")
      case None
      with fifo_enq(2) [OF Q None] WLoop step more show ?thesis
        by (intro writer_rank_down) (auto simp: write_step_def w_rank_def enqueued_def)
    next
      case (Some q)
      with WLoop step more have "p = (sp S)\<lparr>pq := q\<rparr>" "w = (sw S)\<lparr>w_pc := WAdd\<rparr>"
        by (auto simp: write_step_def)
      then show ?thesis using fifo_enq(1) [OF Q Some] WLoop more by (simp add: put_down)
    qed
  qed
next
  case WWaitMore
  have "writer_open (sp S)" using writer_still_open [OF _ nd] inv by (auto simp: pipe_inv_def)
  then have "has_space (sp S) \<Longrightarrow> length (contents (pq (sp S))) < PIPE_SIZE"
    using has_space_iff [OF inv _ _ len] WWaitMore by simp
  with WWaitMore step go show ?thesis
    by (intro writer_rank_down) (auto simp: write_step_def wait_turn_def w_rank_def enqueued_def split: if_splits)
qed (use nd step go in \<open>(intro writer_rank_down;
  auto simp: writer_done_def write_step_def wait_turn_def w_rank_def enqueued_def split: if_splits prod.splits)\<close>)+

lemma reader_progress:
  assumes Q: "fifo_spec Q contents" and len: "length bs < 2 ^ 64" and inv: "pipe_inv contents bs S"
    and nd: "\<not> reader_done (sr S)" and quiet: "w_pc (sw S) \<noteq> WAdd"
    and go: "has_data (sp S) \<or> \<not> writer_open (sp S)"
    and step: "read_step Q K me (sp S) (sr S) (ss S) = (p, r, s)"
  shows "left contents \<lparr>sp = p, sr = r, sw = sw S, ss = s\<rparr> < left contents \<lparr>sp = sp S, sr = sr S, sw = sw S, ss = ss S\<rparr>"
proof -
  have "reader_open (sp S)" using not_done_open [OF _ nd] inv by (auto simp: pipe_inv_def)
  then have data: "has_data (sp S) \<longleftrightarrow> in_flight (sr S) \<noteq> [] \<or> contents (pq (sp S)) \<noteq> []"
    using has_data_iff [OF inv _ quiet len] by blast
  show ?thesis
  proof (cases "r_pc (sr S)")
    case RLoop
    show ?thesis
    proof (cases "length (r_buf (sr S)) \<ge> r_len (sr S)")
      case True
      with RLoop step show ?thesis by (intro reader_rank_down) (auto simp: read_step_def r_rank_def)
    next
      case more: False
      show ?thesis
      proof (cases "q_deq Q (pq (sp S))")
        case None
        with fifo_deq(2) [OF Q None] RLoop step more show ?thesis
          by (intro reader_rank_down) (auto simp: read_step_def r_rank_def)
      next
        case (Some bq)
        then obtain b q where bq: "q_deq Q (pq (sp S)) = Some (b, q)" by (cases bq) auto
        with RLoop step more have "p = (sp S)\<lparr>pq := q\<rparr>" "r = (sr S)\<lparr>r_pc := RSub b\<rparr>"
          by (auto simp: read_step_def)
        then show ?thesis by (simp add: take_down [OF fifo_deq(1) [OF Q bq] RLoop])
      qed
    qed
  qed (use nd step go data in \<open>(intro reader_rank_down;
    auto simp: reader_done_def read_step_def wait_turn_def r_rank_def in_flight_def split: if_splits prod.splits)\<close>)+
qed

lemma close_progress:
  assumes close: "pipe_close Q K (sp S) flags (ss S) = (p, s)"
    and "flags = READONLY \<and> reader_open (sp S) \<and> writer_open (sp S) \<or> flags = WRITEONLY \<and> reader_open (sp S) \<and> writer_open (sp S)"
  shows "left contents \<lparr>sp = p, sr = sr S, sw = sw S, ss = s\<rparr> < left contents \<lparr>sp = sp S, sr = sr S, sw = sw S, ss = ss S\<rparr>"
proof -
  have "pq p = pq (sp S)" using pipe_close_fields [OF close] assms(2) ro_wo by auto
  then show ?thesis using pipe_close_fields(1,2) [OF close] assms(2) ro_wo
    by (auto simp: left_eq w_rank_def split: write_pc.split)
qed

lemma progress:
  assumes Q: "fifo_spec Q contents" and len: "length bs < 2 ^ 64" and inv: "pipe_inv contents bs S"
    and nd: "\<not> (reader_done (sr S) \<and> writer_done (sw S))"
  shows "\<exists>T. pipe_sys Q K S T \<and> left contents T < left contents S"
proof -
  have S: "\<lparr>sp = sp S, sr = sr S, sw = sw S, ss = ss S\<rparr> = S" by simp
  have d: "data_inv contents bs (sp S) (sr S) (sw S)" using inv by (simp add: pipe_inv_def)
  obtain pw w sw' where w: "write_step Q K undefined (sp S) (sw S) (ss S) = (pw, w, sw')" using prod_cases3 by blast
  obtain pr r sr' where r: "read_step Q K undefined (sp S) (sr S) (ss S) = (pr, r, sr')" using prod_cases3 by blast
  show ?thesis
  proof (cases "writer_done (sw S)")
    case False
    show ?thesis
    proof (cases "(w_pc (sw S) = WWait \<or> w_pc (sw S) = WWaitMore) \<and> \<not> has_space (sp S) \<and> reader_open (sp S)")
      case False
      with writer_progress [OF Q len inv \<open>\<not> writer_done (sw S)\<close> _ w, unfolded S] pipe_sys.writer [OF w] show ?thesis by blast
    next
      case blocked: True
      then have opened: "reader_open (sp S)" "writer_open (sp S)" using writer_still_open [OF d False] by auto
      show ?thesis
      proof (cases "reader_done (sr S)")
        case True
        then obtain x where x: "r_pc (sr S) = RDone x" by (auto simp: reader_done_def split: read_pc.splits)
        obtain p s where "pipe_close Q K (sp S) READONLY (ss S) = (p, s)" by fastforce
        with pipe_sys.close_reader [OF x this] close_progress [OF this, unfolded S] opened show ?thesis by blast
      next
        case unread: False
        have "has_data (sp S)" using has_data_iff [OF inv _ _ len] has_space_iff [OF inv _ _ len] blocked opened
          by (auto simp: PIPE_SIZE_def)
        with reader_progress [OF Q len inv unread _ _ r, unfolded S] blocked pipe_sys.reader [OF r] show ?thesis by auto
      qed
    qed
  next
    case True
    then obtain x where x: "w_pc (sw S) = WDone x" by (auto simp: writer_done_def split: write_pc.splits)
    have unread: "\<not> reader_done (sr S)" and opened: "reader_open (sp S)" using nd True not_done_open [OF d] by auto
    show ?thesis
    proof (cases "writer_open (sp S)")
      case True
      obtain p s where "pipe_close Q K (sp S) WRITEONLY (ss S) = (p, s)" by fastforce
      with pipe_sys.close_writer [OF x this] close_progress [OF this, unfolded S] opened True show ?thesis by blast
    next
      case False
      with reader_progress [OF Q len inv unread _ _ r, unfolded S] x pipe_sys.reader [OF r] show ?thesis by auto
    qed
  qed
qed

lemma completes:
  assumes Q: "fifo_spec Q contents" and len: "length bs < 2 ^ 64"
  shows "pipe_inv contents bs S \<Longrightarrow> \<exists>T. (pipe_sys Q K)\<^sup>*\<^sup>* S T \<and> reader_done (sr T) \<and> writer_done (sw T)"
proof (induction "left contents S" arbitrary: S rule: less_induct)
  case less
  show ?case
  proof (cases "reader_done (sr S) \<and> writer_done (sw S)")
    case False
    from progress [OF Q len less(2) False] obtain T where T: "pipe_sys Q K S T" "left contents T < left contents S" by blast
    with less(1) [OF T(2)] step_inv [OF Q len less(2) T(1)] show ?thesis
      by (meson converse_rtranclp_into_rtranclp)
  qed blast
qed

text \<open>
  C26. A transfer cannot get stuck: from every state that a reader and a writer can reach,
  however they were interleaved so far and whatever the sizes, they can go on to a state in
  which both calls have returned. A reader that waits for data and a writer that waits for
  space never wait for each other.
\<close>
theorem pipe_completes:
  assumes "fifo_spec Q contents" and "length bs < 2 ^ 64" and "pipe_reach Q K n bs S"
  shows "\<exists>T. (pipe_sys Q K)\<^sup>*\<^sup>* S T \<and> reader_done (sr T) \<and> writer_done (sw T)"
  by (rule completes [OF assms(1,2) reach_inv [OF assms]])

section \<open>Instances\<close>

text \<open>A bounded queue, and runs along a schedule: true stands for a step of the reader.\<close>

definition list_queue :: "byte list queue_ops" where
  "list_queue = \<lparr>q_new = (\<lambda>_. []), q_enq = (\<lambda>q b. if length q < PIPE_SIZE then Some (q @ [b]) else None),
     q_deq = (\<lambda>q. case q of [] \<Rightarrow> None | b # q' \<Rightarrow> Some (b, q'))\<rparr>"

lemma list_queue_fifo: "fifo_spec list_queue (\<lambda>q. q)"
  by (simp add: fifo_spec_def list_queue_def split: list.splits)

definition found_ops :: "unit wait_ops" where
  "found_ops = \<lparr>park_current = (\<lambda>_ s. s), unblock = (\<lambda>_ s. (True, s))\<rparr>"

definition pipe_turn :: "'q queue_ops \<Rightarrow> 's wait_ops \<Rightarrow> bool \<Rightarrow> ('q, 's) psys \<Rightarrow> ('q, 's) psys" where
  "pipe_turn Q K b S =
     (if b then case read_step Q K (0, 1) (sp S) (sr S) (ss S) of (p, r, s) \<Rightarrow> \<lparr>sp = p, sr = r, sw = sw S, ss = s\<rparr>
      else case write_step Q K (0, 2) (sp S) (sw S) (ss S) of (p, w, s) \<Rightarrow> \<lparr>sp = p, sr = sr S, sw = w, ss = s\<rparr>)"

definition pipe_run :: "'q queue_ops \<Rightarrow> 's wait_ops \<Rightarrow> bool list \<Rightarrow> ('q, 's) psys \<Rightarrow> ('q, 's) psys" where
  "pipe_run Q K schedule S = fold (pipe_turn Q K) schedule S"

lemma pipe_turn_step: "pipe_sys Q K S (pipe_turn Q K b S)"
  unfolding pipe_turn_def by (auto split: prod.splits intro: pipe_sys.intros)

lemma pipe_run_reach: "pipe_reach Q K n bs S \<Longrightarrow> pipe_reach Q K n bs (pipe_run Q K schedule S)"
  unfolding pipe_run_def
proof (induction schedule arbitrary: S)
  case (Cons b schedule)
  have "pipe_reach Q K n bs (pipe_turn Q K b S)"
    using Cons.prems pipe_turn_step by (metis pipe_reach_def rtranclp.rtrancl_into_rtrancl)
  from Cons.IH [OF this] show ?case by simp
qed simp

lemma pipe_start_reach: "pipe_reach Q K n bs (pipe_start Q n bs s)"
  by (auto simp: pipe_reach_def)

definition two_bytes :: "(byte list, unit) psys" where
  "two_bytes = pipe_run list_queue found_ops
     [False, False, False, False, False, False, False, False, True, True, True, True, True, True, True, True]
     (pipe_start list_queue 2 [7, 8] ())"

lemmas pipe_eval = pipe_start_def pipe_new_def read_begin_def write_begin_def list_queue_def
  READONLY_def WRITEONLY_def wait_turn_def has_data_def has_space_def PIPE_SIZE_def
  pipe_run_def pipe_turn_def read_step_def write_step_def found_ops_def

lemma two_bytes_state: "r_pc (sr two_bytes) = RDone (Inr 2) \<and> r_buf (sr two_bytes) = [7, 8]"
  by (simp add: two_bytes_def pipe_eval)

theorem pipe_fifo_witness:
  "r_pc (sr two_bytes) = RDone (Inr 2) \<and> prefix (r_buf (sr two_bytes)) [7, 8] \<and> 2 = length (r_buf (sr two_bytes))"
proof -
  have "pipe_reach list_queue found_ops 2 [7, 8] two_bytes"
    unfolding two_bytes_def by (rule pipe_run_reach [OF pipe_start_reach])
  from pipe_fifo [OF list_queue_fifo _ this] two_bytes_state show ?thesis by force
qed

text \<open>The reader waits for more bytes than the writer has, and the writer has not begun.\<close>

definition reader_first :: "(byte list, unit) psys" where
  "reader_first = pipe_run list_queue found_ops [True] (pipe_start list_queue 5 [7, 8] ())"

theorem pipe_completes_witness:
  "length (rx_wq (sp reader_first)) = 1 \<and>
   (\<exists>T. (pipe_sys list_queue found_ops)\<^sup>*\<^sup>* reader_first T \<and> reader_done (sr T) \<and> writer_done (sw T))"
proof -
  have "length (rx_wq (sp reader_first)) = 1" by (simp add: reader_first_def pipe_eval)
  moreover have "pipe_reach list_queue found_ops 5 [7, 8] reader_first"
    unfolding reader_first_def by (rule pipe_run_reach [OF pipe_start_reach])
  ultimately show ?thesis using pipe_completes [OF list_queue_fifo, of "[7, 8]" found_ops 5 reader_first] by simp
qed

end
