(* ===== verification/Scheduler.thy ===== *)
theory Scheduler
  imports Errno BTree "HOL-Library.Multiset"
begin

text \<open>
  The thread scheduler (\<open>process/scheduler.rs\<close>): one round-robin scheduler per processor core,
  with ready queue, sleep list, blocked list and lists of threads that wait for the end of
  another thread, and messages between the cores. Every operation runs on a core \<open>c\<close> and holds
  the lock of its ready state, so that it is one step here; the switch of stacks and address
  spaces in assembly is the change of \<open>current_thread\<close>.

  The channel of an inbox belongs to another package: its operations are arguments, \<open>chan_spec\<close>
  states what the scheduler relies on. The maps of the scheduler are finite maps of thread ids.
\<close>

section \<open>Threads and messages\<close>

datatype thread_state = Created | Ready | Running | Parking | Blocked | Sleeping | Exited

fun state_as_u8 :: "thread_state \<Rightarrow> byte" where
  "state_as_u8 Created = 0"
| "state_as_u8 Ready = 1"
| "state_as_u8 Running = 2"
| "state_as_u8 Parking = 3"
| "state_as_u8 Blocked = 4"
| "state_as_u8 Sleeping = 5"
| "state_as_u8 Exited = 6"

definition state_from_u8 :: "byte \<Rightarrow> thread_state" where
  "state_from_u8 v = (if v = 0 then Created else if v = 1 then Ready else if v = 2 then Running
     else if v = 3 then Parking else if v = 4 then Blocked else if v = 5 then Sleeping else Exited)"

lemma state_u8_roundtrip: "state_from_u8 (state_as_u8 st) = st"
  by (cases st) (simp_all add: state_from_u8_def)

text \<open>A thread by its id and the id of its process.\<close>

record thread =
  t_id :: nat
  t_pid :: uuid

datatype message_cmd = JoinTargetExited nat | Deblock uuid nat | Kill nat

datatype message_item = MThread thread | MCmd message_cmd

text \<open>Bounded channels: \<open>try_send\<close> fails when the channel is full, \<open>try_recv\<close> when it is empty.\<close>

record 'ch chan_ops =
  try_send :: "'ch \<Rightarrow> message_item option \<Rightarrow> 'ch option"
  try_recv :: "'ch \<Rightarrow> (message_item option \<times> 'ch) option"

section \<open>State\<close>

record sched =
  initialized :: bool
  current_thread :: "thread option"
  ready_queue :: "thread list"
  idle_thread :: thread
  sleep_list :: "(thread \<times> nat) list"
  blocked_list :: "thread list"
  join_map :: "(nat, thread list) btree"
  has_started :: bool

record 'ch per_cpu =
  rq_len :: "32 word"
  resched_flag :: bool
  inbox :: 'ch
  apic_id :: nat

record 'ch kernel =
  scheds :: "sched list"
  cpus :: "'ch per_cpu list"
  active_tids :: "nat set"
  thread_id_counter :: nat
  active_cpus :: nat
  thread_states :: "nat \<Rightarrow> thread_state"

definition sched_new :: "thread \<Rightarrow> sched" where
  "sched_new idle = \<lparr>initialized = False, current_thread = None, ready_queue = [], idle_thread = idle,
     sleep_list = [], blocked_list = [], join_map = [], has_started = False\<rparr>"

definition per_cpu_new :: "'ch \<Rightarrow> 'ch per_cpu" where
  "per_cpu_new tx = \<lparr>rq_len = 0, resched_flag = False, inbox = tx, apic_id = 0\<rparr>"

abbreviation core :: "'ch kernel \<Rightarrow> nat \<Rightarrow> sched" where
  "core S c \<equiv> scheds S ! c"

definition upd_core :: "nat \<Rightarrow> (sched \<Rightarrow> sched) \<Rightarrow> 'ch kernel \<Rightarrow> 'ch kernel" where
  "upd_core c f S = S\<lparr>scheds := (scheds S)[c := f (scheds S ! c)]\<rparr>"

definition upd_cpu :: "nat \<Rightarrow> ('ch per_cpu \<Rightarrow> 'ch per_cpu) \<Rightarrow> 'ch kernel \<Rightarrow> 'ch kernel" where
  "upd_cpu c f S = S\<lparr>cpus := (cpus S)[c := f (cpus S ! c)]\<rparr>"

definition per_cpu_ref :: "'ch kernel \<Rightarrow> nat \<Rightarrow> 'ch per_cpu run" where
  "per_cpu_ref S i = (if i < length (cpus S) then Inr (cpus S ! i) else Inl IndexOutOfBounds)"

definition set_inbox_apic_id :: "nat \<Rightarrow> nat \<Rightarrow> 'ch kernel \<Rightarrow> 'ch kernel" where
  "set_inbox_apic_id c a S = upd_cpu c (\<lambda>p. p\<lparr>apic_id := a\<rparr>) S"

definition mark_thread_alive :: "nat \<Rightarrow> 'ch kernel \<Rightarrow> 'ch kernel" where
  "mark_thread_alive t S = S\<lparr>active_tids := insert t (active_tids S)\<rparr>"

definition mark_thread_dead :: "nat \<Rightarrow> 'ch kernel \<Rightarrow> 'ch kernel" where
  "mark_thread_dead t S = S\<lparr>active_tids := active_tids S - {t}\<rparr>"

definition is_thread_alive :: "nat \<Rightarrow> 'ch kernel \<Rightarrow> bool" where
  "is_thread_alive t S \<longleftrightarrow> t \<in> active_tids S"

definition next_thread_id :: "'ch kernel \<Rightarrow> nat \<times> 'ch kernel" where
  "next_thread_id S = (thread_id_counter S, S\<lparr>thread_id_counter := (thread_id_counter S + 1) mod 2 ^ 64\<rparr>)"

definition cpu_mark_online :: "'ch kernel \<Rightarrow> 'ch kernel" where
  "cpu_mark_online S = S\<lparr>active_cpus := (active_cpus S + 1) mod 2 ^ 32\<rparr>"

definition set_state :: "nat \<Rightarrow> thread_state \<Rightarrow> 'ch kernel \<Rightarrow> 'ch kernel" where
  "set_state t st S = S\<lparr>thread_states := (thread_states S)(t := st)\<rparr>"

definition inc_rq_len :: "nat \<Rightarrow> 'ch kernel \<Rightarrow> 'ch kernel" where
  "inc_rq_len c = upd_cpu c (\<lambda>p. p\<lparr>rq_len := rq_len p + 1\<rparr>)"

definition dec_rq_len :: "nat \<Rightarrow> 'ch kernel \<Rightarrow> 'ch kernel" where
  "dec_rq_len c = upd_cpu c (\<lambda>p. p\<lparr>rq_len := rq_len p - 1\<rparr>)"

definition set_resched_flag :: "nat \<Rightarrow> 'ch kernel \<Rightarrow> 'ch kernel" where
  "set_resched_flag c = upd_cpu c (\<lambda>p. p\<lparr>resched_flag := True\<rparr>)"

definition clear_resched_flag :: "nat \<Rightarrow> 'ch kernel \<Rightarrow> 'ch kernel" where
  "clear_resched_flag c = upd_cpu c (\<lambda>p. p\<lparr>resched_flag := False\<rparr>)"

definition read_rq_len :: "'ch kernel \<Rightarrow> nat \<Rightarrow> nat" where
  "read_rq_len S c = unat (rq_len (cpus S ! c))"

definition read_rq_len_remote :: "'ch kernel \<Rightarrow> nat \<Rightarrow> nat run" where
  "read_rq_len_remote S i = and_then (per_cpu_ref S i) (\<lambda>p. Inr (unat (rq_len p)))"

section \<open>Messages between cores\<close>

text \<open>\<open>schedule_on\<close> returns the message again when the inbox of the target is full.\<close>

definition schedule_on :: "'ch chan_ops \<Rightarrow> nat \<Rightarrow> message_item \<Rightarrow> 'ch kernel \<Rightarrow> ((message_item + unit) \<times> 'ch kernel) run" where
  "schedule_on Ch target item S =
     and_then (per_cpu_ref S target) (\<lambda>p. case try_send Ch (inbox p) (Some item) of
         Some tx \<Rightarrow> Inr (Inr (), upd_cpu target (\<lambda>p. p\<lparr>inbox := tx\<rparr>) S)
       | None \<Rightarrow> Inr (Inl item, S))"

fun send_all :: "'ch chan_ops \<Rightarrow> message_item \<Rightarrow> nat list \<Rightarrow> 'ch kernel \<Rightarrow> 'ch kernel run" where
  "send_all Ch item [] S = Inr S"
| "send_all Ch item (i # is) S =
     and_then (per_cpu_ref S i) (\<lambda>p. case try_send Ch (inbox p) (Some item) of
         Some tx \<Rightarrow> send_all Ch item is (upd_cpu i (\<lambda>p. p\<lparr>inbox := tx\<rparr>) S)
       | None \<Rightarrow> Inl UnwrapNone)"

definition schedule_on_all_others :: "'ch chan_ops \<Rightarrow> nat \<Rightarrow> message_item \<Rightarrow> 'ch kernel \<Rightarrow> 'ch kernel run" where
  "schedule_on_all_others Ch c item S = send_all Ch item (filter (\<lambda>i. i \<noteq> c) [0 ..< active_cpus S]) S"

section \<open>Ends of threads\<close>

text \<open>Threads that become runnable are put at the front of the queue one after the other.\<close>

fun push_all :: "nat \<Rightarrow> thread list \<Rightarrow> 'ch kernel \<Rightarrow> 'ch kernel" where
  "push_all c [] S = S"
| "push_all c (t # ts) S =
     push_all c ts (inc_rq_len c (upd_core c (\<lambda>s. s\<lparr>ready_queue := t # ready_queue s\<rparr>) S))"

definition unjoin :: "'ch chan_ops \<Rightarrow> nat \<Rightarrow> nat \<Rightarrow> 'ch kernel \<Rightarrow> 'ch kernel run" where
  "unjoin Ch c tid S =
     (let S1 = (case bt_get (join_map (core S c)) tid of Some waiters \<Rightarrow> push_all c waiters S | None \<Rightarrow> S)
      in and_then (schedule_on_all_others Ch c (MCmd (JoinTargetExited tid)) S1) (\<lambda>S2.
         Inr (upd_core c (\<lambda>s. s\<lparr>join_map := bt_remove (join_map s) tid\<rparr>) S2)))"

text \<open>
  The lists are searched in turn, each only when the earlier ones did not change; the test after
  the sleep list compares with the length of the ready queue added, as the source does. When the
  caller already holds the lock of the sleep list (\<open>held\<close>), a search that gets there waits for
  itself.
\<close>

definition remove_thread :: "nat \<Rightarrow> sched \<Rightarrow> bool \<times> sched" where
  "remove_thread tid s =
     (let keep = (\<lambda>t. t_id t \<noteq> tid); q = filter keep (ready_queue s) in
      if length q \<noteq> length (ready_queue s) then (True, s\<lparr>ready_queue := q\<rparr>)
      else
        let sl = filter (\<lambda>(t, _). keep t) (sleep_list s); s1 = s\<lparr>ready_queue := q, sleep_list := sl\<rparr> in
        if length (sleep_list s) \<noteq> length q + length sl then (True, s1)
        else
          let bl = filter keep (blocked_list s1); s2 = s1\<lparr>blocked_list := bl\<rparr> in
          if length bl \<noteq> length (blocked_list s1) then (True, s2)
          else
            let jm = map (\<lambda>(k, ws). (k, filter keep ws)) (join_map s2) in
            (list_ex (\<lambda>(k, ws). length (filter keep ws) \<noteq> length ws) (join_map s2), s2\<lparr>join_map := jm\<rparr>))"

definition kill_locally :: "'ch chan_ops \<Rightarrow> bool \<Rightarrow> nat \<Rightarrow> nat \<Rightarrow> 'ch kernel \<Rightarrow> (bool \<times> 'ch kernel) run" where
  "kill_locally Ch held c tid S =
     (if \<not> is_thread_alive tid S then Inr (True, S)
      else if held \<and> list_all (\<lambda>t. t_id t \<noteq> tid) (ready_queue (core S c)) then Inl Deadlock
      else case remove_thread tid (core S c) of (changed, s') \<Rightarrow>
        let S1 = upd_core c (\<lambda>_. s') S in
        if changed
        then and_then (unjoin Ch c tid (mark_thread_dead tid S1)) (\<lambda>S2. Inr (True, dec_rq_len c S2))
        else Inr (False, S1))"

definition current :: "sched \<Rightarrow> thread run" where
  "current s = (case current_thread s of Some t \<Rightarrow> Inr t | None \<Rightarrow> Inl UnwrapNone)"

definition kill :: "'ch chan_ops \<Rightarrow> nat \<Rightarrow> nat \<Rightarrow> 'ch kernel \<Rightarrow> 'ch kernel run" where
  "kill Ch c tid S =
     and_then (current (core S c)) (\<lambda>cur.
       if t_id cur = tid then Inl (PanicMsg ''A thread cannot kill itself!'')
       else and_then (kill_locally Ch False c tid S) (\<lambda>(found, S1).
         if \<not> found then schedule_on_all_others Ch c (MCmd (Kill tid)) S1 else Inr S1))"

section \<open>The inbox\<close>

definition take_blocked :: "uuid \<Rightarrow> nat \<Rightarrow> thread list \<Rightarrow> (thread \<times> thread list) option" where
  "take_blocked pid tid bl = (case List.extract (\<lambda>t. t_id t = tid \<and> t_pid t = pid) bl of
       Some (xs, t, ys) \<Rightarrow> Some (t, xs @ ys) | None \<Rightarrow> None)"

fun handle_inbox_cmd :: "'ch chan_ops \<Rightarrow> bool \<Rightarrow> nat \<Rightarrow> message_cmd \<Rightarrow> 'ch kernel \<Rightarrow> 'ch kernel run" where
  "handle_inbox_cmd Ch held c (JoinTargetExited tid) S =
     Inr (case bt_get (join_map (core S c)) tid of
         Some waiters \<Rightarrow> upd_core c (\<lambda>s. s\<lparr>join_map := bt_remove (join_map s) tid\<rparr>) (push_all c waiters S)
       | None \<Rightarrow> S)"
| "handle_inbox_cmd Ch held c (Deblock pid tid) S =
     Inr (if \<not> is_thread_alive tid S then S
       else case take_blocked pid tid (blocked_list (core S c)) of
         Some (t, bl) \<Rightarrow> inc_rq_len c (upd_core c (\<lambda>s. s\<lparr>blocked_list := bl, ready_queue := t # ready_queue s\<rparr>) S)
       | None \<Rightarrow> S)"
| "handle_inbox_cmd Ch held c (Kill tid) S =
     (if \<not> is_thread_alive tid S then Inr S
      else and_then (current (core S c)) (\<lambda>cur.
        if t_id cur = tid
        then and_then (schedule_on Ch c (MCmd (Kill tid)) S) (\<lambda>(_, S1).
          schedule_on_all_others Ch c (MCmd (Kill tid)) S1)
        else and_then (kill_locally Ch held c tid S) (\<lambda>(_, S1). Inr S1)))"

fun drain_loop :: "'ch chan_ops \<Rightarrow> bool \<Rightarrow> nat \<Rightarrow> nat \<Rightarrow> nat \<Rightarrow> 'ch kernel \<Rightarrow> (nat \<times> 'ch kernel) run" where
  "drain_loop Ch held c 0 drained S = Inr (drained, S)"
| "drain_loop Ch held c (Suc n) drained S = (case try_recv Ch (inbox (cpus S ! c)) of
       None \<Rightarrow> Inr (drained, S)
     | Some (None, rx) \<Rightarrow> Inr (drained, upd_cpu c (\<lambda>p. p\<lparr>inbox := rx\<rparr>) S)
     | Some (Some (MThread t), rx) \<Rightarrow> drain_loop Ch held c n (drained + 1)
         (inc_rq_len c (upd_core c (\<lambda>s. s\<lparr>ready_queue := t # ready_queue s\<rparr>) (upd_cpu c (\<lambda>p. p\<lparr>inbox := rx\<rparr>) S)))
     | Some (Some (MCmd cmd), rx) \<Rightarrow>
         and_then (handle_inbox_cmd Ch held c cmd (upd_cpu c (\<lambda>p. p\<lparr>inbox := rx\<rparr>) S)) (drain_loop Ch held c n drained))"

definition drain_inbox_into_ready :: "'ch chan_ops \<Rightarrow> bool \<Rightarrow> nat \<Rightarrow> nat \<Rightarrow> 'ch kernel \<Rightarrow> 'ch kernel run" where
  "drain_inbox_into_ready Ch held c max_items S =
     and_then (drain_loop Ch held c max_items 0 S) (\<lambda>(drained, S1).
       Inr (if drained > 0 then clear_resched_flag c S1 else S1))"

text \<open>Threads whose time has come leave the sleep list.\<close>

definition check_sleep_list :: "nat \<Rightarrow> nat \<Rightarrow> 'ch kernel \<Rightarrow> 'ch kernel" where
  "check_sleep_list c time S =
     (let sl = sleep_list (core S c) in
      push_all c (map fst (filter (\<lambda>e. time \<ge> snd e) sl))
        (upd_core c (\<lambda>s. s\<lparr>sleep_list := filter (\<lambda>e. \<not> time \<ge> snd e) sl\<rparr>) S))"

section \<open>Giving up the processor\<close>

definition pop_back :: "'a list \<Rightarrow> ('a \<times> 'a list) option" where
  "pop_back q = (if q = [] then None else Some (last q, butlast q))"

definition block_and_switch :: "'ch chan_ops \<Rightarrow> nat \<Rightarrow> nat \<Rightarrow> 'ch kernel \<Rightarrow> 'ch kernel run" where
  "block_and_switch Ch c time S =
     and_then
       (case pop_back (ready_queue (core S c)) of
          Some (t, q) \<Rightarrow> Inr (t, upd_core c (\<lambda>s. s\<lparr>ready_queue := q\<rparr>) S)
        | None \<Rightarrow> and_then (drain_inbox_into_ready Ch True c 10 (check_sleep_list c time S)) (\<lambda>S1.
            Inr (case pop_back (ready_queue (core S1 c)) of
                Some (t, q) \<Rightarrow> (t, upd_core c (\<lambda>s. s\<lparr>ready_queue := q\<rparr>) S1)
              | None \<Rightarrow> (idle_thread (core S1 c), S1))))
       (\<lambda>(nxt, S1). and_then (current (core S1 c)) (\<lambda>cur.
          if t_id cur = t_id nxt then Inr S1
          else Inr (upd_core c (\<lambda>s. s\<lparr>current_thread := Some nxt\<rparr>) S1)))"

definition ready :: "nat \<Rightarrow> thread \<Rightarrow> 'ch kernel \<Rightarrow> 'ch kernel" where
  "ready c t S =
     upd_core c (\<lambda>s. s\<lparr>ready_queue := t # ready_queue s, join_map := bt_insert (join_map s) (t_id t) []\<rparr>)
       (inc_rq_len c (mark_thread_alive (t_id t) S))"

text \<open>Before the scheduler is initialised the caller of \<open>sleep\<close> waits actively.\<close>

definition sleep :: "'ch chan_ops \<Rightarrow> nat \<Rightarrow> nat \<Rightarrow> nat \<Rightarrow> 'ch kernel \<Rightarrow> 'ch kernel run" where
  "sleep Ch c time ms S =
     (if \<not> initialized (core S c) then Inr S
      else and_then (current (core S c)) (\<lambda>cur.
        if time + ms \<ge> 2 ^ 64 then Inl ArithOverflow
        else block_and_switch Ch c time
          (dec_rq_len c (upd_core c (\<lambda>s. s\<lparr>sleep_list := sleep_list s @ [(cur, time + ms)]\<rparr>) S))))"

definition block :: "'ch chan_ops \<Rightarrow> nat \<Rightarrow> nat \<Rightarrow> 'ch kernel \<Rightarrow> 'ch kernel run" where
  "block Ch c time S =
     (if \<not> initialized (core S c)
      then Inl (PanicMsg ''Scheduler: Cannot block thread before scheduler is initialized!'')
      else and_then (current (core S c)) (\<lambda>cur.
        block_and_switch Ch c time
          (dec_rq_len c (upd_core c (\<lambda>s. s\<lparr>blocked_list := blocked_list s @ [cur]\<rparr>) S))))"

definition deblock :: "'ch chan_ops \<Rightarrow> nat \<Rightarrow> uuid \<Rightarrow> nat \<Rightarrow> 'ch kernel \<Rightarrow> 'ch kernel run" where
  "deblock Ch c pid tid S = (case take_blocked pid tid (blocked_list (core S c)) of
       Some (t, bl) \<Rightarrow> Inr (ready c t (upd_core c (\<lambda>s. s\<lparr>blocked_list := bl\<rparr>) S))
     | None \<Rightarrow> schedule_on_all_others Ch c (MCmd (Deblock pid tid)) S)"

definition join :: "'ch chan_ops \<Rightarrow> nat \<Rightarrow> nat \<Rightarrow> nat \<Rightarrow> 'ch kernel \<Rightarrow> ((errno + nat) \<times> 'ch kernel) run" where
  "join Ch c time tid S =
     (if \<not> is_thread_alive tid S then Inr (Inl ESRCH, S)
      else and_then (current (core S c)) (\<lambda>cur.
        let jm = join_map (core S c);
            jm' = (case bt_get jm tid of Some ws \<Rightarrow> bt_insert jm tid (ws @ [cur]) | None \<Rightarrow> bt_insert jm tid [cur])
        in and_then (block_and_switch Ch c time (dec_rq_len c (upd_core c (\<lambda>s. s\<lparr>join_map := jm'\<rparr>) S)))
          (\<lambda>S1. Inr (Inr 0, S1))))"

definition exit :: "'ch chan_ops \<Rightarrow> nat \<Rightarrow> nat \<Rightarrow> 'ch kernel \<Rightarrow> 'ch kernel run" where
  "exit Ch c time S =
     and_then (current (core S c)) (\<lambda>cur.
       and_then (unjoin Ch c (t_id cur) (mark_thread_dead (t_id cur) S)) (\<lambda>S1.
         block_and_switch Ch c time (dec_rq_len c S1)))"

definition park_current_thread :: "nat \<Rightarrow> 'ch kernel \<Rightarrow> ((uuid \<times> nat) \<times> 'ch kernel) run" where
  "park_current_thread c S =
     and_then (current (core S c)) (\<lambda>cur. Inr ((t_pid cur, t_id cur), set_state (t_id cur) Parking S))"

text \<open>The last case changes the state of the current thread, not that of the thread found.\<close>

definition unblock_thread :: "nat \<Rightarrow> uuid \<Rightarrow> nat \<Rightarrow> 'ch kernel \<Rightarrow> bool \<times> 'ch kernel" where
  "unblock_thread c pid tid S = (case take_blocked pid tid (blocked_list (core S c)) of
       Some (t, bl) \<Rightarrow> (True, set_state (t_id t) Ready
         (upd_core c (\<lambda>s. s\<lparr>blocked_list := bl, ready_queue := t # ready_queue s\<rparr>) S))
     | None \<Rightarrow> (case current_thread (core S c) of
         None \<Rightarrow> (False, S)
       | Some cur \<Rightarrow>
           if t_id cur = tid \<and> t_pid cur = pid then (True, set_state (t_id cur) Running S)
           else if list_ex (\<lambda>t. t_id t = tid \<and> t_pid t = pid) (ready_queue (core S c))
           then (True, set_state (t_id cur) Ready S)
           else (False, S)))"

definition yield_now :: "nat \<Rightarrow> bool \<Rightarrow> 'ch kernel \<Rightarrow> 'ch kernel run" where
  "yield_now c locked S =
     (if \<not> initialized (core S c) then Inr S
      else and_then (current (core S c)) (\<lambda>cur.
        if locked \<or> ready_queue (core S c) = [] then Inr S
        else
          let S1 = set_state (t_id cur) Ready (upd_core c (\<lambda>s. s\<lparr>ready_queue := cur # ready_queue s\<rparr>) S) in
          case pop_back (ready_queue (core S1 c)) of
            None \<Rightarrow> Inr (set_state (t_id cur) Running S1)
          | Some (nxt, q) \<Rightarrow>
              Inr (set_state (t_id nxt) Running
                (upd_core c (\<lambda>s. s\<lparr>ready_queue := q, current_thread := Some nxt\<rparr>) S1))))"

definition start :: "nat \<Rightarrow> 'ch kernel \<Rightarrow> 'ch kernel" where
  "start c S =
     (if has_started (core S c) then S
      else upd_core c (\<lambda>s. case pop_back (ready_queue s) of
          Some (t, q) \<Rightarrow> s\<lparr>has_started := True, ready_queue := q, current_thread := Some t\<rparr>
        | None \<Rightarrow> s\<lparr>has_started := True, current_thread := Some (idle_thread s)\<rparr>) S)"

definition set_init :: "nat \<Rightarrow> 'ch kernel \<Rightarrow> 'ch kernel" where
  "set_init c = upd_core c (\<lambda>s. s\<lparr>initialized := True\<rparr>)"

section \<open>Balancing the load\<close>

text \<open>A sum that does not fit 32 bits gives the largest number.\<close>

fun sum_rq_len :: "'ch kernel \<Rightarrow> nat list \<Rightarrow> nat \<Rightarrow> nat run" where
  "sum_rq_len S [] acc = Inr acc"
| "sum_rq_len S (i # is) acc = and_then (read_rq_len_remote S i) (\<lambda>rq.
     if acc + rq \<ge> 2 ^ 32 then Inr (2 ^ 64 - 1) else sum_rq_len S is (acc + rq))"

definition active_thread_count :: "'ch kernel \<Rightarrow> nat run" where
  "active_thread_count S = sum_rq_len S [0 ..< active_cpus S] 0"

definition should_balance_now :: "nat \<Rightarrow> 'ch kernel \<Rightarrow> bool run" where
  "should_balance_now c S =
     and_then (active_thread_count S) (\<lambda>n.
       if active_cpus S = 0 then Inl ArithOverflow
       else if n mod 2 ^ 32 div active_cpus S + 1 \<ge> 2 ^ 32 then Inl ArithOverflow
       else Inr (read_rq_len S c > n mod 2 ^ 32 div active_cpus S + 1))"

fun least_loaded :: "'ch kernel \<Rightarrow> nat list \<Rightarrow> nat \<Rightarrow> nat \<Rightarrow> (nat \<times> nat) run" where
  "least_loaded S [] cur least = Inr (cur, least)"
| "least_loaded S (i # is) cur least = and_then (read_rq_len_remote S i) (\<lambda>rq.
     if least > rq then least_loaded S is i rq else least_loaded S is cur least)"

definition find_less_loaded_core :: "nat \<Rightarrow> 'ch kernel \<Rightarrow> (nat \<times> nat) option run" where
  "find_less_loaded_core c S =
     and_then (read_rq_len_remote S 0) (\<lambda>first.
     and_then (least_loaded S [1 ..< active_cpus S] 0 first) (\<lambda>(cur, least).
       Inr (if least \<ge> read_rq_len S c then None else Some (cur, least))))"

fun most_loaded :: "'ch kernel \<Rightarrow> nat list \<Rightarrow> nat \<Rightarrow> nat \<Rightarrow> (nat \<times> nat) run" where
  "most_loaded S [] cur most = Inr (cur, most)"
| "most_loaded S (i # is) cur most = and_then (read_rq_len_remote S i) (\<lambda>rq.
     if most < rq then most_loaded S is i rq else most_loaded S is cur most)"

definition find_more_loaded_core :: "nat \<Rightarrow> 'ch kernel \<Rightarrow> nat option run" where
  "find_more_loaded_core c S =
     and_then (read_rq_len_remote S 0) (\<lambda>first.
     and_then (most_loaded S [1 ..< active_cpus S] 0 first) (\<lambda>(cur, most).
       Inr (if most \<le> read_rq_len S c \<or> most < 2 then None else Some cur)))"

text \<open>A thread whose message does not fit into the inbox of the target is dropped.\<close>

fun move_threads :: "'ch chan_ops \<Rightarrow> nat \<Rightarrow> nat \<Rightarrow> nat \<Rightarrow> 'ch kernel \<Rightarrow> 'ch kernel run" where
  "move_threads Ch c target 0 S = Inr S"
| "move_threads Ch c target (Suc n) S = (case ready_queue (core S c) of
       [] \<Rightarrow> move_threads Ch c target n S
     | t # q \<Rightarrow>
         and_then (schedule_on Ch target (MThread t) (dec_rq_len c (upd_core c (\<lambda>s. s\<lparr>ready_queue := q\<rparr>) S)))
           (\<lambda>(_, S1). move_threads Ch c target n S1))"

definition balance_once :: "'ch chan_ops \<Rightarrow> nat \<Rightarrow> 'ch kernel \<Rightarrow> 'ch kernel run" where
  "balance_once Ch c S =
     (let own_load = read_rq_len S c in
      if own_load \<le> 1 then Inr S
      else and_then (find_less_loaded_core c S) (\<lambda>found. case found of
          None \<Rightarrow> Inr S
        | Some (target, target_load) \<Rightarrow>
            if own_load \<ge> target_load + 2
            then move_threads Ch c target ((own_load - target_load) div 4 + 1) S
            else Inr S))"

section \<open>The thread switch\<close>

text \<open>
  What the interrupt finds: which locks are free, whether preemption is disabled, and the time.
  The result counts the end-of-interrupt signals.
\<close>

record switch_env =
  state_free :: bool
  sleep_free :: bool
  preempt_off :: bool
  stack_locked :: bool
  sw_time :: nat

definition eoi :: "bool \<Rightarrow> nat" where
  "eoi interrupt = (if interrupt then 1 else 0)"

definition switch_thread :: "'ch chan_ops \<Rightarrow> nat \<Rightarrow> bool \<Rightarrow> switch_env \<Rightarrow> 'ch kernel \<Rightarrow> (nat \<times> 'ch kernel) run" where
  "switch_thread Ch c interrupt env S =
     (if \<not> state_free env \<or> \<not> initialized (core S c) \<or> preempt_off env then Inr (eoi interrupt, S)
      else and_then (drain_inbox_into_ready Ch False c 10
          (if sleep_free env then check_sleep_list c (sw_time env) S else S)) (\<lambda>S1.
        and_then (if resched_flag (cpus S1 ! c) then Inr True else should_balance_now c S1) (\<lambda>balance.
        and_then (if balance then balance_once Ch c S1 else Inr S1) (\<lambda>S2.
        and_then (current (core S2 c)) (\<lambda>cur.
          let was_idle = (t_id cur = t_id (idle_thread (core S2 c))) in
          if stack_locked env then Inr (eoi interrupt, S2)
          else case pop_back (ready_queue (core S2 c)) of
            Some (nxt, q) \<Rightarrow> Inr (eoi interrupt, upd_core c (\<lambda>s. s\<lparr>current_thread := Some nxt,
              ready_queue := (if was_idle then q else cur # q)\<rparr>) S2)
          | None \<Rightarrow>
              if was_idle then Inr (eoi interrupt, S2)
              else Inr (2 * eoi interrupt, upd_core c (\<lambda>s. s\<lparr>current_thread := Some (idle_thread s),
                ready_queue := [cur]\<rparr>) S2))))))"

end
