(* ===== verification/SchedulerProps.thy ===== *)
theory SchedulerProps
  imports Scheduler
begin

text \<open>
  Properties of the scheduler. The multiset \<open>thread_ids\<close> counts every thread at every place where
  the scheduler keeps threads, on all cores and in the messages on their way; the operations
  move threads between these places, and only the end of a thread takes one away.
\<close>

section \<open>The contract of the channels\<close>

definition chan_spec :: "'ch chan_ops \<Rightarrow> ('ch \<Rightarrow> message_item option list) \<Rightarrow> nat \<Rightarrow> bool" where
  "chan_spec Ch contents cap \<longleftrightarrow>
     (\<forall>q m. case try_send Ch q m of Some q' \<Rightarrow> length (contents q) < cap \<and> contents q' = contents q @ [m]
        | None \<Rightarrow> cap \<le> length (contents q)) \<and>
     (\<forall>q. case try_recv Ch q of Some (m, q') \<Rightarrow> contents q = m # contents q' | None \<Rightarrow> contents q = [])"

lemma chan_send:
  assumes "chan_spec Ch contents cap" and "try_send Ch q m = Some q'"
  shows "contents q' = contents q @ [m]"
  using assms by (auto simp: chan_spec_def dest!: spec [of _ q] spec [of _ m] split: option.splits)

lemma chan_send_full:
  assumes "chan_spec Ch contents cap" and "try_send Ch q m = None"
  shows "cap \<le> length (contents q)"
  using assms by (auto simp: chan_spec_def dest!: spec [of _ q] spec [of _ m] split: option.splits)

lemma chan_recv:
  assumes "chan_spec Ch contents cap" and "try_recv Ch q = Some (m, q')"
  shows "contents q = m # contents q'"
  using assms by (auto simp: chan_spec_def dest!: spec [of _ q] split: option.splits)

lemma chan_recv_empty:
  assumes "chan_spec Ch contents cap" and "try_recv Ch q = None"
  shows "contents q = []"
  using assms by (auto simp: chan_spec_def dest!: spec [of _ q] split: option.splits)

section \<open>Where the threads are\<close>

definition queued_ids :: "sched \<Rightarrow> nat multiset" where
  "queued_ids s = mset (map t_id (ready_queue s)) + mset (map (\<lambda>e. t_id (fst e)) (sleep_list s)) +
     mset (map t_id (blocked_list s)) + mset (map t_id (concat (map snd (join_map s))))"

definition running_ids :: "sched \<Rightarrow> nat multiset" where
  "running_ids s = (case current_thread s of
       Some t \<Rightarrow> if t_id t = t_id (idle_thread s) then {#} else {#t_id t#} | None \<Rightarrow> {#})"

fun msg_ids :: "message_item option \<Rightarrow> nat multiset" where
  "msg_ids (Some (MThread t)) = {#t_id t#}"
| "msg_ids _ = {#}"

definition inbox_ids :: "('ch \<Rightarrow> message_item option list) \<Rightarrow> 'ch per_cpu \<Rightarrow> nat multiset" where
  "inbox_ids contents p = sum_list (map msg_ids (contents (inbox p)))"

definition queued_all :: "('ch \<Rightarrow> message_item option list) \<Rightarrow> 'ch kernel \<Rightarrow> nat multiset" where
  "queued_all contents S = sum_list (map queued_ids (scheds S)) + sum_list (map (inbox_ids contents) (cpus S))"

definition running_all :: "'ch kernel \<Rightarrow> nat multiset" where
  "running_all S = sum_list (map running_ids (scheds S))"

definition thread_ids :: "('ch \<Rightarrow> message_item option list) \<Rightarrow> 'ch kernel \<Rightarrow> nat multiset" where
  "thread_ids contents S = running_all S + queued_all contents S"

lemma sum_list_upd:
  fixes f :: "'a \<Rightarrow> 'b :: cancel_comm_monoid_add"
  shows "c < length xs \<Longrightarrow> sum_list (map f (xs[c := y])) + f (xs ! c) = sum_list (map f xs) + f y"
proof (induction xs arbitrary: c)
  case (Cons x xs)
  then show ?case by (cases c) (auto simp: ac_simps)
qed simp

text \<open>What a change of one core does to the sums.\<close>

definition here :: "'ch kernel \<Rightarrow> nat \<Rightarrow> bool" where
  "here S c \<longleftrightarrow> c < length (scheds S) \<and> c < length (cpus S)"

lemma queued_upd_core:
  "here S c \<Longrightarrow> queued_all C (upd_core c f S) + queued_ids (core S c) = queued_all C S + queued_ids (f (core S c))"
  using sum_list_upd [of c "scheds S" queued_ids "f (core S c)"]
  by (simp add: queued_all_def upd_core_def here_def ac_simps)

lemma running_upd_core:
  "here S c \<Longrightarrow> running_all (upd_core c f S) + running_ids (core S c) = running_all S + running_ids (f (core S c))"
  using sum_list_upd [of c "scheds S" running_ids "f (core S c)"]
  by (simp add: running_all_def upd_core_def here_def ac_simps)

lemma queued_upd_cpu:
  "i < length (cpus S) \<Longrightarrow>
   queued_all C (upd_cpu i f S) + inbox_ids C (cpus S ! i) = queued_all C S + inbox_ids C (f (cpus S ! i))"
  using sum_list_upd [of i "cpus S" "inbox_ids C" "f (cpus S ! i)"]
  by (simp add: queued_all_def upd_cpu_def ac_simps)

lemma inbox_ids_same: "inbox p' = inbox p \<Longrightarrow> inbox_ids C p' = inbox_ids C p"
  by (simp add: inbox_ids_def)

lemma queued_upd_cpu_same:
  assumes "\<And>p. inbox (f p) = inbox p"
  shows "queued_all C (upd_cpu i f S) = queued_all C S"
proof (cases "i < length (cpus S)")
  case True
  have "inbox_ids C (f (cpus S ! i)) = inbox_ids C (cpus S ! i)" by (rule inbox_ids_same [OF assms])
  with queued_upd_cpu [OF True, of C f] show ?thesis by simp
next
  case False
  then show ?thesis by (simp add: upd_cpu_def list_update_beyond)
qed

lemma frame_simps [simp]:
  "scheds (upd_cpu i g S) = scheds S" "cpus (upd_core c f S) = cpus S"
  "scheds (set_state t st S) = scheds S" "cpus (set_state t st S) = cpus S"
  "scheds (mark_thread_alive t S) = scheds S" "cpus (mark_thread_alive t S) = cpus S"
  "scheds (mark_thread_dead t S) = scheds S" "cpus (mark_thread_dead t S) = cpus S"
  "active_cpus (upd_core c f S) = active_cpus S" "active_cpus (upd_cpu i g S) = active_cpus S"
  "length (scheds (upd_core c f S)) = length (scheds S)" "length (cpus (upd_cpu i g S)) = length (cpus S)"
  "thread_id_counter (upd_core c f S) = thread_id_counter S" "thread_id_counter (upd_cpu i g S) = thread_id_counter S"
  "thread_id_counter (set_state t st S) = thread_id_counter S"
  "thread_id_counter (mark_thread_alive t S) = thread_id_counter S"
  "thread_id_counter (mark_thread_dead t S) = thread_id_counter S"
  "active_cpus (set_state t st S) = active_cpus S" "active_cpus (mark_thread_alive t S) = active_cpus S"
  "active_cpus (mark_thread_dead t S) = active_cpus S"
  by (simp_all add: upd_cpu_def upd_core_def set_state_def mark_thread_alive_def mark_thread_dead_def)

lemma core_upd [simp]: "c < length (scheds S) \<Longrightarrow> core (upd_core c f S) c = f (core S c)"
  by (simp add: upd_core_def)

lemma core_upd_other: "i \<noteq> c \<Longrightarrow> core (upd_core c f S) i = core S i"
  by (simp add: upd_core_def)

lemma running_frame [simp]:
  "running_all (upd_cpu i g S) = running_all S" "running_all (set_state t st S) = running_all S"
  "running_all (mark_thread_alive t S) = running_all S" "running_all (mark_thread_dead t S) = running_all S"
  by (simp_all add: running_all_def)

lemma queued_frame [simp]:
  "queued_all C (set_state t st S) = queued_all C S"
  "queued_all C (mark_thread_alive t S) = queued_all C S" "queued_all C (mark_thread_dead t S) = queued_all C S"
  by (simp_all add: queued_all_def)

declare queued_upd_cpu_same [simp] inc_rq_len_def [simp] dec_rq_len_def [simp] set_resched_flag_def [simp]
  clear_resched_flag_def [simp]

lemma here_frame [simp]:
  "here (upd_core c f S) i \<longleftrightarrow> here S i" "here (upd_cpu c g S) i \<longleftrightarrow> here S i" "here (set_state t st S) i \<longleftrightarrow> here S i"
  "here (mark_thread_alive t S) i \<longleftrightarrow> here S i" "here (mark_thread_dead t S) i \<longleftrightarrow> here S i"
  by (simp_all add: here_def)

text \<open>
  The operations keep, for every core, who is running and who the idle thread is, and the
  order of the join map, until the switch at their end; \<open>same_roles\<close> collects that.
\<close>

definition role_ok :: "sched \<Rightarrow> sched \<Rightarrow> bool" where
  "role_ok s s' \<longleftrightarrow> current_thread s' = current_thread s \<and> idle_thread s' = idle_thread s \<and>
     initialized s' = initialized s \<and> (bt_wf (join_map s) \<longrightarrow> bt_wf (join_map s'))"

definition same_roles :: "'ch kernel \<Rightarrow> 'ch kernel \<Rightarrow> bool" where
  "same_roles S S' \<longleftrightarrow> length (scheds S') = length (scheds S) \<and> length (cpus S') = length (cpus S) \<and>
     thread_id_counter S' = thread_id_counter S \<and> active_cpus S' = active_cpus S \<and>
     (\<forall>i. role_ok (core S i) (core S' i))"

declare role_ok_def [simp] bt.ok_ins [simp] bt.ok_rem [simp]

lemma same_roles_refl [simp, intro]: "same_roles S S"
  by (simp add: same_roles_def)

lemma same_roles_trans [trans]: "same_roles S T \<Longrightarrow> same_roles T U \<Longrightarrow> same_roles S U"
  by (simp add: same_roles_def)

lemma same_roles_frame [simp]:
  "same_roles S (upd_cpu i g S)" "same_roles S (set_state t st S)"
  "same_roles S (mark_thread_alive t S)" "same_roles S (mark_thread_dead t S)"
  by (simp_all add: same_roles_def)

lemma same_roles_core:
  assumes "\<And>s. role_ok s (f s)"
  shows "same_roles S (upd_core c f S)"
proof -
  have "core (upd_core c f S) i = (if i = c \<and> c < length (scheds S) then f (core S c) else core S i)" for i
    by (cases "c < length (scheds S)") (auto simp: upd_core_def list_update_beyond)
  then show ?thesis using assms by (simp add: same_roles_def)
qed

lemma running_all_cong: "same_roles S S' \<Longrightarrow> running_all S' = running_all S"
proof -
  assume s: "same_roles S S'"
  have "map running_ids (scheds S') = map running_ids (scheds S)"
    by (rule nth_equalityI) (use s in \<open>auto simp: same_roles_def running_ids_def split: option.split\<close>)
  then show ?thesis by (simp add: running_all_def)
qed

lemma same_roles_here: "same_roles S S' \<Longrightarrow> here S' c \<longleftrightarrow> here S c"
  by (simp add: same_roles_def here_def)

section \<open>Operations keep the threads\<close>

text \<open>An operation that keeps the roles and takes no thread away, and one that may take some away.\<close>

definition keeps :: "('ch \<Rightarrow> message_item option list) \<Rightarrow> 'ch kernel \<Rightarrow> 'ch kernel \<Rightarrow> bool" where
  "keeps C S S' \<longleftrightarrow> same_roles S S' \<and> queued_all C S' = queued_all C S"

definition shrinks :: "('ch \<Rightarrow> message_item option list) \<Rightarrow> 'ch kernel \<Rightarrow> 'ch kernel \<Rightarrow> bool" where
  "shrinks C S S' \<longleftrightarrow> same_roles S S' \<and> queued_all C S' \<subseteq># queued_all C S"

lemma keeps_refl [simp, intro]: "keeps C S S"
  by (simp add: keeps_def)

lemma shrinks_refl [simp, intro]: "shrinks C S S"
  by (simp add: shrinks_def)

lemma keeps_trans [trans]: "keeps C S T \<Longrightarrow> keeps C T U \<Longrightarrow> keeps C S U"
  by (auto simp: keeps_def intro: same_roles_trans)

lemma shrinks_trans [trans]: "shrinks C S T \<Longrightarrow> shrinks C T U \<Longrightarrow> shrinks C S U"
  by (auto simp: shrinks_def intro: same_roles_trans subset_mset.order_trans)

lemma keeps_shrinks: "keeps C S T \<Longrightarrow> shrinks C S T"
  by (simp add: keeps_def shrinks_def)

lemma keeps_here: "keeps C S T \<Longrightarrow> here T c \<longleftrightarrow> here S c"
  by (simp add: keeps_def same_roles_here)

lemma shrinks_here: "shrinks C S T \<Longrightarrow> here T c \<longleftrightarrow> here S c"
  by (simp add: shrinks_def same_roles_here)

lemma keeps_frame [simp]:
  "keeps C S (set_state t st S)" "keeps C S (mark_thread_alive t S)" "keeps C S (mark_thread_dead t S)"
  "(\<And>p. inbox (g p) = inbox p) \<Longrightarrow> keeps C S (upd_cpu i g S)"
  by (simp_all add: keeps_def)

lemma keeps_core:
  assumes "here S c" and "queued_ids (f (core S c)) = queued_ids (core S c)"
    and "\<And>s. role_ok s (f s)"
  shows "keeps C S (upd_core c f S)"
  using queued_upd_core [OF assms(1), of C f] assms(2) same_roles_core [OF assms(3)] by (simp add: keeps_def)

lemma send_cmd_keeps:
  assumes Ch: "chan_spec Ch C cap" and "try_send Ch (inbox p) (Some (MCmd cmd)) = Some tx"
    and "per_cpu_ref S i = Inr p"
  shows "keeps C S (upd_cpu i (\<lambda>p. p\<lparr>inbox := tx\<rparr>) S)"
proof -
  have i: "i < length (cpus S)" "p = cpus S ! i" using assms(3) by (auto simp: per_cpu_ref_def split: if_splits)
  have "inbox_ids C ((cpus S ! i)\<lparr>inbox := tx\<rparr>) = inbox_ids C (cpus S ! i)"
    using chan_send [OF assms(1,2)] i(2) by (simp add: inbox_ids_def)
  with queued_upd_cpu [OF i(1), of C "\<lambda>p. p\<lparr>inbox := tx\<rparr>"] show ?thesis by (simp add: keeps_def)
qed

lemma send_all_keeps:
  assumes Ch: "chan_spec Ch C cap"
  shows "send_all Ch (MCmd cmd) is S = Inr S' \<Longrightarrow> keeps C S S'"
proof (induction "is" arbitrary: S)
  case (Cons i "is")
  then obtain p tx where p: "per_cpu_ref S i = Inr p" "try_send Ch (inbox p) (Some (MCmd cmd)) = Some tx"
    "send_all Ch (MCmd cmd) is (upd_cpu i (\<lambda>p. p\<lparr>inbox := tx\<rparr>) S) = Inr S'"
    by (auto elim!: and_then_InrE split: option.splits)
  from send_cmd_keeps [OF Ch p(2,1)] Cons.IH [OF p(3)] show ?case by (rule keeps_trans)
qed simp

lemma schedule_cmd_keeps:
  assumes "chan_spec Ch C cap" and "schedule_on_all_others Ch c (MCmd cmd) S = Inr S'"
  shows "keeps C S S'"
  using send_all_keeps assms unfolding schedule_on_all_others_def by blast

lemma schedule_on_cmd_keeps:
  assumes "chan_spec Ch C cap" and "schedule_on Ch i (MCmd cmd) S = Inr (r, S')"
  shows "keeps C S S'"
  using assms(2) by (auto simp: schedule_on_def elim!: and_then_InrE split: option.splits intro: send_cmd_keeps [OF assms(1)])

lemma queued_push: "queued_ids (s\<lparr>ready_queue := t # ready_queue s\<rparr>) = add_mset (t_id t) (queued_ids s)"
  by (simp add: queued_ids_def)

lemma push_ids:
  assumes "here S c"
  shows "queued_all C (upd_core c (\<lambda>s. s\<lparr>ready_queue := t # ready_queue s\<rparr>) S) = add_mset (t_id t) (queued_all C S)"
  using queued_upd_core [OF assms, of C "\<lambda>s. s\<lparr>ready_queue := t # ready_queue s\<rparr>"] by (simp add: queued_push)

lemma push_all_ids:
  "here S c \<Longrightarrow> same_roles S (push_all c ts S) \<and> queued_all C (push_all c ts S) = queued_all C S + mset (map t_id ts)"
proof (induction ts arbitrary: S)
  case (Cons t ts)
  let ?T = "upd_core c (\<lambda>s. s\<lparr>ready_queue := t # ready_queue s\<rparr>) S"
  let ?S = "inc_rq_len c ?T"
  have q: "queued_all C ?S = add_mset (t_id t) (queued_all C S)" by (simp add: push_ids [OF Cons.prems])
  have "same_roles S ?T" by (rule same_roles_core) simp
  also have "same_roles ?T ?S" by simp
  finally have roles: "same_roles S ?S" .
  have "here ?S c" using Cons.prems by simp
  from Cons.IH [OF this] q same_roles_trans [OF roles] show ?case by simp
qed simp

lemma join_remove_ids:
  fixes jm :: "(nat, thread list) btree"
  shows "mset (map t_id (concat (map snd jm))) =
    mset (map t_id (concat (map snd (bt_remove jm k)))) + mset (map t_id (case bt_get jm k of Some ws \<Rightarrow> ws | None \<Rightarrow> []))"
  by (induction jm k rule: bt_remove.induct) auto

text \<open>Waiting threads go from the join map to the ready queue.\<close>

definition waiters :: "sched \<Rightarrow> nat \<Rightarrow> thread list" where
  "waiters s tid = (case bt_get (join_map s) tid of Some ws \<Rightarrow> ws | None \<Rightarrow> [])"

lemma queued_unjoin: "queued_ids (s\<lparr>join_map := bt_remove (join_map s) tid\<rparr>) + mset (map t_id (waiters s tid)) = queued_ids s"
  using join_remove_ids [of "join_map s" tid] by (simp add: queued_ids_def waiters_def)

lemma push_all_join_map: "here S c \<Longrightarrow> join_map (core (push_all c ts S) c) = join_map (core S c)"
  by (induction ts arbitrary: S) (auto simp: here_def)

lemma upd_cpu_inbox: "(\<And>p. inbox (f p) = inbox p) \<Longrightarrow> inbox (cpus (upd_cpu c f S) ! i) = inbox (cpus S ! i)"
  by (cases "c < length (cpus S)"; cases "c = i") (auto simp: upd_cpu_def list_update_beyond)

lemma push_all_inbox: "inbox (cpus (push_all c ts S) ! i) = inbox (cpus S ! i)"
  by (induction ts arbitrary: S) (auto simp: upd_cpu_inbox)

lemma remove_join_ids:
  assumes "here S c"
  shows "queued_all C (upd_core c (\<lambda>s. s\<lparr>join_map := bt_remove (join_map s) tid\<rparr>) S) +
    mset (map t_id (waiters (core S c) tid)) = queued_all C S"
proof -
  let ?f = "\<lambda>s. s\<lparr>join_map := bt_remove (join_map s) tid\<rparr>" and ?w = "mset (map t_id (waiters (core S c) tid))"
  have "queued_all C (upd_core c ?f S) + ?w + queued_ids (?f (core S c)) =
      queued_all C (upd_core c ?f S) + queued_ids (core S c)"
    unfolding queued_unjoin [of "core S c" tid, symmetric] by (simp add: ac_simps)
  also have "\<dots> = queued_all C S + queued_ids (?f (core S c))" by (rule queued_upd_core [OF assms])
  finally show ?thesis by simp
qed

lemma send_all_frame: "send_all Ch item is S = Inr S' \<Longrightarrow> scheds S' = scheds S"
  by (induction "is" arbitrary: S) (fastforce elim!: and_then_InrE split: option.splits)+

lemma unjoin_keeps:
  assumes Ch: "chan_spec Ch C cap" and c: "here S c" and un: "unjoin Ch c tid S = Inr S'"
  shows "keeps C S S'"
proof -
  let ?f = "\<lambda>s. s\<lparr>join_map := bt_remove (join_map s) tid\<rparr>" and ?ws = "waiters (core S c) tid"
  define S1 where "S1 = push_all c ?ws S"
  have "(case bt_get (join_map (core S c)) tid of Some ws \<Rightarrow> push_all c ws S | None \<Rightarrow> S) = S1"
    by (simp add: S1_def waiters_def split: option.split)
  with un obtain S2 where S2: "schedule_on_all_others Ch c (MCmd (JoinTargetExited tid)) S1 = Inr S2" "S' = upd_core c ?f S2"
    by (auto simp: unjoin_def Let_def elim!: and_then_InrE)
  have push: "same_roles S S1" "queued_all C S1 = queued_all C S + mset (map t_id ?ws)"
    using push_all_ids [OF c] by (auto simp: S1_def)
  have k: "keeps C S1 S2" by (rule schedule_cmd_keeps [OF Ch S2(1)])
  have "scheds S2 = scheds S1" using S2(1) send_all_frame unfolding schedule_on_all_others_def by blast
  then have "join_map (core S2 c) = join_map (core S c)" using push_all_join_map [OF c] by (simp add: S1_def)
  then have ws: "waiters (core S2 c) tid = ?ws" by (simp add: waiters_def)
  have "here S2 c" using c k push(1) by (simp add: keeps_here same_roles_here)
  from remove_join_ids [OF this, of C tid] have "queued_all C S' = queued_all C S"
    using push(2) k by (simp add: ws S2(2) keeps_def)
  moreover have "same_roles S2 S'" unfolding S2(2) by (rule same_roles_core) simp
  ultimately show ?thesis using push(1) k by (auto simp: keeps_def intro: same_roles_trans)
qed

lemma filter_ids: "mset (map t_id (filter P ts)) \<subseteq># mset (map t_id ts)"
  by (simp add: image_mset_subseteq_mono multiset_filter_subset)

lemma remove_thread_ids:
  assumes "remove_thread tid s = (changed, s')"
  shows "queued_ids s' \<subseteq># queued_ids s \<and> role_ok s s'"
proof -
  have keys: "map (fst \<circ> (\<lambda>(k, ws). (k, filter P ws))) jm = map fst jm" for P and jm :: "(nat, thread list) btree"
    by auto
  have join: "mset (concat (map (snd \<circ> (\<lambda>(k, ws). (k, filter P ws))) jm)) \<subseteq># mset (concat (map snd jm))" for P jm
    by (induction jm) (auto intro!: subset_mset.add_mono)
  show ?thesis using assms unfolding remove_thread_def Let_def
    by (auto simp: queued_ids_def bt_wf_def keys split: if_splits
      intro!: subset_mset.add_mono image_mset_subseteq_mono multiset_filter_subset join)
qed

lemma mset_cancel_le:
  fixes X Y A B :: "'a multiset"
  assumes "X + A = Y + B" and "B \<subseteq># A"
  shows "X \<subseteq># Y"
proof -
  obtain D where "A = B + D" using assms(2) by (auto simp: subset_mset.le_iff_add)
  with assms(1) have "Y = X + D" by (simp add: add.left_commute add.commute)
  then show ?thesis by simp
qed

lemma shrinks_core:
  assumes "here S c" and "queued_ids s' \<subseteq># queued_ids (core S c)"
    and "role_ok (core S c) s'"
  shows "shrinks C S (upd_core c (\<lambda>_. s') S)"
proof -
  have "queued_all C (upd_core c (\<lambda>_. s') S) + queued_ids (core S c) = queued_all C S + queued_ids s'"
    using queued_upd_core [OF assms(1), of C "\<lambda>_. s'"] by simp
  then have "queued_all C (upd_core c (\<lambda>_. s') S) \<subseteq># queued_all C S" using assms(2) by (rule mset_cancel_le)
  moreover have "core (upd_core c (\<lambda>_. s') S) i = (if i = c then s' else core S i)" for i
    using assms(1) by (auto simp: upd_core_def here_def)
  ultimately show ?thesis using assms(3) by (simp add: shrinks_def same_roles_def)
qed

lemma kill_locally_shrinks:
  assumes Ch: "chan_spec Ch C cap" and c: "here S c" and k: "kill_locally Ch held c tid S = Inr (found, S')"
  shows "shrinks C S S'"
proof (cases "is_thread_alive tid S")
  case False
  with k show ?thesis by (simp add: kill_locally_def)
next
  case alive: True
  obtain changed s' where r: "remove_thread tid (core S c) = (changed, s')" by fastforce
  have d: "\<not> (held \<and> list_all (\<lambda>t. t_id t \<noteq> tid) (ready_queue (core S c)))" using k alive by (auto simp: kill_locally_def)
  let ?S1 = "upd_core c (\<lambda>_. s') S"
  have s1: "shrinks C S ?S1" using remove_thread_ids [OF r] by (intro shrinks_core [OF c]) auto
  show ?thesis
  proof (cases changed)
    case False
    with k alive d r s1 show ?thesis by (simp add: kill_locally_def)
  next
    case ch: True
    with k alive d r obtain S2 where S2: "unjoin Ch c tid (mark_thread_dead tid ?S1) = Inr S2" "S' = dec_rq_len c S2"
      by (auto simp: kill_locally_def elim!: and_then_InrE)
    have "keeps C (mark_thread_dead tid ?S1) S2" by (rule unjoin_keeps [OF Ch _ S2(1)]) (use c in simp)
    moreover have "keeps C ?S1 (mark_thread_dead tid ?S1)" "keeps C S2 S'" by (simp_all add: S2(2))
    ultimately show ?thesis using s1 by (meson keeps_shrinks keeps_trans shrinks_trans)
  qed
qed

lemma take_blockedD:
  assumes "take_blocked pid tid bl = Some (t, bl')"
  shows "mset bl = add_mset t (mset bl') \<and> t_id t = tid \<and> t_pid t = pid"
  using assms by (auto simp: take_blocked_def extract_Some_iff split: option.splits)

lemma deblock_ids:
  assumes "here S c" and "take_blocked pid tid (blocked_list (core S c)) = Some (t, bl)"
  shows "keeps C S (upd_core c (\<lambda>s. s\<lparr>blocked_list := bl, ready_queue := t # ready_queue s\<rparr>) S)"
proof (rule keeps_core [OF assms(1)])
  have "mset (map t_id (blocked_list (core S c))) = add_mset (t_id t) (mset (map t_id bl))"
    using take_blockedD [OF assms(2)] by (metis image_mset_add_mset mset_map)
  then show "queued_ids ((core S c)\<lparr>blocked_list := bl, ready_queue := t # ready_queue (core S c)\<rparr>) = queued_ids (core S c)"
    by (simp add: queued_ids_def)
qed simp

fun is_kill :: "message_item option \<Rightarrow> bool" where
  "is_kill (Some (MCmd (Kill _))) = True"
| "is_kill _ = False"

lemma handle_shrinks:
  assumes Ch: "chan_spec Ch C cap" and c: "here S c" and h: "handle_inbox_cmd Ch held c cmd S = Inr S'"
  shows "shrinks C S S' \<and> (\<not> is_kill (Some (MCmd cmd)) \<longrightarrow> keeps C S S' \<and> inbox (cpus S' ! c) = inbox (cpus S ! c))"
proof (cases cmd)
  case (JoinTargetExited tid)
  show ?thesis
  proof (cases "bt_get (join_map (core S c)) tid")
    case None
    with h JoinTargetExited show ?thesis by simp
  next
    case (Some ws)
    let ?S1 = "push_all c ws S"
    have S': "S' = upd_core c (\<lambda>s. s\<lparr>join_map := bt_remove (join_map s) tid\<rparr>) ?S1"
      using h JoinTargetExited Some by simp
    have p: "same_roles S ?S1" "queued_all C ?S1 = queued_all C S + mset (map t_id ws)" using push_all_ids [OF c] by auto
    have "waiters (core ?S1 c) tid = ws" using push_all_join_map [OF c] Some by (simp add: waiters_def)
    with remove_join_ids [of ?S1 c C tid] p c have "queued_all C S' = queued_all C S"
      by (simp add: S' same_roles_here)
    moreover have "same_roles ?S1 S'" unfolding S' by (rule same_roles_core) simp
    ultimately have "keeps C S S'" using p(1) by (auto simp: keeps_def intro: same_roles_trans)
    moreover have "inbox (cpus S' ! c) = inbox (cpus S ! c)" by (simp add: S' push_all_inbox)
    ultimately show ?thesis using keeps_shrinks by blast
  qed
next
  case (Deblock pid tid)
  show ?thesis
  proof (cases "is_thread_alive tid S \<and> take_blocked pid tid (blocked_list (core S c)) \<noteq> None")
    case False
    with h Deblock show ?thesis by (auto split: if_splits option.splits)
  next
    case True
    then obtain t bl where b: "take_blocked pid tid (blocked_list (core S c)) = Some (t, bl)" by auto
    let ?T = "upd_core c (\<lambda>s. s\<lparr>blocked_list := bl, ready_queue := t # ready_queue s\<rparr>) S"
    have S': "S' = inc_rq_len c ?T" using h Deblock True b by simp
    have "keeps C S ?T" by (rule deblock_ids [OF c b])
    also have "keeps C ?T S'" by (simp add: S')
    finally show ?thesis using keeps_shrinks by (auto simp: S' upd_cpu_inbox)
  qed
next
  case (Kill tid)
  have "shrinks C S S'"
  proof (cases "is_thread_alive tid S")
    case True
    with h Kill obtain cur where cur: "current (core S c) = Inr cur" by (auto elim!: and_then_InrE)
    show ?thesis
    proof (cases "t_id cur = tid")
      case self: True
      then obtain r S1 where "schedule_on Ch c (MCmd (Kill tid)) S = Inr (r, S1)"
        and "schedule_on_all_others Ch c (MCmd (Kill tid)) S1 = Inr S'"
        using h Kill True cur by (auto elim!: and_then_InrE)
      then show ?thesis
        using keeps_trans [OF schedule_on_cmd_keeps [OF Ch] schedule_cmd_keeps [OF Ch]] keeps_shrinks by blast
    next
      case False
      then obtain r where "kill_locally Ch held c tid S = Inr (r, S')"
        using h Kill True cur by (auto elim!: and_then_InrE)
      then show ?thesis by (rule kill_locally_shrinks [OF Ch c])
    qed
  qed (use h Kill in simp)
  then show ?thesis using Kill by simp
qed

text \<open>Taking messages out of the inbox.\<close>

lemma recv_ids:
  assumes Ch: "chan_spec Ch C cap" and c: "here S c" and r: "try_recv Ch (inbox (cpus S ! c)) = Some (m, rx)"
  defines "T \<equiv> upd_cpu c (\<lambda>p. p\<lparr>inbox := rx\<rparr>) S"
  shows "queued_all C S = queued_all C T + msg_ids m" "C (inbox (cpus S ! c)) = m # C (inbox (cpus T ! c))"
proof -
  have l: "c < length (cpus S)" using c by (simp add: here_def)
  then have "inbox_ids C (cpus S ! c) = msg_ids m + inbox_ids C ((cpus S ! c)\<lparr>inbox := rx\<rparr>)"
    using chan_recv [OF Ch r] by (simp add: inbox_ids_def)
  with queued_upd_cpu [OF l, of C "\<lambda>p. p\<lparr>inbox := rx\<rparr>"] show "queued_all C S = queued_all C T + msg_ids m"
    by (simp add: T_def)
  show "C (inbox (cpus S ! c)) = m # C (inbox (cpus T ! c))"
    using chan_recv [OF Ch r] l by (simp add: T_def upd_cpu_def)
qed

lemma drain_loop_ids:
  assumes Ch: "chan_spec Ch C cap"
  shows "here S c \<Longrightarrow> drain_loop Ch held c n d S = Inr (d', S') \<Longrightarrow>
    shrinks C S S' \<and> ((\<forall>m \<in> set (C (inbox (cpus S ! c))). \<not> is_kill m) \<longrightarrow> keeps C S S')"
proof (induction n arbitrary: d S)
  case (Suc n)
  show ?case
  proof (cases "try_recv Ch (inbox (cpus S ! c))")
    case None
    with Suc.prems show ?thesis by simp
  next
    case (Some p)
    then obtain m rx where r: "try_recv Ch (inbox (cpus S ! c)) = Some (m, rx)" by (cases p) auto
    let ?T = "upd_cpu c (\<lambda>p. p\<lparr>inbox := rx\<rparr>) S"
    note T = recv_ids [OF Ch Suc.prems(1) r]
    have hT: "here ?T c" using Suc.prems(1) by simp
    show ?thesis
    proof (cases m)
      case None
      with Suc.prems r T show ?thesis by (auto simp: keeps_def shrinks_def)
    next
      case (Some it)
      show ?thesis
      proof (cases it)
        case (MThread t)
        let ?V = "upd_core c (\<lambda>s. s\<lparr>ready_queue := t # ready_queue s\<rparr>) ?T"
        let ?U = "inc_rq_len c ?V"
        have "same_roles S ?T" by simp
        also have "same_roles ?T ?V" by (rule same_roles_core) simp
        also have "same_roles ?V ?U" by simp
        finally have "keeps C S ?U" using T(1) by (simp add: keeps_def push_ids [OF hT] Some MThread)
        moreover have "drain_loop Ch held c n (d + 1) ?U = Inr (d', S')" using Suc.prems r Some MThread by simp
        moreover have "inbox (cpus ?U ! c) = inbox (cpus ?T ! c)" by (simp add: upd_cpu_inbox)
        ultimately show ?thesis using Suc.IH [of ?U "d + 1"] hT T(2)
          by (auto intro: keeps_trans shrinks_trans keeps_shrinks)
      next
        case (MCmd cmd)
        then obtain U where h: "handle_inbox_cmd Ch held c cmd ?T = Inr U" and d: "drain_loop Ch held c n d U = Inr (d', S')"
          using Suc.prems r Some by (auto elim!: and_then_InrE)
        have "keeps C S ?T" using T(1) by (simp add: keeps_def Some MCmd)
        moreover note H = handle_shrinks [OF Ch hT h]
        moreover have "here U c" using H hT shrinks_here by blast
        ultimately show ?thesis using Suc.IH [OF _ d] T(2) Some MCmd
          by (auto intro: keeps_trans shrinks_trans keeps_shrinks)
      qed
    qed
  qed
qed simp

lemma drain_ids:
  assumes "chan_spec Ch C cap" and "here S c" and "drain_inbox_into_ready Ch held c n S = Inr S'"
  shows "shrinks C S S'" "\<forall>m \<in> set (C (inbox (cpus S ! c))). \<not> is_kill m \<Longrightarrow> keeps C S S'"
proof -
  obtain d T where d: "drain_loop Ch held c n 0 S = Inr (d, T)" and S': "S' = (if d > 0 then clear_resched_flag c T else T)"
    using assms(3) by (auto simp: drain_inbox_into_ready_def elim!: and_then_InrE)
  have T: "keeps C T S'" by (simp add: S')
  note D = drain_loop_ids [OF assms(1,2) d]
  show "shrinks C S S'" using shrinks_trans [OF _ keeps_shrinks [OF T]] D by blast
  show "keeps C S S'" if "\<forall>m \<in> set (C (inbox (cpus S ! c))). \<not> is_kill m"
    using keeps_trans [OF _ T] D that by blast
qed

lemma check_sleep_list_keeps:
  assumes "here S c"
  shows "keeps C S (check_sleep_list c time S)"
proof -
  let ?sl = "sleep_list (core S c)"
  let ?f = "\<lambda>s. s\<lparr>sleep_list := filter (\<lambda>e. \<not> time \<ge> snd e) ?sl\<rparr>"
  let ?ts = "map fst (filter (\<lambda>e. time \<ge> snd e) ?sl)"
  let ?T = "upd_core c ?f S"
  have "mset ?sl = mset (filter (\<lambda>e. time \<ge> snd e) ?sl) + mset (filter (\<lambda>e. \<not> time \<ge> snd e) ?sl)"
    by (simp add: mset_filter multiset_partition)
  then have "image_mset (\<lambda>e. t_id (fst e)) (mset ?sl) = mset (map t_id ?ts) +
      mset (map (\<lambda>e. t_id (fst e)) (filter (\<lambda>e. \<not> time \<ge> snd e) ?sl))"
    by (metis (no_types, lifting) comp_apply image_mset_union list.map_comp map_eq_conv mset_map)
  then have "queued_ids (core S c) = queued_ids (?f (core S c)) + mset (map t_id ?ts)"
    by (simp add: queued_ids_def)
  then have q: "queued_all C S = queued_all C ?T + mset (map t_id ?ts)"
    using queued_upd_core [OF assms, of C ?f] by (simp add: ac_simps)
  have r: "same_roles S ?T" by (rule same_roles_core) simp
  have "here ?T c" using assms by simp
  from push_all_ids [OF this] q same_roles_trans [OF r] show ?thesis
    by (simp add: keeps_def check_sleep_list_def Let_def multiset.map_comp)
qed

section \<open>Giving up the processor\<close>

definition idle_ids :: "'ch kernel \<Rightarrow> nat multiset" where
  "idle_ids S = mset (map (\<lambda>s. t_id (idle_thread s)) (scheds S))"

lemma shrinks_threads: "shrinks C S S' \<Longrightarrow> thread_ids C S' \<subseteq># thread_ids C S"
  using running_all_cong [of S S'] by (simp add: shrinks_def thread_ids_def)

lemma pop_ids:
  assumes c: "here S c" and p: "pop_back (ready_queue (core S c)) = Some (t, q)"
  shows "queued_all C S = add_mset (t_id t) (queued_all C (upd_core c (\<lambda>s. s\<lparr>ready_queue := q\<rparr>) S))"
proof -
  have "ready_queue (core S c) = q @ [t]" using p by (auto simp: pop_back_def split: if_splits)
  then have "queued_ids (core S c) = add_mset (t_id t) (queued_ids ((core S c)\<lparr>ready_queue := q\<rparr>))"
    by (simp add: queued_ids_def)
  with queued_upd_core [OF c, of C "\<lambda>s. s\<lparr>ready_queue := q\<rparr>"] show ?thesis by simp
qed

lemma idle_core:
  assumes "\<And>s. idle_thread (f s) = idle_thread s"
  shows "idle_ids (upd_core c f S) = idle_ids S"
proof -
  have "idle_thread (core (upd_core c f S) i) = idle_thread (core S i)" if "i < length (scheds S)" for i
    using that by (cases "i = c") (auto simp: upd_core_def assms)
  then have "map (\<lambda>s. t_id (idle_thread s)) (scheds (upd_core c f S)) = map (\<lambda>s. t_id (idle_thread s)) (scheds S)"
    by (intro nth_equalityI) auto
  then show ?thesis by (simp only: idle_ids_def)
qed

lemma idle_roles: "same_roles S S' \<Longrightarrow> idle_ids S' = idle_ids S"
proof -
  assume "same_roles S S'"
  then have "map (\<lambda>s. t_id (idle_thread s)) (scheds S') = map (\<lambda>s. t_id (idle_thread s)) (scheds S)"
    by (intro nth_equalityI) (auto simp: same_roles_def)
  then show ?thesis by (simp only: idle_ids_def)
qed

text \<open>
  What an operation that gives the processor away may do with the set of threads: \<open>moves\<close> says
  that no thread appears that was not there, none twice, and that the idle threads stay.
\<close>

definition moves :: "('ch \<Rightarrow> message_item option list) \<Rightarrow> 'ch kernel \<Rightarrow> 'ch kernel \<Rightarrow> bool" where
  "moves C S S' \<longleftrightarrow> thread_ids C S' \<subseteq># thread_ids C S \<and> idle_ids S' = idle_ids S \<and>
     thread_id_counter S' = thread_id_counter S \<and>
     length (scheds S') = length (scheds S) \<and> length (cpus S') = length (cpus S) \<and>
     (\<forall>i. bt_wf (join_map (core S i)) \<longrightarrow> bt_wf (join_map (core S' i)))"

lemma moves_refl [simp, intro]: "moves C S S"
  by (simp add: moves_def)

lemma moves_trans [trans]: "moves C S T \<Longrightarrow> moves C T U \<Longrightarrow> moves C S U"
  by (auto simp: moves_def intro: subset_mset.order_trans)

lemma shrinks_moves: "shrinks C S S' \<Longrightarrow> moves C S S'"
  using shrinks_threads [of C S S'] idle_roles [of S S'] by (simp add: moves_def shrinks_def same_roles_def)

lemma keeps_moves: "keeps C S S' \<Longrightarrow> moves C S S'"
  by (rule shrinks_moves [OF keeps_shrinks])

lemma moves_set_state: "moves C S T \<Longrightarrow> moves C S (set_state t st T)"
  by (erule moves_trans) (rule keeps_moves, rule keeps_frame(1))

lemma moves_here: "moves C S S' \<Longrightarrow> here S' c \<longleftrightarrow> here S c"
  by (simp add: moves_def here_def)

text \<open>The thread that runs next comes out of the ready queue, or it is the idle thread.\<close>

definition take_next :: "nat \<Rightarrow> 'ch kernel \<Rightarrow> thread \<times> 'ch kernel" where
  "take_next c S = (case pop_back (ready_queue (core S c)) of
       Some (t, q) \<Rightarrow> (t, upd_core c (\<lambda>s. s\<lparr>ready_queue := q\<rparr>) S)
     | None \<Rightarrow> (idle_thread (core S c), S))"

lemma take_next_ids:
  assumes c: "here S c" and n: "take_next c S = (nxt, T)"
  shows "same_roles S T" "running_all (upd_core c (\<lambda>s. s\<lparr>current_thread := Some nxt\<rparr>) T) + running_ids (core S c)
    + queued_all C T \<subseteq># thread_ids C S" "queued_all C T \<subseteq># queued_all C S"
    "t_id nxt \<noteq> t_id (idle_thread (core S c)) \<Longrightarrow> queued_all C S = add_mset (t_id nxt) (queued_all C T)"
proof -
  show r: "same_roles S T"
    using n by (auto simp: take_next_def same_roles_core split: option.splits)
  have T: "here T c" "running_ids (core T c) = running_ids (core S c)" "idle_thread (core T c) = idle_thread (core S c)"
    using c r same_roles_here [OF r] by (auto simp: same_roles_def running_ids_def split: option.split)
  let ?U = "upd_core c (\<lambda>s. s\<lparr>current_thread := Some nxt\<rparr>) T"
  have q: "queued_all C S = (case pop_back (ready_queue (core S c)) of
      Some (t, q) \<Rightarrow> add_mset (t_id nxt) (queued_all C T) | None \<Rightarrow> queued_all C T)"
    using n pop_ids [OF c, of _ _ C] by (auto simp: take_next_def split: option.splits)
  then show "queued_all C T \<subseteq># queued_all C S" by (auto split: option.splits)
  have "running_all ?U + running_ids (core S c) = running_all S + running_ids ((core T c)\<lparr>current_thread := Some nxt\<rparr>)"
    using running_upd_core [OF T(1), of "\<lambda>s. s\<lparr>current_thread := Some nxt\<rparr>"] T(2) running_all_cong [OF r] by simp
  moreover have "running_ids ((core T c)\<lparr>current_thread := Some nxt\<rparr>) + queued_all C T \<subseteq># queued_all C S"
    using q n T(3) by (auto simp: running_ids_def take_next_def split: option.splits)
  ultimately show "running_all ?U + running_ids (core S c) + queued_all C T \<subseteq># thread_ids C S"
    by (simp add: thread_ids_def add.assoc)
  show "queued_all C S = add_mset (t_id nxt) (queued_all C T)" if "t_id nxt \<noteq> t_id (idle_thread (core S c))"
    using q n that by (auto simp: take_next_def split: option.splits)
qed

lemma block_and_switch_cases:
  assumes Ch: "chan_spec Ch C cap" and c: "here S c" and b: "block_and_switch Ch c time S = Inr S'"
  obtains S1 nxt T cur where "shrinks C S S1" and "take_next c S1 = (nxt, T)" and "current_thread (core T c) = Some cur"
    and "S' = (if t_id cur = t_id nxt then T else upd_core c (\<lambda>s. s\<lparr>current_thread := Some nxt\<rparr>) T)"
proof -
  have "\<exists>S1 nxt T. shrinks C S S1 \<and> take_next c S1 = (nxt, T) \<and>
     and_then (current (core T c)) (\<lambda>cur.
          if t_id cur = t_id nxt then Inr T
          else Inr (upd_core c (\<lambda>s. s\<lparr>current_thread := Some nxt\<rparr>) T)) = Inr S'"
  proof (cases "pop_back (ready_queue (core S c))")
    case None
    then obtain S1 where d: "drain_inbox_into_ready Ch True c 10 (check_sleep_list c time S) = Inr S1"
      using b by (auto simp: block_and_switch_def elim!: and_then_InrE)
    note k = check_sleep_list_keeps [OF c, of C time]
    have "here (check_sleep_list c time S) c" using k c keeps_here by blast
    from drain_ids(1) [OF Ch this d] have "shrinks C S S1" by (rule shrinks_trans [OF keeps_shrinks [OF k]])
    then show ?thesis using b None d
      by (intro exI [of _ S1], cases "pop_back (ready_queue (core S1 c))")
        (auto simp: block_and_switch_def take_next_def)
  next
    case (Some p)
    with b show ?thesis
      by (intro exI [of _ S], cases p) (auto simp: block_and_switch_def take_next_def)
  qed
  then obtain S1 nxt T where S1: "shrinks C S S1" "take_next c S1 = (nxt, T)"
    and e: "and_then (current (core T c)) (\<lambda>cur. if t_id cur = t_id nxt then Inr T
          else Inr (upd_core c (\<lambda>s. s\<lparr>current_thread := Some nxt\<rparr>) T)) = Inr S'" by blast
  then obtain cur where "current_thread (core T c) = Some cur" by (auto simp: current_def split: option.splits)
  moreover from this e have "S' = (if t_id cur = t_id nxt then T else upd_core c (\<lambda>s. s\<lparr>current_thread := Some nxt\<rparr>) T)"
    by (simp add: current_def split: if_splits)
  ultimately show ?thesis by (rule that [OF S1])
qed

lemma block_and_switch_ids:
  assumes Ch: "chan_spec Ch C cap" and c: "here S c" and b: "block_and_switch Ch c time S = Inr S'"
  shows "thread_ids C S' + running_ids (core S c) \<subseteq># thread_ids C S" "idle_ids S' = idle_ids S"
    "thread_id_counter S' = thread_id_counter S" "length (scheds S') = length (scheds S)" "length (cpus S') = length (cpus S)"
    "bt_wf (join_map (core S i)) \<Longrightarrow> bt_wf (join_map (core S' i))"
proof -
  obtain S1 nxt T cur where S1: "shrinks C S S1" and n: "take_next c S1 = (nxt, T)"
    and cur: "current_thread (core T c) = Some cur"
    and S': "S' = (if t_id cur = t_id nxt then T else upd_core c (\<lambda>s. s\<lparr>current_thread := Some nxt\<rparr>) T)"
    by (rule block_and_switch_cases [OF Ch c b])
  have h: "here S1 c" using S1 c shrinks_here by blast
  note N = take_next_ids [OF h n]
  have r: "same_roles S T" using S1 N(1) same_roles_trans by (auto simp: shrinks_def)
  have run: "running_ids (core S1 c) = running_ids (core S c)" "running_all T = running_all S1"
    using S1 running_all_cong [OF N(1)] by (auto simp: shrinks_def same_roles_def running_ids_def split: option.split)
  show "idle_ids S' = idle_ids S" using idle_roles [OF r] by (simp add: S' idle_core)
  show "thread_id_counter S' = thread_id_counter S" "length (scheds S') = length (scheds S)" "length (cpus S') = length (cpus S)"
    using r by (auto simp: S' same_roles_def)
  have "join_map (core S' i) = join_map (core T i)"
    using h N(1) same_roles_here [of S1 T c] by (cases "i = c") (auto simp: S' core_upd_other here_def)
  then show "bt_wf (join_map (core S i)) \<Longrightarrow> bt_wf (join_map (core S' i))" using r by (simp add: same_roles_def)
  have "thread_ids C S' + running_ids (core S c) \<subseteq># thread_ids C S1"
  proof (cases "t_id cur = t_id nxt")
    case True
    have "running_ids (core S c) = (if t_id nxt = t_id (idle_thread (core S1 c)) then {#} else {#t_id nxt#})"
      using N(1) cur True run(1) by (auto simp: same_roles_def running_ids_def)
    with N(3,4) [of C] run(2) show ?thesis by (auto simp: S' True thread_ids_def split: if_splits)
  next
    case False
    have "queued_all C (upd_core c (\<lambda>s. s\<lparr>current_thread := Some nxt\<rparr>) T) = queued_all C T"
      using queued_upd_core [of T c C "\<lambda>s. s\<lparr>current_thread := Some nxt\<rparr>"] h same_roles_here [OF N(1)]
      by (simp add: queued_ids_def)
    with False N(2) [of C] run(1) show ?thesis by (simp add: S' thread_ids_def ac_simps)
  qed
  with shrinks_threads [OF S1] show "thread_ids C S' + running_ids (core S c) \<subseteq># thread_ids C S"
    by (meson subset_mset.order_trans)
qed

text \<open>The running thread is put into a list, then another one runs.\<close>

lemma give_up:
  assumes Ch: "chan_spec Ch C cap" and c: "here S c"
    and cur: "current_thread (core S c) = Some cur" "t_id cur \<noteq> t_id (idle_thread (core S c))"
    and q: "queued_ids (f (core S c)) = add_mset (t_id cur) (queued_ids (core S c))" and f: "\<And>s. role_ok s (f s)"
    and b: "block_and_switch Ch c time (dec_rq_len c (upd_core c f S)) = Inr S'"
  shows "moves C S S'"
proof -
  let ?T = "dec_rq_len c (upd_core c f S)"
  have "queued_all C ?T = add_mset (t_id cur) (queued_all C S)"
    using queued_upd_core [OF c, of C f] q by simp
  moreover have r: "same_roles S ?T"
    using same_roles_trans [OF same_roles_core [OF f] same_roles_frame(1)] by simp
  ultimately have th: "thread_ids C ?T = add_mset (t_id cur) (thread_ids C S)"
    using running_all_cong [OF r] by (simp add: thread_ids_def)
  have "running_ids (core ?T c) = {#t_id cur#}"
    using f [of "core S c"] c cur by (auto simp: running_ids_def here_def)
  moreover have h: "here ?T c" using c by simp
  ultimately show ?thesis using block_and_switch_ids [OF Ch h b] th r idle_roles [OF r]
    by (auto simp: moves_def same_roles_def)
qed

text \<open>A running thread that is not the idle thread of its core.\<close>

definition busy :: "'ch kernel \<Rightarrow> nat \<Rightarrow> bool" where
  "busy S c \<longleftrightarrow> here S c \<and> (case current_thread (core S c) of
     Some t \<Rightarrow> t_id t \<noteq> t_id (idle_thread (core S c)) | None \<Rightarrow> False)"

lemma busyE:
  assumes "busy S c"
  obtains cur where "here S c" "current_thread (core S c) = Some cur" "t_id cur \<noteq> t_id (idle_thread (core S c))"
  using assms by (auto simp: busy_def split: option.splits)

lemma sleep_moves:
  assumes Ch: "chan_spec Ch C cap" and bu: "busy S c" and s: "sleep Ch c time ms S = Inr S'"
  shows "moves C S S'"
proof (cases "initialized (core S c)")
  case True
  obtain cur where c: "here S c" and cur: "current_thread (core S c) = Some cur" "t_id cur \<noteq> t_id (idle_thread (core S c))"
    using bu by (rule busyE)
  from s True cur(1) have b: "block_and_switch Ch c time (dec_rq_len c (upd_core c
      (\<lambda>s. s\<lparr>sleep_list := sleep_list s @ [(cur, time + ms)]\<rparr>) S)) = Inr S'"
    by (simp add: sleep_def current_def split: if_splits)
  show ?thesis by (rule give_up [OF Ch c cur _ _ b]) (simp_all add: queued_ids_def)
qed (use s in \<open>simp add: sleep_def\<close>)

lemma block_moves:
  assumes Ch: "chan_spec Ch C cap" and bu: "busy S c" and s: "block Ch c time S = Inr S'"
  shows "moves C S S'"
proof -
  obtain cur where c: "here S c" and cur: "current_thread (core S c) = Some cur" "t_id cur \<noteq> t_id (idle_thread (core S c))"
    using bu by (rule busyE)
  from s cur(1) have b: "block_and_switch Ch c time (dec_rq_len c (upd_core c
      (\<lambda>s. s\<lparr>blocked_list := blocked_list s @ [cur]\<rparr>) S)) = Inr S'"
    by (simp add: block_def current_def split: if_splits)
  show ?thesis by (rule give_up [OF Ch c cur _ _ b]) (simp_all add: queued_ids_def)
qed

lemma join_insert_ids:
  fixes jm :: "(nat, thread list) btree"
  shows "bt_wf jm \<Longrightarrow> mset (map t_id (concat (map snd (bt_insert jm k ws)))) +
    mset (map t_id (case bt_get jm k of Some vs \<Rightarrow> vs | None \<Rightarrow> [])) = mset (map t_id (concat (map snd jm))) + mset (map t_id ws)"
proof (induction jm)
  case (Cons e jm)
  obtain k' vs where e: "e = (k', vs)" by (cases e)
  have w: "bt_wf jm" using Cons.prems by (simp add: bt_wf_def)
  have "bt_get jm k = None" if "k < k'"
  proof -
    have "k \<notin> fst ` set jm" using Cons.prems that by (auto simp: bt_wf_def e)
    then show ?thesis by (induction jm) auto
  qed
  then show ?case using Cons.IH [OF w] by (auto simp: e ac_simps)
qed simp

lemma join_moves:
  assumes Ch: "chan_spec Ch C cap" and bu: "busy S c" and w: "bt_wf (join_map (core S c))"
    and s: "join Ch c time tid S = Inr (r, S')"
  shows "moves C S S'"
proof (cases "is_thread_alive tid S")
  case True
  obtain cur where c: "here S c" and cur: "current_thread (core S c) = Some cur" "t_id cur \<noteq> t_id (idle_thread (core S c))"
    using bu by (rule busyE)
  let ?ws = "waiters (core S c) tid @ [cur]"
  let ?f = "\<lambda>s. s\<lparr>join_map := bt_insert (join_map (core S c)) tid ?ws\<rparr>"
  from s True cur(1) have b: "block_and_switch Ch c time (dec_rq_len c (upd_core c ?f S)) = Inr S'"
    by (auto simp: join_def current_def waiters_def elim!: and_then_InrE split: option.splits)
  show ?thesis
  proof (rule give_up [OF Ch c cur _ _ b])
    show "queued_ids (?f (core S c)) = add_mset (t_id cur) (queued_ids (core S c))"
      using join_insert_ids [OF w, of tid ?ws] by (simp add: queued_ids_def waiters_def)
  qed (use w in simp)
qed (use s in \<open>simp add: join_def\<close>)

lemma block_and_switch_moves:
  assumes "chan_spec Ch C cap" and "here S c" and "block_and_switch Ch c time S = Inr S'"
  shows "moves C S S'"
  using block_and_switch_ids [OF assms] by (auto simp: moves_def intro: subset_mset.order_trans [OF mset_subset_eq_add_left])

lemma exit_moves:
  assumes Ch: "chan_spec Ch C cap" and c: "here S c" and e: "exit Ch c time S = Inr S'"
  shows "moves C S S'"
proof -
  obtain cur :: thread and S1 where u: "unjoin Ch c (t_id cur) (mark_thread_dead (t_id cur) S) = Inr S1"
    and b: "block_and_switch Ch c time (dec_rq_len c S1) = Inr S'"
    using e unfolding exit_def by (elim and_then_InrE) blast
  have "keeps C S (mark_thread_dead (t_id cur) S)" by simp
  also have "keeps C \<dots> S1" by (rule unjoin_keeps [OF Ch _ u]) (use c in simp)
  also have "keeps C S1 (dec_rq_len c S1)" by simp
  finally have k: "keeps C S (dec_rq_len c S1)" .
  then have "here (dec_rq_len c S1) c" using c keeps_here by blast
  from moves_trans [OF keeps_moves [OF k] block_and_switch_moves [OF Ch this b]] show ?thesis .
qed

lemma kill_moves:
  assumes Ch: "chan_spec Ch C cap" and c: "here S c" and k: "kill Ch c tid S = Inr S'"
  shows "moves C S S'"
proof -
  obtain found S1 where l: "kill_locally Ch False c tid S = Inr (found, S1)"
    and r: "(if \<not> found then schedule_on_all_others Ch c (MCmd (Kill tid)) S1 else Inr S1) = Inr S'"
    using k by (auto simp: kill_def elim!: and_then_InrE split: if_splits)
  have "moves C S1 S'" using r by (auto intro: keeps_moves schedule_cmd_keeps [OF Ch] split: if_splits)
  with shrinks_moves [OF kill_locally_shrinks [OF Ch c l]] show ?thesis by (rule moves_trans)
qed

lemma queued_insert_empty:
  assumes "bt_wf (join_map s)"
  shows "queued_ids (s\<lparr>join_map := bt_insert (join_map s) k []\<rparr>) \<subseteq># queued_ids s"
proof -
  have "mset (map t_id (concat (map snd (bt_insert (join_map s) k [])))) \<subseteq># mset (map t_id (concat (map snd (join_map s))))"
    by (rule mset_cancel_le [OF join_insert_ids [OF assms, of k "[]"]]) simp
  then show ?thesis by (simp add: queued_ids_def)
qed

lemma new_join_ids:
  assumes "bt_wf (join_map s)"
  shows "running_ids (s\<lparr>join_map := bt_insert (join_map s) k []\<rparr>) + queued_ids (s\<lparr>join_map := bt_insert (join_map s) k []\<rparr>)
    \<subseteq># running_ids s + queued_ids s"
proof -
  have "running_ids (s\<lparr>join_map := bt_insert (join_map s) k []\<rparr>) = running_ids s"
    by (simp add: running_ids_def split: option.split)
  with queued_insert_empty [OF assms, of k] show ?thesis by simp
qed

text \<open>A change of one core that moves its threads between its lists and the processor.\<close>

lemma core_moves:
  fixes f :: "sched \<Rightarrow> sched"
  assumes c: "here S c" and i: "\<And>s. idle_thread (f s) = idle_thread s"
    and q: "running_ids (f (core S c)) + queued_ids (f (core S c)) \<subseteq># running_ids (core S c) + queued_ids (core S c)"
    and w: "bt_wf (join_map (core S c)) \<Longrightarrow> bt_wf (join_map (f (core S c)))"
  shows "moves C S (upd_core c f S)"
proof -
  let ?T = "upd_core c f S" and ?s = "core S c"
  have "thread_ids C ?T + (running_ids ?s + queued_ids ?s) = thread_ids C S + (running_ids (f ?s) + queued_ids (f ?s))"
    using arg_cong2 [of _ _ _ _ "(+)", OF queued_upd_core [OF c, of C f] running_upd_core [OF c, of f]]
    by (simp add: thread_ids_def ac_simps)
  then have "thread_ids C ?T \<subseteq># thread_ids C S" using q by (rule mset_cancel_le)
  moreover have "bt_wf (join_map (core S j)) \<longrightarrow> bt_wf (join_map (core ?T j))" for j
    using w c by (cases "j = c") (auto simp: core_upd_other here_def)
  ultimately show ?thesis by (simp add: moves_def idle_core [OF i])
qed

lemma pop_back_Some: "pop_back q = Some (t, r) \<longleftrightarrow> q = r @ [t]"
  by (auto simp: pop_back_def)

lemma pop_back_None: "pop_back q = None \<longleftrightarrow> q = []"
  by (simp add: pop_back_def)

text \<open>The last thread of the ready queue runs next; the one that ran may go into the queue.\<close>

lemma swap_ids:
  assumes "ready_queue s = q @ [nxt]" and "mset (map t_id (ready_queue s')) \<subseteq># running_ids s + mset (map t_id q)"
    and "current_thread s' = Some nxt" "sleep_list s' = sleep_list s" "blocked_list s' = blocked_list s" "join_map s' = join_map s"
  shows "running_ids s' + queued_ids s' \<subseteq># running_ids s + queued_ids s"
proof -
  have "running_ids s' + mset (map t_id (ready_queue s')) \<subseteq># {#t_id nxt#} + (running_ids s + mset (map t_id q))"
    by (rule subset_mset.add_mono [OF _ assms(2)]) (simp add: running_ids_def assms(3))
  then have "running_ids s' + mset (map t_id (ready_queue s')) \<subseteq># running_ids s + mset (map t_id (ready_queue s))"
    by (simp add: assms(1))
  then show ?thesis unfolding queued_ids_def assms(4-6) by (simp add: add.assoc [symmetric])
qed

lemma idle_runs_ids:
  assumes "current_thread s' = Some (idle_thread s')" and "mset (map t_id (ready_queue s')) \<subseteq># running_ids s + mset (map t_id (ready_queue s))"
    and "sleep_list s' = sleep_list s" "blocked_list s' = blocked_list s" "join_map s' = join_map s"
  shows "running_ids s' + queued_ids s' \<subseteq># running_ids s + queued_ids s"
proof -
  have "running_ids s' = {#}" by (simp add: running_ids_def assms(1))
  then show ?thesis using assms(2) unfolding queued_ids_def assms(3-5) by (simp add: add.assoc [symmetric])
qed

lemma start_moves:
  assumes c: "here S c"
  shows "moves C S (start c S)"
proof (cases "has_started (core S c)")
  case False
  let ?f = "\<lambda>s. case pop_back (ready_queue s) of
      Some (t, q) \<Rightarrow> s\<lparr>has_started := True, ready_queue := q, current_thread := Some t\<rparr>
    | None \<Rightarrow> s\<lparr>has_started := True, current_thread := Some (idle_thread s)\<rparr>"
  have "running_ids (?f (core S c)) + queued_ids (?f (core S c)) \<subseteq># running_ids (core S c) + queued_ids (core S c)"
  proof (cases "pop_back (ready_queue (core S c))")
    case None
    then show ?thesis by (intro idle_runs_ids) auto
  next
    case (Some p)
    obtain t q where "p = (t, q)" by (cases p)
    with Some show ?thesis by (intro swap_ids [of _ q t]) (auto simp: pop_back_Some [symmetric])
  qed
  then have "moves C S (upd_core c ?f S)" by (rule core_moves [OF c, rotated]) (auto split: option.split)
  then show ?thesis using False by (simp add: start_def)
qed (simp add: start_def)

lemma yield_moves:
  assumes bu: "busy S c" and y: "yield_now c locked S = Inr S'"
  shows "moves C S S'"
proof -
  obtain cur where c: "here S c" and cur: "current_thread (core S c) = Some cur" "t_id cur \<noteq> t_id (idle_thread (core S c))"
    using bu by (rule busyE)
  show ?thesis
  proof (cases "initialized (core S c) \<and> \<not> locked \<and> ready_queue (core S c) \<noteq> []")
    case True
    then obtain nxt q where q: "ready_queue (core S c) = q @ [nxt]" by (meson rev_exhaust)
    let ?f = "\<lambda>s. s\<lparr>ready_queue := cur # q, current_thread := Some nxt\<rparr>"
    have "S' = set_state (t_id nxt) Running (set_state (t_id cur) Ready (upd_core c ?f S))"
      using y True cur(1) c q
      by (auto simp: yield_now_def current_def pop_back_def here_def upd_core_def set_state_def butlast_append)
    moreover have "running_ids (?f (core S c)) + queued_ids (?f (core S c)) \<subseteq># running_ids (core S c) + queued_ids (core S c)"
      by (rule swap_ids [OF q]) (simp_all add: running_ids_def cur)
    then have "moves C S (upd_core c ?f S)" by (rule core_moves [OF c, rotated]) auto
    ultimately show ?thesis by (simp add: moves_set_state)
  qed (use y cur in \<open>auto simp: yield_now_def current_def split: if_splits\<close>)
qed

lemma unblock_moves: "here S c \<Longrightarrow> moves C S (snd (unblock_thread c pid tid S))"
  unfolding unblock_thread_def
  by (auto split: option.split intro!: moves_set_state intro: keeps_moves deblock_ids)

lemma deblock_moves:
  assumes Ch: "chan_spec Ch C cap" and c: "here S c" and w: "bt_wf (join_map (core S c))" and d: "deblock Ch c pid tid S = Inr S'"
  shows "moves C S S'"
proof (cases "take_blocked pid tid (blocked_list (core S c))")
  case None
  with d show ?thesis by (auto simp: deblock_def intro: keeps_moves schedule_cmd_keeps [OF Ch])
next
  case (Some p)
  then obtain t bl where b: "take_blocked pid tid (blocked_list (core S c)) = Some (t, bl)" by (cases p) auto
  let ?f = "\<lambda>s. s\<lparr>blocked_list := bl, ready_queue := t # ready_queue s\<rparr>"
  let ?g = "\<lambda>s. s\<lparr>join_map := bt_insert (join_map s) (t_id t) []\<rparr>"
  let ?T = "upd_core c ?f (inc_rq_len c (mark_thread_alive (t_id t) S))"
  have "moves C S (mark_thread_alive (t_id t) S)" by (rule keeps_moves) simp
  also have "moves C \<dots> (inc_rq_len c (mark_thread_alive (t_id t) S))" by (rule keeps_moves) simp
  also have "moves C \<dots> ?T" by (rule keeps_moves, rule deblock_ids [where pid = pid and tid = tid]) (use c b in simp_all)
  also have "moves C ?T (upd_core c ?g ?T)"
  proof (rule core_moves)
    show "running_ids (?g (core ?T c)) + queued_ids (?g (core ?T c)) \<subseteq># running_ids (core ?T c) + queued_ids (core ?T c)"
      by (rule new_join_ids) (use c w in \<open>simp add: here_def\<close>)
  qed (use c w in auto)
  also have "upd_core c ?g ?T = S'" using d b c
    by (auto simp: deblock_def ready_def upd_core_def upd_cpu_def mark_thread_alive_def here_def)
  finally show ?thesis .
qed

lemma send_thread_ids:
  assumes Ch: "chan_spec Ch C cap" and s: "schedule_on Ch i (MThread t) S = Inr (r, S')"
  shows "same_roles S S' \<and> queued_all C S' \<subseteq># add_mset (t_id t) (queued_all C S)"
proof -
  have i: "i < length (cpus S)" using s by (auto simp: schedule_on_def per_cpu_ref_def split: if_splits)
  show ?thesis
  proof (cases "try_send Ch (inbox (cpus S ! i)) (Some (MThread t))")
    case None
    with s i show ?thesis by (simp add: schedule_on_def per_cpu_ref_def)
  next
    case (Some tx)
    have S': "S' = upd_cpu i (\<lambda>p. p\<lparr>inbox := tx\<rparr>) S" using s i Some by (simp add: schedule_on_def per_cpu_ref_def)
    have "inbox_ids C ((cpus S ! i)\<lparr>inbox := tx\<rparr>) = inbox_ids C (cpus S ! i) + {#t_id t#}"
      using chan_send [OF Ch Some] by (simp add: inbox_ids_def)
    with queued_upd_cpu [OF i, of C "\<lambda>p. p\<lparr>inbox := tx\<rparr>"] show ?thesis by (simp add: S')
  qed
qed

lemma move_threads_shrinks:
  assumes Ch: "chan_spec Ch C cap"
  shows "here S c \<Longrightarrow> move_threads Ch c target n S = Inr S' \<Longrightarrow> shrinks C S S'"
proof (induction n arbitrary: S)
  case (Suc n)
  show ?case
  proof (cases "ready_queue (core S c)")
    case Nil
    with Suc show ?thesis by simp
  next
    case (Cons t q)
    let ?f = "\<lambda>s. s\<lparr>ready_queue := q\<rparr>"
    let ?T = "dec_rq_len c (upd_core c ?f S)"
    obtain r S1 where s: "schedule_on Ch target (MThread t) ?T = Inr (r, S1)" and m: "move_threads Ch c target n S1 = Inr S'"
      using Suc.prems Cons by (auto elim!: and_then_InrE)
    have "queued_ids (core S c) = add_mset (t_id t) (queued_ids (?f (core S c)))" by (simp add: queued_ids_def Cons)
    with queued_upd_core [OF Suc.prems(1), of C ?f] have "queued_all C S = add_mset (t_id t) (queued_all C ?T)" by simp
    moreover have "same_roles S ?T"
      unfolding dec_rq_len_def by (rule same_roles_trans [OF same_roles_core same_roles_frame(1)]) simp
    ultimately have k: "shrinks C S S1" using send_thread_ids [OF Ch s] same_roles_trans by (auto simp: shrinks_def)
    then have "here S1 c" using Suc.prems(1) shrinks_here by blast
    from shrinks_trans [OF k Suc.IH [OF this m]] show ?thesis .
  qed
qed simp

lemma balance_once_shrinks:
  assumes "chan_spec Ch C cap" and "here S c" and "balance_once Ch c S = Inr S'"
  shows "shrinks C S S'"
  using assms(3) move_threads_shrinks [OF assms(1,2)] unfolding balance_once_def Let_def
  by (auto simp del: move_threads.simps elim!: and_then_InrE split: if_splits option.splits)

text \<open>The second half of the switch, after messages and load have been looked at.\<close>

definition finish_switch :: "nat \<Rightarrow> bool \<Rightarrow> switch_env \<Rightarrow> thread \<Rightarrow> 'ch kernel \<Rightarrow> nat \<times> 'ch kernel" where
  "finish_switch c interrupt env cur S =
     (if stack_locked env then (eoi interrupt, S)
      else case pop_back (ready_queue (core S c)) of
        Some (nxt, q) \<Rightarrow> (eoi interrupt, upd_core c (\<lambda>s. s\<lparr>current_thread := Some nxt,
          ready_queue := (if t_id cur = t_id (idle_thread (core S c)) then q else cur # q)\<rparr>) S)
      | None \<Rightarrow>
          if t_id cur = t_id (idle_thread (core S c)) then (eoi interrupt, S)
          else (2 * eoi interrupt, upd_core c (\<lambda>s. s\<lparr>current_thread := Some (idle_thread s), ready_queue := [cur]\<rparr>) S))"

lemma switch_cases:
  assumes s: "switch_thread Ch c interrupt env S = Inr (n, S')"
    and f: "state_free env" "initialized (core S c)" "\<not> preempt_off env"
  obtains S1 balance S2 cur
  where "drain_inbox_into_ready Ch False c 10 (if sleep_free env then check_sleep_list c (sw_time env) S else S) = Inr S1"
    and "(if balance then balance_once Ch c S1 else Inr S1) = Inr S2" and "current_thread (core S2 c) = Some cur"
    and "finish_switch c interrupt env cur S2 = (n, S')"
proof -
  have "switch_thread Ch c interrupt env S =
    and_then (drain_inbox_into_ready Ch False c 10 (if sleep_free env then check_sleep_list c (sw_time env) S else S)) (\<lambda>S1.
        and_then (if resched_flag (cpus S1 ! c) then Inr True else should_balance_now c S1) (\<lambda>balance.
        and_then (if balance then balance_once Ch c S1 else Inr S1) (\<lambda>S2.
        and_then (current (core S2 c)) (\<lambda>cur. Inr (finish_switch c interrupt env cur S2)))))"
    using f by (simp add: switch_thread_def finish_switch_def Let_def if_distrib [of Inr] option.case_distrib [of Inr]
      prod.case_distrib [of Inr] cong: if_cong option.case_cong)
  from s [unfolded this] obtain S1 balance S2 cur where
    "drain_inbox_into_ready Ch False c 10 (if sleep_free env then check_sleep_list c (sw_time env) S else S) = Inr S1"
    "(if balance then balance_once Ch c S1 else Inr S1) = Inr S2" "current (core S2 c) = Inr cur"
    "finish_switch c interrupt env cur S2 = (n, S')"
    apply (elim and_then_InrE)
    apply (erule that)
    by (assumption, assumption, simp)
  then show ?thesis using that by (auto simp: current_def split: option.splits)
qed

lemma finish_switch_moves:
  assumes c: "here S c" and cur: "current_thread (core S c) = Some cur" and f: "finish_switch c interrupt env cur S = (n, S')"
  shows "moves C S S'"
proof (cases "pop_back (ready_queue (core S c))")
  case None
  let ?f = "\<lambda>s. s\<lparr>current_thread := Some (idle_thread s), ready_queue := [cur]\<rparr>"
  have "t_id cur \<noteq> t_id (idle_thread (core S c)) \<Longrightarrow>
    running_ids (?f (core S c)) + queued_ids (?f (core S c)) \<subseteq># running_ids (core S c) + queued_ids (core S c)"
    by (rule idle_runs_ids) (simp_all add: running_ids_def cur)
  then show ?thesis using f None by (auto simp: finish_switch_def intro!: core_moves [OF c] split: if_splits)
next
  case (Some p)
  then obtain nxt q where q: "ready_queue (core S c) = q @ [nxt]" by (cases p) (auto simp: pop_back_Some)
  let ?f = "\<lambda>s. s\<lparr>current_thread := Some nxt, ready_queue := if t_id cur = t_id (idle_thread (core S c)) then q else cur # q\<rparr>"
  have "running_ids (?f (core S c)) + queued_ids (?f (core S c)) \<subseteq># running_ids (core S c) + queued_ids (core S c)"
    by (rule swap_ids [OF q]) (simp_all add: running_ids_def cur)
  then have "moves C S (upd_core c ?f S)" by (rule core_moves [OF c, rotated]) auto
  then show ?thesis using f q by (auto simp: finish_switch_def pop_back_def split: if_splits)
qed

lemma switch_moves:
  assumes Ch: "chan_spec Ch C cap" and c: "here S c" and s: "switch_thread Ch c interrupt env S = Inr (n, S')"
  shows "moves C S S'"
proof (cases "state_free env \<and> initialized (core S c) \<and> \<not> preempt_off env")
  case True
  then obtain S1 balance S2 cur where
    d: "drain_inbox_into_ready Ch False c 10 (if sleep_free env then check_sleep_list c (sw_time env) S else S) = Inr S1"
    and b: "(if balance then balance_once Ch c S1 else Inr S1) = Inr S2" and cur: "current_thread (core S2 c) = Some cur"
    and f: "finish_switch c interrupt env cur S2 = (n, S')"
    using switch_cases [OF s] by metis
  let ?S0 = "if sleep_free env then check_sleep_list c (sw_time env) S else S"
  have s0: "keeps C S ?S0" using check_sleep_list_keeps [OF c] by simp
  then have h0: "here ?S0 c" using c keeps_here by blast
  note s1 = drain_ids(1) [OF Ch h0 d]
  have h1: "here S1 c" using h0 s1 shrinks_here by blast
  have s2: "shrinks C S1 S2" using b balance_once_shrinks [OF Ch h1] by (auto split: if_splits)
  have m: "moves C S S2" using s0 s1 s2 by (meson keeps_shrinks shrinks_moves shrinks_trans)
  have "here S2 c" using h1 s2 shrinks_here by blast
  from moves_trans [OF m finish_switch_moves [OF this cur f]] show ?thesis .
qed (use s in \<open>auto simp: switch_thread_def\<close>)

section \<open>Histories\<close>

text \<open>
  Any core may take the next step. The operations that give up the processor or put the running
  thread back into the queue are called by a thread other than the idle thread, whose body only
  looks for an overloaded core and halts; a new thread gets the next id of the counter.
\<close>

inductive sched_step :: "'ch chan_ops \<Rightarrow> 'ch kernel \<Rightarrow> 'ch kernel \<Rightarrow> bool" for Ch where
  create: "here S c \<Longrightarrow> next_thread_id S = (tid, S1) \<Longrightarrow> tid + 1 < 2 ^ 64 \<Longrightarrow>
    sched_step Ch S (ready c \<lparr>t_id = tid, t_pid = pid\<rparr> S1)"
| sleep: "busy S c \<Longrightarrow> sleep Ch c time ms S = Inr S' \<Longrightarrow> sched_step Ch S S'"
| block: "busy S c \<Longrightarrow> block Ch c time S = Inr S' \<Longrightarrow> sched_step Ch S S'"
| join: "busy S c \<Longrightarrow> join Ch c time tid S = Inr (r, S') \<Longrightarrow> sched_step Ch S S'"
| exit: "here S c \<Longrightarrow> exit Ch c time S = Inr S' \<Longrightarrow> sched_step Ch S S'"
| kill: "here S c \<Longrightarrow> kill Ch c tid S = Inr S' \<Longrightarrow> sched_step Ch S S'"
| deblock: "here S c \<Longrightarrow> deblock Ch c pid tid S = Inr S' \<Longrightarrow> sched_step Ch S S'"
| park: "here S c \<Longrightarrow> park_current_thread c S = Inr (r, S') \<Longrightarrow> sched_step Ch S S'"
| unblock: "here S c \<Longrightarrow> unblock_thread c pid tid S = (r, S') \<Longrightarrow> sched_step Ch S S'"
| yield: "busy S c \<Longrightarrow> yield_now c locked S = Inr S' \<Longrightarrow> sched_step Ch S S'"
| start: "here S c \<Longrightarrow> sched_step Ch S (start c S)"
| set_init: "here S c \<Longrightarrow> sched_step Ch S (set_init c S)"
| resched: "here S c \<Longrightarrow> sched_step Ch S (set_resched_flag c S)"
| online: "sched_step Ch S (cpu_mark_online S)"
| switch: "here S c \<Longrightarrow> switch_thread Ch c interrupt env S = Inr (n, S') \<Longrightarrow> sched_step Ch S S'"

definition sched_boot :: "thread list \<Rightarrow> nat \<Rightarrow> 'ch \<Rightarrow> 'ch kernel" where
  "sched_boot idles n tx = \<lparr>scheds = map sched_new idles, cpus = map (\<lambda>_. per_cpu_new tx) idles, active_tids = {},
     thread_id_counter = n, active_cpus = 1, thread_states = (\<lambda>_. Created)\<rparr>"

definition sched_inv :: "('ch \<Rightarrow> message_item option list) \<Rightarrow> 'ch kernel \<Rightarrow> bool" where
  "sched_inv C S \<longleftrightarrow> (\<forall>t. count (idle_ids S + thread_ids C S) t \<le> 1) \<and>
     (\<forall>t \<in># idle_ids S + thread_ids C S. t < thread_id_counter S) \<and>
     (\<forall>i < length (scheds S). bt_wf (join_map (core S i)))"

lemma moves_inv:
  assumes "sched_inv C S" and m: "moves C S S'"
  shows "sched_inv C S'"
proof -
  have s: "idle_ids S' + thread_ids C S' \<subseteq># idle_ids S + thread_ids C S" using m by (simp add: moves_def)
  show ?thesis
    using assms(1) mset_subset_eqD [OF s] mset_subset_eq_count [OF s] m unfolding sched_inv_def moves_def
    by (metis order_trans)
qed

lemma grow_inv:
  assumes inv: "sched_inv C S" and u: "thread_ids C U = add_mset (thread_id_counter S) (thread_ids C S)" "idle_ids U = idle_ids S"
    and n: "thread_id_counter U = thread_id_counter S + 1" "length (scheds U) = length (scheds S)"
    and w: "\<And>i. i < length (scheds S) \<Longrightarrow> bt_wf (join_map (core U i))"
  shows "sched_inv C U"
proof -
  have fresh: "count (idle_ids S + thread_ids C S) (thread_id_counter S) = 0"
    using inv by (metis less_irrefl not_in_iff sched_inv_def)
  have old: "count (idle_ids S + thread_ids C S) t \<le> 1" for t using inv by (simp add: sched_inv_def)
  have "count (idle_ids U + thread_ids C U) t \<le> 1" for t
    using fresh old [of t] by (auto simp: u)
  moreover have "\<forall>t \<in># idle_ids U + thread_ids C U. t < thread_id_counter U"
    using inv by (auto simp: sched_inv_def u n less_Suc_eq)
  ultimately show ?thesis using w n(2) by (simp add: sched_inv_def)
qed

lemma create_inv:
  assumes inv: "sched_inv C S" and c: "here S c" and n: "next_thread_id S = (tid, S1)" and l: "tid + 1 < 2 ^ 64"
  shows "sched_inv C (ready c \<lparr>t_id = tid, t_pid = pid\<rparr> S1)"
proof -
  let ?t = "\<lparr>t_id = tid, t_pid = pid\<rparr>" and ?n = "thread_id_counter S"
  have S1: "tid = ?n" "S1 = S\<lparr>thread_id_counter := ?n + 1\<rparr>" using n l by (auto simp: next_thread_id_def)
  let ?T = "inc_rq_len c (mark_thread_alive tid S1)"
  let ?f = "\<lambda>s. s\<lparr>ready_queue := ?t # ready_queue s\<rparr>" and ?g = "\<lambda>s. s\<lparr>join_map := bt_insert (join_map s) tid []\<rparr>"
  let ?U = "upd_core c ?f ?T"
  have "thread_ids C ?T = thread_ids C S1" by (simp add: thread_ids_def)
  then have q: "thread_ids C ?T = thread_ids C S" "idle_ids ?T = idle_ids S" "here ?T c" "scheds ?T = scheds S"
    using c by (simp_all add: S1 thread_ids_def running_all_def queued_all_def idle_ids_def here_def)
  have "same_roles ?T ?U" by (rule same_roles_core) simp
  with q push_ids [OF q(3), of C ?t] running_all_cong [of ?T ?U] idle_roles [of ?T ?U]
  have u: "thread_ids C ?U = add_mset tid (thread_ids C S)" "idle_ids ?U = idle_ids S" by (simp_all add: thread_ids_def)
  have w: "bt_wf (join_map (core ?U i))" if "i < length (scheds S)" for i
    using inv that q(4) c by (cases "i = c") (auto simp: sched_inv_def here_def core_upd_other)
  have "sched_inv C ?U" using u w by (intro grow_inv [OF inv]) (simp_all add: S1)
  moreover have "moves C ?U (upd_core c ?g ?U)"
  proof (rule core_moves)
    show "running_ids (?g (core ?U c)) + queued_ids (?g (core ?U c)) \<subseteq># running_ids (core ?U c) + queued_ids (core ?U c)"
      by (rule new_join_ids, rule w) (use c in \<open>simp add: here_def\<close>)
  qed (use q(3) in auto)
  ultimately have "sched_inv C (upd_core c ?g ?U)" by (rule moves_inv)
  moreover have "upd_core c ?g ?U = ready c ?t S1" using c by (simp add: ready_def upd_core_def here_def upd_cpu_def S1 mark_thread_alive_def)
  ultimately show ?thesis by simp
qed

lemma sched_step_inv:
  assumes Ch: "chan_spec Ch C cap" and "sched_step Ch S S'" and inv: "sched_inv C S"
  shows "sched_inv C S'"
  using assms(2,3)
proof cases
  case (create c tid S1 pid)
  then show ?thesis using create_inv inv by blast
next
  case (join c time tid r)
  then have "bt_wf (join_map (core S c))" using inv by (simp add: sched_inv_def busy_def here_def)
  with join show ?thesis using moves_inv [OF inv join_moves [OF Ch]] by blast
next
  case (deblock c pid tid)
  then have "bt_wf (join_map (core S c))" using inv by (simp add: sched_inv_def here_def)
  with deblock show ?thesis using moves_inv [OF inv deblock_moves [OF Ch]] by blast
next
  case (park c r)
  then obtain cur :: thread where "S' = set_state (t_id cur) Parking S" by (auto simp: park_current_thread_def elim!: and_then_InrE)
  then show ?thesis using moves_inv [OF inv moves_set_state [OF moves_refl]] by simp
next
  case (unblock c pid tid r)
  then show ?thesis using moves_inv [OF inv unblock_moves, of c pid tid] by simp
next
  case (set_init c)
  have "moves C S (set_init c S)"
    unfolding set_init_def by (rule core_moves [OF set_init(2)]) (auto simp: running_ids_def queued_ids_def split: option.split)
  then show ?thesis using moves_inv [OF inv] set_init by simp
next
  case (resched c)
  have "moves C S (set_resched_flag c S)" by (rule keeps_moves) simp
  then show ?thesis using moves_inv [OF inv] resched by simp
next
  case online
  then show ?thesis using inv
    by (simp add: sched_inv_def idle_ids_def thread_ids_def queued_all_def running_all_def cpu_mark_online_def)
qed (auto intro: moves_inv [OF inv] sleep_moves [OF Ch] block_moves [OF Ch] exit_moves [OF Ch] kill_moves [OF Ch]
  yield_moves start_moves switch_moves [OF Ch])

lemma boot_inv:
  assumes "C tx = []" and "distinct (map t_id idles)" and "\<forall>t \<in> set idles. t_id t < n"
  shows "sched_inv C (sched_boot idles n tx)"
proof -
  have z: "sum_list (map (\<lambda>_. {#}) xs) = {#}" for xs :: "'b list" by (induction xs) auto
  have "thread_ids C (sched_boot idles n tx) = {#}"
    by (simp add: thread_ids_def running_all_def queued_all_def sched_boot_def sched_new_def running_ids_def queued_ids_def
      inbox_ids_def per_cpu_new_def comp_def assms(1) z)
  moreover have "idle_ids (sched_boot idles n tx) = mset (map t_id idles)"
    by (simp add: idle_ids_def sched_boot_def sched_new_def multiset.map_comp comp_def)
  moreover have "count (mset (map t_id idles)) t \<le> 1" for t
    using assms(2) by (metis distinct_count_atmost_1 le_numeral_extra(4) zero_le_one)
  ultimately show ?thesis using assms(3) by (auto simp: sched_inv_def sched_boot_def sched_new_def bt_wf_def)
qed

text \<open>Channels as lists, and a thread that has been created and started on a single core.\<close>

definition list_chan :: "nat \<Rightarrow> message_item option list chan_ops" where
  "list_chan cap = \<lparr>try_send = (\<lambda>q m. if length q < cap then Some (q @ [m]) else None),
     try_recv = (\<lambda>q. case q of [] \<Rightarrow> None | m # q' \<Rightarrow> Some (m, q'))\<rparr>"

lemma list_chan_spec: "chan_spec (list_chan cap) (\<lambda>q. q) cap"
  by (auto simp: chan_spec_def list_chan_def split: list.split)

definition one_core :: "message_item option list kernel" where
  "one_core = sched_boot [\<lparr>t_id = 1, t_pid = 0\<rparr>] 2 []"

definition one_started :: "message_item option list kernel" where
  "one_started = start 0 (ready 0 \<lparr>t_id = 2, t_pid = 0\<rparr> (snd (next_thread_id one_core)))"

text \<open>
  C27. No thread is ever lost twice or run twice: in every history of the scheduler on any number
  of cores - creation, sleeping, blocking, waiting for the end of another thread, waking, killing,
  load balancing through messages, preemption - each thread is at most at one place (running on
  one core, in one ready, sleep, blocked or waiting list, or in one message on its way), and the
  idle threads of the cores are in no list.
\<close>

theorem threads_once:
  assumes "chan_spec Ch C cap" and "C tx = []"
    and "distinct (map t_id idles)" and "\<forall>t \<in> set idles. t_id t < n"
    and "(sched_step Ch)\<^sup>*\<^sup>* (sched_boot idles n tx) S"
  shows "count (idle_ids S + thread_ids C S) t \<le> 1"
proof -
  have "sched_inv C S" using assms(5)
    by induction (use boot_inv [of C, OF assms(2-4)] sched_step_inv [OF assms(1)] in blast)+
  then show ?thesis by (simp add: sched_inv_def)
qed

theorem threads_once_witness:
  "2 \<in># thread_ids (\<lambda>q. q) one_started \<and> count (idle_ids one_started + thread_ids (\<lambda>q. q) one_started) 2 \<le> 1"
proof
  let ?t = "\<lparr>t_id = 2, t_pid = 0\<rparr> :: thread"
  let ?S1 = "snd (next_thread_id one_core)"
  have n: "next_thread_id one_core = (2, ?S1)" by (simp add: next_thread_id_def one_core_def sched_boot_def)
  have h: "here one_core 0" by (simp add: here_def one_core_def sched_boot_def)
  have "sched_step (list_chan 4) one_core (ready 0 ?t ?S1)" by (rule sched_step.create [OF h n]) simp
  moreover have "here (ready 0 ?t ?S1) 0" using h by (simp add: ready_def next_thread_id_def here_def)
  then have "sched_step (list_chan 4) (ready 0 ?t ?S1) one_started" unfolding one_started_def by (rule sched_step.start)
  ultimately have "(sched_step (list_chan 4))\<^sup>*\<^sup>* (sched_boot [\<lparr>t_id = 1, t_pid = 0\<rparr>] 2 []) one_started"
    unfolding one_core_def by (meson converse_rtranclp_into_rtranclp rtranclp.rtrancl_refl)
  then show "count (idle_ids one_started + thread_ids (\<lambda>q. q) one_started) 2 \<le> 1"
    by (rule threads_once [OF list_chan_spec, rotated -1]) simp_all
  show "2 \<in># thread_ids (\<lambda>q. q) one_started"
    by (simp add: thread_ids_def running_all_def running_ids_def one_started_def one_core_def start_def ready_def pop_back_def
      next_thread_id_def mark_thread_alive_def upd_core_def upd_cpu_def sched_boot_def sched_new_def)
qed

text \<open>
  A core that finds its ready queue empty and the message to kill a thread in its inbox never
  gets on: it holds the lock of the sleep list when it handles the message.
\<close>

lemma kill_message_deadlocks:
  assumes Ch: "chan_spec Ch C cap" and c: "here S c" and q: "ready_queue (core S c) = []" "sleep_list (core S c) = []"
    and m: "C (inbox (cpus S ! c)) = Some (MCmd (Kill tid)) # ms" and a: "is_thread_alive tid S"
    and cur: "current_thread (core S c) = Some cur" "t_id cur \<noteq> tid"
  shows "block_and_switch Ch c time S = Inl Deadlock"
proof -
  have s: "(core S c)\<lparr>sleep_list := []\<rparr> = core S c" using q(2) by (cases "core S c") simp
  have "scheds (check_sleep_list c time S) = scheds S" "cpus (check_sleep_list c time S) = cpus S"
    "active_tids (check_sleep_list c time S) = active_tids S"
    by (simp_all add: check_sleep_list_def q(2) Let_def upd_core_def s)
  moreover obtain rx where "try_recv Ch (inbox (cpus S ! c)) = Some (Some (MCmd (Kill tid)), rx)"
  proof (cases "try_recv Ch (inbox (cpus S ! c))")
    case None
    then show ?thesis using chan_recv_empty [OF Ch None] m by simp
  next
    case (Some p)
    then obtain x rx where r: "try_recv Ch (inbox (cpus S ! c)) = Some (x, rx)" by (cases p) auto
    then show ?thesis using chan_recv [OF Ch r] m that by simp
  qed
  ultimately show ?thesis using q a cur
    by (simp add: block_and_switch_def pop_back_def drain_inbox_into_ready_def numeral_eq_Suc is_thread_alive_def current_def
      kill_locally_def upd_cpu_def)
qed

section \<open>Round robin\<close>

text \<open>A core on its own, with an empty inbox and a running thread.\<close>

definition alone :: "('ch \<Rightarrow> message_item option list) \<Rightarrow> 'ch kernel \<Rightarrow> bool" where
  "alone C S \<longleftrightarrow> here S 0 \<and> active_cpus S = 1 \<and> C (inbox (cpus S ! 0)) = [] \<and> initialized (core S 0) \<and>
     current_thread (core S 0) \<noteq> None \<and> unat (rq_len (cpus S ! 0)) + length (sleep_list (core S 0)) + 1 < 2 ^ 32"

text \<open>Timer interrupts that find no lock taken.\<close>

definition switches_on :: "switch_env \<Rightarrow> bool" where
  "switches_on env \<longleftrightarrow> state_free env \<and> \<not> preempt_off env \<and> \<not> stack_locked env"

fun switches :: "'ch chan_ops \<Rightarrow> switch_env list \<Rightarrow> 'ch kernel \<Rightarrow> 'ch kernel run" where
  "switches Ch [] S = Inr S"
| "switches Ch (env # envs) S = and_then (switch_thread Ch 0 True env S) (\<lambda>(_, S1). switches Ch envs S1)"

lemma push_all_core:
  "here S c \<Longrightarrow> scheds (push_all c ts S) = (scheds S)[c := (core S c)\<lparr>ready_queue := rev ts @ ready_queue (core S c)\<rparr>]"
  by (induction ts arbitrary: S) (auto simp: upd_core_def here_def)

lemma push_all_rq_len:
  "here S c \<Longrightarrow> rq_len (cpus (push_all c ts S) ! c) = rq_len (cpus S ! c) + of_nat (length ts)"
  by (induction ts arbitrary: S) (auto simp: here_def upd_cpu_def)

lemma push_all_active: "active_cpus (push_all c ts S) = active_cpus S"
  by (induction ts arbitrary: S) auto

lemma unat_add_le: "unat (a + of_nat n :: 32 word) \<le> unat a + n"
proof -
  have "unat (a + of_nat n) \<le> unat a + unat (of_nat n :: 32 word)" by (simp add: unat_word_ariths(1))
  also have "unat (of_nat n :: 32 word) \<le> n" by (simp add: unat_of_nat)
  finally show ?thesis by simp
qed

lemma check_sleep_alone:
  assumes a: "alone C S"
  obtains p where "alone C (check_sleep_list 0 time S)"
    "ready_queue (core (check_sleep_list 0 time S) 0) = p @ ready_queue (core S 0)"
proof -
  let ?sl = "sleep_list (core S 0)"
  let ?ts = "map fst (filter (\<lambda>e. time \<ge> snd e) ?sl)"
  let ?T = "upd_core 0 (\<lambda>s. s\<lparr>sleep_list := filter (\<lambda>e. \<not> time \<ge> snd e) ?sl\<rparr>) S"
  let ?U = "check_sleep_list 0 time S"
  have U: "?U = push_all 0 ?ts ?T" by (simp add: check_sleep_list_def Let_def)
  have h: "here ?T 0" using a by (simp add: alone_def)
  have k: "same_roles S ?U" using check_sleep_list_keeps [of S 0 C time] a by (simp add: keeps_def alone_def)
  have l: "length ?ts + length (filter (\<lambda>e. \<not> time \<ge> snd e) ?sl) = length ?sl"
    by (simp add: sum_length_filter_compl)
  have c: "core ?U 0 = (core S 0)\<lparr>sleep_list := filter (\<lambda>e. \<not> time \<ge> snd e) ?sl, ready_queue := rev ?ts @ ready_queue (core S 0)\<rparr>"
    using push_all_core [OF h, of ?ts] h unfolding U by (simp add: here_def)
  have "unat (rq_len (cpus ?U ! 0)) \<le> unat (rq_len (cpus S ! 0)) + length ?ts"
    unfolding U push_all_rq_len [OF h] using unat_add_le by simp
  moreover have "inbox (cpus ?U ! 0) = inbox (cpus S ! 0)" "active_cpus ?U = active_cpus S" "here ?U 0 = here S 0"
    using same_roles_here [OF k] by (simp_all add: U push_all_inbox push_all_active)
  ultimately have "alone C ?U" using a l unfolding alone_def c by simp
  then show ?thesis using that c by simp
qed

lemma drain_empty:
  assumes "chan_spec Ch C cap" and "C (inbox (cpus S ! c)) = []"
  shows "drain_inbox_into_ready Ch held c n S = Inr S"
proof -
  have "try_recv Ch (inbox (cpus S ! c)) = None"
    using chan_recv [OF assms(1)] assms(2) by (cases "try_recv Ch (inbox (cpus S ! c))") (fastforce split: prod.splits)+
  then have "drain_loop Ch held c n 0 S = Inr (0, S)" by (cases n) auto
  then show ?thesis by (simp add: drain_inbox_into_ready_def)
qed

lemma no_balance:
  assumes "alone C S"
  shows "\<exists>b. (if resched_flag (cpus S ! 0) then Inr True else should_balance_now 0 S) = Inr b"
    "balance_once Ch 0 S = Inr S"
proof -
  have r: "read_rq_len_remote S 0 = Inr (unat (rq_len (cpus S ! 0)))" "unat (rq_len (cpus S ! 0)) + 1 < 2 ^ 32"
    "active_cpus S = 1" using assms by (auto simp: alone_def here_def read_rq_len_remote_def per_cpu_ref_def)
  then show "\<exists>b. (if resched_flag (cpus S ! 0) then Inr True else should_balance_now 0 S) = Inr b"
    by (auto simp: should_balance_now_def active_thread_count_def)
  have "find_less_loaded_core 0 S = Inr None" using r(1,3) by (simp add: find_less_loaded_core_def read_rq_len_def)
  then show "balance_once Ch 0 S = Inr S" by (simp add: balance_once_def Let_def del: move_threads.simps)
qed

lemma switch_alone:
  assumes Ch: "chan_spec Ch C cap" and a: "alone C S" and e: "switches_on env"
    and q: "ready_queue (core S 0) = q @ [nxt]"
  obtains n S' p where "switch_thread Ch 0 i env S = Inr (n, S')" "alone C S'"
    "current_thread (core S' 0) = Some nxt" "ready_queue (core S' 0) = p @ q"
proof -
  define T where "T = (if sleep_free env then check_sleep_list 0 (sw_time env) S else S)"
  obtain p where T: "alone C T" "ready_queue (core T 0) = p @ ready_queue (core S 0)"
  proof (cases "sleep_free env")
    case True
    then show ?thesis using check_sleep_alone [OF a, of "sw_time env"] that unfolding T_def by auto
  next
    case False
    then show ?thesis using a that [of "[]"] unfolding T_def by simp
  qed
  obtain cur where cur: "current_thread (core T 0) = Some cur" using T(1) by (auto simp: alone_def)
  obtain b where b: "(if resched_flag (cpus T ! 0) then Inr True else should_balance_now 0 T) = Inr b"
    using no_balance(1) [OF T(1)] by blast
  have bal: "(if b then balance_once Ch 0 T else Inr T) = Inr T" using no_balance(2) [OF T(1)] by simp
  let ?q = "if t_id cur = t_id (idle_thread (core T 0)) then p @ q else cur # p @ q"
  let ?U = "upd_core 0 (\<lambda>s. s\<lparr>current_thread := Some nxt, ready_queue := ?q\<rparr>) T"
  have d: "drain_inbox_into_ready Ch False 0 10 T = Inr T" using drain_empty [OF Ch] T(1) by (simp add: alone_def)
  have r: "pop_back (ready_queue (core T 0)) = Some (nxt, p @ q)" by (simp add: pop_back_Some T(2) q)
  have env: "state_free env" "initialized (core S 0)" "\<not> preempt_off env" "\<not> stack_locked env"
    using e a by (auto simp: switches_on_def alone_def)
  have "switch_thread Ch 0 i env S = Inr (eoi i, ?U)"
    by (simp add: switch_thread_def env T_def [symmetric] d b bal current_def cur r Let_def cong: if_cong)
  moreover have "core ?U 0 = (core T 0)\<lparr>current_thread := Some nxt, ready_queue := ?q\<rparr>"
    using T(1) by (simp add: alone_def here_def)
  moreover from this have "alone C ?U" using T(1) by (simp add: alone_def)
  ultimately show ?thesis using that [of _ ?U "if t_id cur = t_id (idle_thread (core T 0)) then p else cur # p"] by simp
qed

lemma switches_reach:
  assumes Ch: "chan_spec Ch C cap" and e: "\<forall>env \<in> set envs. switches_on env"
  shows "alone C S \<Longrightarrow> ready_queue (core S 0) = q1 @ t # q2 \<Longrightarrow> length envs = length q2 + 1 \<Longrightarrow>
    \<exists>S'. switches Ch envs S = Inr S' \<and> current_thread (core S' 0) = Some t"
  using e
proof (induction envs arbitrary: S q1 q2)
  case (Cons env envs)
  have e: "switches_on env" using Cons.prems by simp
  show ?case
  proof (cases q2 rule: rev_cases)
    case Nil
    then have q: "ready_queue (core S 0) = q1 @ [t]" using Cons.prems by simp
    obtain n S' p where "switch_thread Ch 0 True env S = Inr (n, S')" "current_thread (core S' 0) = Some t"
      by (rule switch_alone [OF Ch Cons.prems(1) e q])
    then show ?thesis using Nil Cons.prems(3) by simp
  next
    case (snoc q x)
    then have q: "ready_queue (core S 0) = (q1 @ t # q) @ [x]" using Cons.prems by simp
    obtain n S' p where s: "switch_thread Ch 0 True env S = Inr (n, S')" "alone C S'"
      "ready_queue (core S' 0) = p @ q1 @ t # q"
      by (rule switch_alone [OF Ch Cons.prems(1) e q])
    have "\<exists>S''. switches Ch envs S' = Inr S'' \<and> current_thread (core S'' 0) = Some t"
      by (rule Cons.IH [OF s(2), of "p @ q1" q]) (use s(3) snoc Cons.prems in simp_all)
    then show ?thesis using s(1) by simp
  qed
qed simp

text \<open>
  C28. Round robin on a single core: a thread with \<open>length q2\<close> threads before it in the ready queue
  runs after exactly \<open>length q2 + 1\<close> timer interrupts that switch threads, whichever sleeping
  threads wake up in between; no switch panics, the load balancing included.
\<close>

theorem round_robin:
  assumes "chan_spec Ch C cap" and "alone C S" and "ready_queue (core S 0) = q1 @ t # q2"
    and "length envs = length q2 + 1" and "\<forall>env \<in> set envs. switches_on env"
  shows "\<exists>S'. switches Ch envs S = Inr S' \<and> current_thread (core S' 0) = Some t"
  using switches_reach assms by blast

definition three_ready :: "message_item option list kernel" where
  "three_ready = upd_core 0 (\<lambda>s. s\<lparr>initialized := True, current_thread := Some \<lparr>t_id = 2, t_pid = 0\<rparr>,
     ready_queue := [\<lparr>t_id = 3, t_pid = 0\<rparr>, \<lparr>t_id = 4, t_pid = 0\<rparr>, \<lparr>t_id = 5, t_pid = 0\<rparr>],
     sleep_list := [(\<lparr>t_id = 6, t_pid = 0\<rparr>, 10)]\<rparr>) one_core"

theorem round_robin_witness:
  "\<exists>S'. switches (list_chan 4) (replicate 3 \<lparr>state_free = True, sleep_free = True, preempt_off = False,
      stack_locked = False, sw_time = 20\<rparr>) three_ready = Inr S' \<and> current_thread (core S' 0) = Some \<lparr>t_id = 3, t_pid = 0\<rparr>"
proof (rule round_robin [OF list_chan_spec])
  show "alone (\<lambda>q. q) three_ready"
    by (simp add: alone_def three_ready_def one_core_def sched_boot_def upd_core_def here_def per_cpu_new_def)
  show "ready_queue (core three_ready 0) = [] @ \<lparr>t_id = 3, t_pid = 0\<rparr> # [\<lparr>t_id = 4, t_pid = 0\<rparr>, \<lparr>t_id = 5, t_pid = 0\<rparr>]"
    by (simp add: three_ready_def one_core_def sched_boot_def upd_core_def)
qed (auto simp: switches_on_def)

end
