(* ===== verification/TextBuffer.thy ===== *)
theory TextBuffer
  imports Prelude
begin

text \<open>
  The piece table of the text editor (\<open>library/text_buffer\<close>): the text is a sequence of pieces of
  two buffers that never change but at their end, the file as it was loaded and the characters
  typed since; every edit is recorded for \<open>undo\<close> and \<open>redo\<close>. Characters are opaque to it.

  The definitions follow the file; lengths are numbers of characters in memory, far below the
  range of \<open>usize\<close>, and are natural numbers here. \<open>editor\<close> is the interface a client of a text buffer with undo
  relies on, stated over the text as a list; the piece table implements it.
\<close>

section \<open>Data\<close>

datatype text_buffer_error = AddressOutOfBounds

datatype buffer_descr = File | Add

datatype undo_redo_operation = Undo | Redo | NoUndoRedo

datatype 'c edit_op = Insert nat 'c | Delete nat 'c

record piece_descr =
  pd_buffer :: buffer_descr
  pd_offset :: nat
  pd_length :: nat

record 'c text_buffer =
  file_buffer :: "'c list"
  add_buffer :: "'c list"
  piece_table :: "piece_descr list"
  lenght :: nat
  tb_pos :: nat
  tb_history :: "'c edit_op list"
  tb_redo :: "'c edit_op list"

definition piece_new :: "buffer_descr \<Rightarrow> nat \<Rightarrow> nat \<Rightarrow> piece_descr" where
  "piece_new buffer offset len = \<lparr>pd_buffer = buffer, pd_offset = offset, pd_length = len\<rparr>"

definition from_str :: "'c list \<Rightarrow> 'c text_buffer" where
  "from_str s = \<lparr>file_buffer = s, add_buffer = [], piece_table = [piece_new File 0 (length s)],
     lenght = length s, tb_pos = 0, tb_history = [], tb_redo = []\<rparr>"

text \<open>\<open>chars().nth(i)\<close>, \<open>Vec::get\<close>, indexing, \<open>Vec::insert\<close> and \<open>Vec::pop\<close>.\<close>

definition nth_opt :: "'a list \<Rightarrow> nat \<Rightarrow> 'a option" where
  "nth_opt xs i = (if i < length xs then Some (xs ! i) else None)"

definition vec_index :: "'a list \<Rightarrow> nat \<Rightarrow> 'a run" where
  "vec_index xs i = (if i < length xs then Inr (xs ! i) else Inl IndexOutOfBounds)"

definition vec_insert :: "'a list \<Rightarrow> nat \<Rightarrow> 'a \<Rightarrow> 'a list run" where
  "vec_insert xs i x = (if i \<le> length xs then Inr (take i xs @ x # drop i xs) else Inl IndexOutOfBounds)"

definition vec_pop :: "'a list \<Rightarrow> ('a \<times> 'a list) option" where
  "vec_pop xs = (if xs = [] then None else Some (last xs, butlast xs))"

section \<open>Addresses\<close>

fun resolve_from :: "piece_descr list \<Rightarrow> nat \<Rightarrow> nat \<Rightarrow> nat \<Rightarrow> bool \<Rightarrow> (nat \<times> nat) option" where
  "resolve_from [] i la_start la appending = (if appending then Some (i, 0) else None)"
| "resolve_from (p # ps) i la_start la appending =
     (if la \<ge> la_start \<and> la < la_start + pd_length p then Some (i, la - la_start)
      else resolve_from ps (i + 1) (la_start + pd_length p) la appending)"

definition resolve_logical_adress :: "'c text_buffer \<Rightarrow> nat \<Rightarrow> bool \<Rightarrow> (nat \<times> nat) option" where
  "resolve_logical_adress b la appending = resolve_from (piece_table b) 0 0 la appending"

definition get_char :: "'c text_buffer \<Rightarrow> nat \<Rightarrow> 'c option" where
  "get_char b la = (case resolve_logical_adress b la False of None \<Rightarrow> None
     | Some (i, off) \<Rightarrow> (case nth_opt (piece_table b) i of None \<Rightarrow> None
        | Some p \<Rightarrow> (case pd_buffer p of
            Add \<Rightarrow> nth_opt (add_buffer b) (pd_offset p + off)
          | File \<Rightarrow> nth_opt (file_buffer b) (pd_offset p + off))))"

section \<open>Edits\<close>

definition record_op :: "undo_redo_operation \<Rightarrow> 'c edit_op \<Rightarrow> 'c text_buffer \<Rightarrow> 'c text_buffer" where
  "record_op operation e b = (case operation of
       Undo \<Rightarrow> b\<lparr>tb_redo := tb_redo b @ [e]\<rparr>
     | NoUndoRedo \<Rightarrow> b\<lparr>tb_history := tb_history b @ [e], tb_redo := []\<rparr>
     | Redo \<Rightarrow> b\<lparr>tb_history := tb_history b @ [e]\<rparr>)"

text \<open>An edit gives the result of the call and the buffer after it, or panics.\<close>

type_synonym 'c edit = "((text_buffer_error + unit) \<times> 'c text_buffer) run"

definition can_enlarge :: "'c text_buffer \<Rightarrow> nat \<Rightarrow> nat \<Rightarrow> bool run" where
  "can_enlarge b i off =
     (if i > 0 \<and> off = 0
      then and_then (vec_index (piece_table b) (i - 1)) (\<lambda>p.
        Inr (pd_buffer p = Add \<and> pd_offset p + pd_length p = length (add_buffer b) - 1))
      else Inr False)"

definition insert_piece :: "'c text_buffer \<Rightarrow> nat \<Rightarrow> nat \<Rightarrow> piece_descr list run" where
  "insert_piece b i off =
     (let added = piece_new Add (length (add_buffer b) - 1) 1 in
      if i = length (piece_table b) then vec_insert (piece_table b) i added
      else and_then (vec_index (piece_table b) i) (\<lambda>p.
        if off = 0 then vec_insert (piece_table b) i added
        else
          let table = (piece_table b)[i := p\<lparr>pd_length := off\<rparr>] in
          and_then (vec_insert table (i + 1) (piece_new (pd_buffer p) (pd_offset p + off) (pd_length p - off))) (\<lambda>table'.
          vec_insert table' (i + 1) added)))"

definition insert_with :: "'c text_buffer \<Rightarrow> nat \<Rightarrow> 'c \<Rightarrow> undo_redo_operation \<Rightarrow> 'c edit" where
  "insert_with b la c operation = (case resolve_logical_adress b la True of
       None \<Rightarrow> Inr (Inl AddressOutOfBounds, b)
     | Some (i, off) \<Rightarrow>
         let b1 = b\<lparr>add_buffer := add_buffer b @ [c]\<rparr> in
         and_then (can_enlarge b1 i off) (\<lambda>enlarge.
         and_then
           (if enlarge
            then and_then (vec_index (piece_table b1) (i - 1)) (\<lambda>p.
              Inr ((piece_table b1)[i - 1 := p\<lparr>pd_length := pd_length p + 1\<rparr>]))
            else insert_piece b1 i off)
           (\<lambda>table. Inr (Inr (), record_op operation (Insert la c)
              (b1\<lparr>piece_table := table, lenght := lenght b + 1\<rparr>)))))"

definition delete_piece :: "'c text_buffer \<Rightarrow> nat \<Rightarrow> nat \<Rightarrow> piece_descr list run" where
  "delete_piece b i off =
     and_then (vec_index (piece_table b) i) (\<lambda>p.
     and_then
       (if off = 0
        then Inr ((piece_table b)[i := p\<lparr>pd_offset := pd_offset p + 1, pd_length := pd_length p - 1\<rparr>])
        else if pd_length p - 1 = off then Inr ((piece_table b)[i := p\<lparr>pd_length := pd_length p - 1\<rparr>])
        else vec_insert ((piece_table b)[i := p\<lparr>pd_length := off\<rparr>]) (i + 1)
          (piece_new (pd_buffer p) (pd_offset p + off + 1) (pd_length p - off - 1)))
       (\<lambda>table. case nth_opt table i of
           None \<Rightarrow> Inl UnwrapNone
         | Some q \<Rightarrow> Inr (if pd_length q = 0 then take i table @ drop (i + 1) table else table)))"

definition delete_with :: "'c text_buffer \<Rightarrow> nat \<Rightarrow> undo_redo_operation \<Rightarrow> 'c edit" where
  "delete_with b la operation = (case resolve_logical_adress b la False of
       None \<Rightarrow> Inr (Inl AddressOutOfBounds, b)
     | Some (i, off) \<Rightarrow> (case get_char b la of
           None \<Rightarrow> Inr (Inl AddressOutOfBounds, b)
         | Some c \<Rightarrow>
             and_then (delete_piece b i off) (\<lambda>table.
               if lenght b = 0 then Inl ArithOverflow
               else Inr (Inr (), record_op operation (Delete la c)
                 (b\<lparr>piece_table := table, lenght := lenght b - 1\<rparr>)))))"

definition insert_char :: "'c text_buffer \<Rightarrow> nat \<Rightarrow> 'c \<Rightarrow> 'c edit" where
  "insert_char b la c = insert_with b la c NoUndoRedo"

definition delete_char :: "'c text_buffer \<Rightarrow> nat \<Rightarrow> 'c edit" where
  "delete_char b la = delete_with b la NoUndoRedo"

definition undo :: "'c text_buffer \<Rightarrow> 'c edit" where
  "undo b = (case vec_pop (tb_history b) of
       Some (Insert la _, h) \<Rightarrow> delete_with (b\<lparr>tb_history := h\<rparr>) la Undo
     | Some (Delete la c, h) \<Rightarrow> insert_with (b\<lparr>tb_history := h\<rparr>) la c Undo
     | None \<Rightarrow> Inr (Inr (), b))"

definition redo :: "'c text_buffer \<Rightarrow> 'c edit" where
  "redo b = (case vec_pop (tb_redo b) of
       Some (Insert la _, r) \<Rightarrow> delete_with (b\<lparr>tb_redo := r\<rparr>) la Redo
     | Some (Delete la c, r) \<Rightarrow> insert_with (b\<lparr>tb_redo := r\<rparr>) la c Redo
     | None \<Rightarrow> Inr (Inr (), b))"

section \<open>Reading\<close>

definition next_char :: "'c text_buffer \<Rightarrow> 'c option \<times> 'c text_buffer" where
  "next_char b = (if tb_pos b < lenght b then (get_char b (tb_pos b), b\<lparr>tb_pos := tb_pos b + 1\<rparr>) else (None, b))"

text \<open>\<open>to_string\<close> reads characters until an address has none.\<close>

lemma resolve_from_bound:
  "resolve_from ps i start la False = Some r \<Longrightarrow> start \<le> la \<Longrightarrow> la < start + sum_list (map pd_length ps)"
  by (induction ps i start la False rule: resolve_from.induct) (auto split: if_splits)

lemma get_char_bound: "get_char b la = Some c \<Longrightarrow> la < sum_list (map pd_length (piece_table b))"
  using resolve_from_bound [of "piece_table b" 0 0 la]
  by (auto simp: get_char_def resolve_logical_adress_def split: option.splits)

function to_string_from :: "'c text_buffer \<Rightarrow> nat \<Rightarrow> 'c list" where
  "to_string_from b i = (case get_char b i of Some c \<Rightarrow> c # to_string_from b (i + 1) | None \<Rightarrow> [])"
  by pat_completeness auto

termination
  by (relation "measure (\<lambda>(b, i). sum_list (map pd_length (piece_table b)) - i)") (auto dest: get_char_bound)

declare to_string_from.simps [simp del]

definition to_string :: "'c text_buffer \<Rightarrow> 'c list" where
  "to_string b = to_string_from b 0"

section \<open>The text that a buffer stands for\<close>

definition buffer_of :: "'c text_buffer \<Rightarrow> buffer_descr \<Rightarrow> 'c list" where
  "buffer_of b d = (case d of File \<Rightarrow> file_buffer b | Add \<Rightarrow> add_buffer b)"

definition piece_text :: "'c text_buffer \<Rightarrow> piece_descr \<Rightarrow> 'c list" where
  "piece_text b p = take (pd_length p) (drop (pd_offset p) (buffer_of b (pd_buffer p)))"

definition pieces_text :: "'c text_buffer \<Rightarrow> piece_descr list \<Rightarrow> 'c list" where
  "pieces_text b ps = concat (map (piece_text b) ps)"

definition text_of :: "'c text_buffer \<Rightarrow> 'c list" where
  "text_of b = pieces_text b (piece_table b)"

definition piece_ok :: "'c text_buffer \<Rightarrow> piece_descr \<Rightarrow> bool" where
  "piece_ok b p \<longleftrightarrow> pd_offset p + pd_length p \<le> length (buffer_of b (pd_buffer p))"

definition buffer_ok :: "'c text_buffer \<Rightarrow> bool" where
  "buffer_ok b \<longleftrightarrow> list_all (piece_ok b) (piece_table b) \<and> lenght b = length (text_of b)"

lemma length_piece_text [simp]: "piece_ok b p \<Longrightarrow> length (piece_text b p) = pd_length p"
  by (simp add: piece_ok_def piece_text_def)

lemma pieces_text_simps [simp]:
  "pieces_text b [] = []" "pieces_text b (p # ps) = piece_text b p @ pieces_text b ps"
  "pieces_text b (ps @ qs) = pieces_text b ps @ pieces_text b qs"
  by (simp_all add: pieces_text_def)

text \<open>Where an address leads: into a piece, or behind the last one.\<close>

lemma resolve_fromE:
  assumes "resolve_from ps i start la appending = Some (k, off)" and "start \<le> la" and "list_all (piece_ok b) ps"
  obtains (inside) ps1 p ps2 where "ps = ps1 @ p # ps2" "k = i + length ps1" "la = start + length (pieces_text b ps1) + off"
      "off < pd_length p"
    | (behind) "appending" "k = i + length ps" "off = 0" "start + length (pieces_text b ps) \<le> la"
  using assms
proof (induction ps arbitrary: i start thesis)
  case (Cons p ps)
  show ?case
  proof (cases "la < start + pd_length p")
    case True
    then show ?thesis using Cons.prems(1) [of "[]" p ps] Cons.prems by auto
  next
    case False
    then have r: "resolve_from ps (i + 1) (start + pd_length p) la appending = Some (k, off)" "start + pd_length p \<le> la"
      using Cons.prems by auto
    have ok: "list_all (piece_ok b) ps" "length (piece_text b p) = pd_length p" using Cons.prems by auto
    show ?thesis
    proof (rule Cons.IH [OF _ _ r ok(1)])
      fix ps1 q ps2
      assume "ps = ps1 @ q # ps2" "k = i + 1 + length ps1" "la = start + pd_length p + length (pieces_text b ps1) + off"
        "off < pd_length q"
      then show ?thesis using Cons.prems(1) [of "p # ps1" q ps2] ok by simp
    next
      assume "appending" "k = i + 1 + length ps" "off = 0" "start + pd_length p + length (pieces_text b ps) \<le> la"
      then show ?thesis using Cons.prems(2) ok by simp
    qed
  qed
qed (auto split: if_splits)

lemma resolve_from_None:
  "start \<le> la \<Longrightarrow> resolve_from ps i start la False = None \<longleftrightarrow> start + sum_list (map pd_length ps) \<le> la"
  by (induction ps i start la False rule: resolve_from.induct) auto

lemma length_pieces_text: "list_all (piece_ok b) ps \<Longrightarrow> length (pieces_text b ps) = sum_list (map pd_length ps)"
  by (induction ps) auto

lemma get_char_text:
  assumes "buffer_ok b"
  shows "get_char b la = nth_opt (text_of b) la"
proof (cases "resolve_logical_adress b la False")
  case None
  then have "length (text_of b) \<le> la" using assms
    by (simp add: resolve_logical_adress_def resolve_from_None text_of_def buffer_ok_def length_pieces_text)
  with None show ?thesis by (simp add: get_char_def nth_opt_def)
next
  case (Some r)
  obtain k off where r: "resolve_from (piece_table b) 0 0 la False = Some (k, off)"
    using Some by (cases r) (auto simp: resolve_logical_adress_def)
  have ok: "list_all (piece_ok b) (piece_table b)" using assms by (simp add: buffer_ok_def)
  from r le0 ok show ?thesis
  proof (cases rule: resolve_fromE)
    case (inside ps1 p ps2)
    have p: "piece_ok b p" using ok inside(1) by simp
    have "get_char b la = nth_opt (buffer_of b (pd_buffer p)) (pd_offset p + off)"
      using r inside(1,2) by (auto simp: get_char_def resolve_logical_adress_def nth_opt_def buffer_of_def split: buffer_descr.split)
    also have "\<dots> = Some (piece_text b p ! off)"
      using p inside(4) by (simp add: nth_opt_def piece_ok_def piece_text_def)
    also have "\<dots> = nth_opt (text_of b) la"
      using inside p by (simp add: nth_opt_def text_of_def nth_append)
    finally show ?thesis .
  qed simp_all
qed

section \<open>Edits of the text\<close>

text \<open>A character typed goes to the end of the second buffer, where no piece reaches.\<close>

abbreviation typed :: "'c text_buffer \<Rightarrow> 'c \<Rightarrow> 'c text_buffer" where
  "typed b c \<equiv> b\<lparr>add_buffer := add_buffer b @ [c]\<rparr>"

abbreviation new_piece :: "'c text_buffer \<Rightarrow> piece_descr" where
  "new_piece b \<equiv> piece_new Add (length (add_buffer b)) (Suc 0)"

lemma piece_typed:
  "piece_ok b p \<Longrightarrow> piece_ok (typed b c) p" "piece_ok b p \<Longrightarrow> piece_text (typed b c) p = piece_text b p"
  by (auto simp: piece_ok_def piece_text_def buffer_of_def split: buffer_descr.splits)

lemma pieces_typed:
  assumes "list_all (piece_ok b) ps"
  shows "list_all (piece_ok (typed b c)) ps" "pieces_text (typed b c) ps = pieces_text b ps"
  using assms by (induction ps) (auto simp: piece_typed)

lemma new_piece_typed: "piece_ok (typed b c) (new_piece b)" "piece_text (typed b c) (new_piece b) = [c]"
  by (simp_all add: piece_ok_def piece_text_def piece_new_def buffer_of_def)

lemma enlarged_typed:
  assumes "piece_ok b p" and "pd_buffer p = Add" and "pd_offset p + pd_length p = length (add_buffer b)"
  shows "piece_ok (typed b c) (p\<lparr>pd_length := pd_length p + 1\<rparr>)"
    "piece_text (typed b c) (p\<lparr>pd_length := pd_length p + 1\<rparr>) = piece_text b p @ [c]"
proof -
  show "piece_ok (typed b c) (p\<lparr>pd_length := pd_length p + 1\<rparr>)" using assms by (simp add: piece_ok_def buffer_of_def)
  have "drop (pd_offset p) (add_buffer b @ [c]) = drop (pd_offset p) (add_buffer b) @ [c]" using assms(3) by simp
  moreover have "length (drop (pd_offset p) (add_buffer b)) = pd_length p" using assms(3) by simp
  ultimately show "piece_text (typed b c) (p\<lparr>pd_length := pd_length p + 1\<rparr>) = piece_text b p @ [c]"
    by (simp add: piece_text_def buffer_of_def assms(2))
qed

text \<open>The piece table after an insertion between two pieces, and inside a piece.\<close>

definition insert_table :: "'c text_buffer \<Rightarrow> nat \<Rightarrow> nat \<Rightarrow> piece_descr list run" where
  "insert_table b i off =
     and_then (can_enlarge b i off) (\<lambda>enlarge.
       if enlarge
       then and_then (vec_index (piece_table b) (i - 1)) (\<lambda>p. Inr ((piece_table b)[i - 1 := p\<lparr>pd_length := pd_length p + 1\<rparr>]))
       else insert_piece b i off)"

lemma insert_between:
  assumes ok: "list_all (piece_ok b) (ps1 @ ps2)" and t: "piece_table b = ps1 @ ps2"
  obtains table where "insert_table (typed b c) (length ps1) 0 = Inr table"
    "list_all (piece_ok (typed b c)) table" "pieces_text (typed b c) table = pieces_text b ps1 @ c # pieces_text b ps2"
proof (cases "can_enlarge (typed b c) (length ps1) 0 = Inr True")
  case True
  then have "ps1 \<noteq> []" by (auto simp: can_enlarge_def)
  then obtain qs q where qs: "ps1 = qs @ [q]" by (metis rev_exhaust)
  have q: "pd_buffer q = Add" "pd_offset q + pd_length q = length (add_buffer b)"
    using True by (auto simp: can_enlarge_def vec_index_def t qs nth_append)
  let ?q = "q\<lparr>pd_length := pd_length q + 1\<rparr>"
  have "insert_table (typed b c) (length ps1) 0 = Inr (qs @ ?q # ps2)"
    using True by (simp add: insert_table_def vec_index_def t qs nth_append list_update_append)
  moreover have "piece_ok b q" using ok qs by simp
  ultimately show ?thesis using ok qs enlarged_typed [of b q, OF _ q]
    by (intro that [of "qs @ ?q # ps2"]) (auto simp: pieces_typed)
next
  case False
  have "can_enlarge (typed b c) (length ps1) 0 = Inr False"
    using False by (cases ps1) (auto simp: can_enlarge_def vec_index_def t)
  then have "insert_table (typed b c) (length ps1) 0 = Inr (ps1 @ new_piece b # ps2)"
    by (cases ps2) (simp_all add: insert_table_def insert_piece_def vec_insert_def vec_index_def t Let_def)
  then show ?thesis using ok by (intro that) (auto simp: pieces_typed new_piece_typed)
qed

lemma insert_inside:
  assumes ok: "list_all (piece_ok b) (ps1 @ p # ps2)" and t: "piece_table b = ps1 @ p # ps2"
    and off: "0 < off" "off < pd_length p"
  obtains table where "insert_table (typed b c) (length ps1) off = Inr table"
    "list_all (piece_ok (typed b c)) table"
    "pieces_text (typed b c) table = pieces_text b ps1 @ take off (piece_text b p) @ c # drop off (piece_text b p) @ pieces_text b ps2"
proof -
  let ?q = "p\<lparr>pd_length := off\<rparr>" and ?r = "piece_new (pd_buffer p) (pd_offset p + off) (pd_length p - off)"
  have p: "piece_ok b p" using ok by simp
  have "piece_ok b ?q" "piece_text b ?q = take off (piece_text b p)"
    using p off by (simp_all add: piece_ok_def piece_text_def min_def)
  moreover have "piece_ok b ?r" "piece_text b ?r = drop off (piece_text b p)"
    using p off by (simp_all add: piece_ok_def piece_text_def piece_new_def drop_take add.commute)
  moreover have "insert_table (typed b c) (length ps1) off = Inr (ps1 @ ?q # new_piece b # ?r # ps2)"
    using off by (simp add: insert_table_def can_enlarge_def insert_piece_def vec_insert_def vec_index_def t Let_def nth_append)
  ultimately show ?thesis using ok by (intro that) (auto simp: pieces_typed piece_typed new_piece_typed)
qed

lemma insert_at_address:
  assumes ok: "buffer_ok b" and r: "resolve_logical_adress b la True = Some (i, off)"
  obtains table where "insert_table (typed b c) i off = Inr table"
    "list_all (piece_ok (typed b c)) table" "pieces_text (typed b c) table = take la (text_of b) @ c # drop la (text_of b)"
proof -
  have l: "list_all (piece_ok b) (piece_table b)" using ok by (simp add: buffer_ok_def)
  from r [unfolded resolve_logical_adress_def] le0 l show ?thesis
  proof (cases rule: resolve_fromE)
    case (inside ps1 p ps2)
    show ?thesis
    proof (cases "off = 0")
      case True
      then show ?thesis using insert_between [of b ps1 "p # ps2"] inside l that by (auto simp: text_of_def)
    next
      case False
      have "length (piece_text b p) = pd_length p" using l inside(1) by simp
      then show ?thesis using insert_inside [of b ps1 p ps2 off] inside l False that by (auto simp: text_of_def)
    qed
  next
    case behind
    then show ?thesis using insert_between [of b "piece_table b" "[]"] l that by (auto simp: text_of_def)
  qed
qed

lemma resolve_appending: "resolve_from ps i start la True \<noteq> None"
  by (induction ps i start la True rule: resolve_from.induct) auto

text \<open>What an edit leaves in the two logs.\<close>

definition logged :: "undo_redo_operation \<Rightarrow> 'c edit_op \<Rightarrow> 'c text_buffer \<Rightarrow> 'c text_buffer \<Rightarrow> bool" where
  "logged m e b b' \<longleftrightarrow> file_buffer b' = file_buffer b \<and>
     tb_history b' = (if m = Undo then tb_history b else tb_history b @ [e]) \<and>
     tb_redo b' = (case m of Undo \<Rightarrow> tb_redo b @ [e] | Redo \<Rightarrow> tb_redo b | NoUndoRedo \<Rightarrow> [])"

lemma record_op_simps [simp]:
  "text_of (record_op m e b) = text_of b" "piece_table (record_op m e b) = piece_table b"
  "lenght (record_op m e b) = lenght b" "add_buffer (record_op m e b) = add_buffer b"
  "file_buffer (record_op m e b) = file_buffer b" "tb_pos (record_op m e b) = tb_pos b"
proof -
  have "piece_text (record_op m e b) = piece_text b"
    by (simp add: fun_eq_iff piece_text_def buffer_of_def record_op_def split: undo_redo_operation.split buffer_descr.split)
  then have "pieces_text (record_op m e b) ps = pieces_text b ps" for ps by (simp add: pieces_text_def)
  then show "text_of (record_op m e b) = text_of b"
    by (simp add: text_of_def) (simp add: record_op_def split: undo_redo_operation.split)
qed (simp_all add: record_op_def split: undo_redo_operation.split)

lemma record_op_ok [simp]: "buffer_ok (record_op m e b) \<longleftrightarrow> buffer_ok b"
proof -
  have "piece_ok (record_op m e b) = piece_ok b"
    by (auto simp: fun_eq_iff piece_ok_def buffer_of_def split: buffer_descr.split)
  then show ?thesis by (simp add: buffer_ok_def)
qed

lemma record_op_logged: "tb_history b = tb_history a \<Longrightarrow> tb_redo b = tb_redo a \<Longrightarrow> file_buffer b = file_buffer a \<Longrightarrow>
    logged m e a (record_op m e b)"
  by (cases m) (auto simp: logged_def record_op_def)

text \<open>The pieces depend on the buffers only.\<close>

lemma table_update_simps [simp]:
  "text_of (b\<lparr>piece_table := ps, lenght := n\<rparr>) = pieces_text b ps"
  "buffer_ok (b\<lparr>piece_table := ps, lenght := n\<rparr>) \<longleftrightarrow> list_all (piece_ok b) ps \<and> n = length (pieces_text b ps)"
proof -
  have t: "piece_text (b\<lparr>piece_table := ps, lenght := n\<rparr>) = piece_text b" "piece_ok (b\<lparr>piece_table := ps, lenght := n\<rparr>) = piece_ok b"
    by (auto simp: fun_eq_iff piece_text_def piece_ok_def buffer_of_def split: buffer_descr.split)
  then show x: "text_of (b\<lparr>piece_table := ps, lenght := n\<rparr>) = pieces_text b ps" by (simp add: text_of_def pieces_text_def)
  show "buffer_ok (b\<lparr>piece_table := ps, lenght := n\<rparr>) \<longleftrightarrow> list_all (piece_ok b) ps \<and> n = length (pieces_text b ps)"
    by (simp add: buffer_ok_def t x)
qed

lemma insert_with_ok:
  assumes ok: "buffer_ok b"
  obtains b' where "insert_with b la c m = Inr (Inr (), b')" "buffer_ok b'"
    "text_of b' = take la (text_of b) @ c # drop la (text_of b)" "logged m (Insert la c) b b'"
proof -
  obtain i off where r: "resolve_logical_adress b la True = Some (i, off)"
    using resolve_appending [of "piece_table b" 0 0 la] by (auto simp: resolve_logical_adress_def)
  obtain table where t: "insert_table (typed b c) i off = Inr table" "list_all (piece_ok (typed b c)) table"
    "pieces_text (typed b c) table = take la (text_of b) @ c # drop la (text_of b)"
    by (rule insert_at_address [OF ok r])
  let ?b = "(typed b c)\<lparr>piece_table := table, lenght := lenght b + 1\<rparr>"
  have "insert_with b la c m = Inr (Inr (), record_op m (Insert la c) ?b)"
    using r t(1) unfolding insert_with_def insert_table_def Let_def
    by (cases "can_enlarge (typed b c) i off") (auto split: if_splits)
  moreover have "lenght b = length (text_of b)" using ok by (simp add: buffer_ok_def)
  then have "buffer_ok ?b" using t(2,3) by (simp add: min_def)
  moreover have "logged m (Insert la c) b (record_op m (Insert la c) ?b)" by (rule record_op_logged) simp_all
  ultimately show ?thesis using t(3) by (intro that) simp_all
qed

lemma delete_at_piece:
  assumes ok: "list_all (piece_ok b) (ps1 @ p # ps2)" and t: "piece_table b = ps1 @ p # ps2" and off: "off < pd_length p"
  obtains table where "delete_piece b (length ps1) off = Inr table" "list_all (piece_ok b) table"
    "pieces_text b table = pieces_text b ps1 @ take off (piece_text b p) @ drop (off + 1) (piece_text b p) @ pieces_text b ps2"
proof -
  have p: "piece_ok b p" using ok by simp
  consider "off = 0" "pd_length p = 1" | "off = 0" "pd_length p > 1" | "off > 0" "pd_length p - 1 = off"
    | "off > 0" "off + 1 < pd_length p" using off by linarith
  then show ?thesis
  proof cases
    case 1
    have "length (piece_text b p) = 1" using p 1 by simp
    then have "delete_piece b (length ps1) off = Inr (ps1 @ ps2)" "drop 1 (piece_text b p) = []"
      using 1 by (simp_all add: delete_piece_def vec_index_def t nth_opt_def nth_append)
    then show ?thesis using ok 1 by (intro that) auto
  next
    case 2
    let ?q = "p\<lparr>pd_offset := pd_offset p + 1, pd_length := pd_length p - 1\<rparr>"
    have "piece_ok b ?q" "piece_text b ?q = drop 1 (piece_text b p)"
      using p 2 by (simp_all add: piece_ok_def piece_text_def drop_take)
    moreover have "delete_piece b (length ps1) off = Inr (ps1 @ ?q # ps2)"
      using 2 by (simp add: delete_piece_def vec_index_def t nth_opt_def nth_append)
    ultimately show ?thesis using ok 2 by (intro that) auto
  next
    case 3
    let ?q = "p\<lparr>pd_length := pd_length p - 1\<rparr>"
    have "piece_ok b ?q" "piece_text b ?q = take off (piece_text b p)" "drop (off + 1) (piece_text b p) = []"
      using p 3 by (auto simp: piece_ok_def piece_text_def min_def)
    moreover have "delete_piece b (length ps1) off = Inr (ps1 @ ?q # ps2)"
      using 3 by (simp add: delete_piece_def vec_index_def t nth_opt_def nth_append)
    ultimately show ?thesis using ok 3 by (intro that) auto
  next
    case 4
    let ?q = "p\<lparr>pd_length := off\<rparr>" and ?r = "piece_new (pd_buffer p) (pd_offset p + off + 1) (pd_length p - off - 1)"
    have "piece_ok b ?q" "piece_text b ?q = take off (piece_text b p)"
      using p 4 by (simp_all add: piece_ok_def piece_text_def min_def)
    moreover have "piece_ok b ?r" "piece_text b ?r = drop (off + 1) (piece_text b p)"
      using p 4 by (simp_all add: piece_ok_def piece_text_def piece_new_def drop_take add.commute add.left_commute)
    moreover have "delete_piece b (length ps1) off = Inr (ps1 @ ?q # ?r # ps2)"
      using 4 by (simp add: delete_piece_def vec_index_def vec_insert_def t nth_opt_def nth_append)
    ultimately show ?thesis using ok by (intro that) auto
  qed
qed

lemma delete_with_ok:
  assumes ok: "buffer_ok b" and la: "la < length (text_of b)"
  obtains b' where "delete_with b la m = Inr (Inr (), b')" "buffer_ok b'"
    "text_of b' = take la (text_of b) @ drop (la + 1) (text_of b)" "logged m (Delete la (text_of b ! la)) b b'"
proof -
  have g: "get_char b la = Some (text_of b ! la)" using get_char_text [OF ok] la by (simp add: nth_opt_def)
  have l: "list_all (piece_ok b) (piece_table b)" using ok by (simp add: buffer_ok_def)
  obtain i off where r: "resolve_logical_adress b la False = Some (i, off)"
    using g by (auto simp: get_char_def split: option.splits)
  from r [unfolded resolve_logical_adress_def] le0 l show ?thesis
  proof (cases rule: resolve_fromE)
    case (inside ps1 p ps2)
    have lp: "length (piece_text b p) = pd_length p" using l inside(1) by simp
    obtain table where t: "delete_piece b i off = Inr table" "list_all (piece_ok b) table"
      "pieces_text b table = pieces_text b ps1 @ take off (piece_text b p) @ drop (off + 1) (piece_text b p) @ pieces_text b ps2"
      using delete_at_piece [of b ps1 p ps2 off] l inside by auto
    have x: "pieces_text b table = take la (text_of b) @ drop (la + 1) (text_of b)"
      using t(3) inside lp by (simp add: text_of_def)
    let ?b = "b\<lparr>piece_table := table, lenght := lenght b - 1\<rparr>"
    have n: "lenght b \<noteq> 0" using ok la by (auto simp: buffer_ok_def)
    then have "delete_with b la m = Inr (Inr (), record_op m (Delete la (text_of b ! la)) ?b)"
      using r g t(1) by (simp add: delete_with_def)
    moreover have "lenght b = length (text_of b)" using ok by (simp add: buffer_ok_def)
    then have "buffer_ok ?b" using t(2) la by (simp add: x)
    moreover have "logged m (Delete la (text_of b ! la)) b (record_op m (Delete la (text_of b ! la)) ?b)"
      by (rule record_op_logged) simp_all
    ultimately show ?thesis using x by (intro that) simp_all
  qed simp
qed

lemma delete_with_error:
  assumes ok: "buffer_ok b" and la: "length (text_of b) \<le> la"
  shows "delete_with b la m = Inr (Inl AddressOutOfBounds, b)"
proof -
  have "get_char b la = None" using get_char_text [OF ok] la by (simp add: nth_opt_def)
  then show ?thesis by (simp add: delete_with_def split: option.split)
qed

lemma from_str_ok: "buffer_ok (from_str s)" "text_of (from_str s) = s"
  by (simp_all add: buffer_ok_def text_of_def from_str_def piece_ok_def piece_text_def piece_new_def buffer_of_def)

lemma to_string_text:
  assumes "buffer_ok b"
  shows "to_string b = text_of b"
proof -
  have "to_string_from b i = drop i (text_of b)" for i
    by (induction "length (text_of b) - i" arbitrary: i)
      (simp_all add: to_string_from.simps get_char_text [OF assms] nth_opt_def Cons_nth_drop_Suc)
  then show ?thesis by (simp add: to_string_def)
qed

section \<open>Undo and redo\<close>

text \<open>Recorded edits as partial functions on texts, and their inverses.\<close>

fun apply_op :: "'c edit_op \<Rightarrow> 'c list \<Rightarrow> 'c list option" where
  "apply_op (Insert la c) t = (if la \<le> length t then Some (take la t @ c # drop la t) else None)"
| "apply_op (Delete la c) t = (if la < length t \<and> t ! la = c then Some (take la t @ drop (la + 1) t) else None)"

fun inverse_op :: "'c edit_op \<Rightarrow> 'c edit_op" where
  "inverse_op (Insert la c) = Delete la c"
| "inverse_op (Delete la c) = Insert la c"

fun replay :: "'c edit_op list \<Rightarrow> 'c list \<Rightarrow> 'c list option" where
  "replay [] t = Some t"
| "replay (e # es) t = Option.bind (apply_op e t) (replay es)"

lemma apply_inverse: "apply_op e t = Some t' \<Longrightarrow> apply_op (inverse_op e) t' = Some t"
  by (cases e) (auto simp: nth_append Cons_nth_drop_Suc split: if_splits)

lemma inverse_inverse [simp]: "inverse_op (inverse_op e) = e"
  by (cases e) auto

lemma replay_append: "replay (es @ fs) t = Option.bind (replay es t) (replay fs)"
  by (induction es arbitrary: t) (auto split: Option.bind_split)

text \<open>The contract of an editor: every recorded edit can be taken back, and taken up again.\<close>

locale editor =
  fixes content :: "'b \<Rightarrow> 'c list" and ok :: "'b \<Rightarrow> bool" and origin :: "'b \<Rightarrow> 'c list"
    and past :: "'b \<Rightarrow> 'c edit_op list" and future :: "'b \<Rightarrow> 'c edit_op list"
    and edit :: "'b \<Rightarrow> 'c edit_op \<Rightarrow> ((text_buffer_error + unit) \<times> 'b) run"
    and un :: "'b \<Rightarrow> ((text_buffer_error + unit) \<times> 'b) run"
    and re :: "'b \<Rightarrow> ((text_buffer_error + unit) \<times> 'b) run"
  assumes edit: "ok b \<Longrightarrow> apply_op e (content b) = Some t \<Longrightarrow> \<exists>b'. edit b e = Inr (Inr (), b') \<and> ok b' \<and> content b' = t \<and>
      origin b' = origin b \<and> past b' = past b @ [e] \<and> future b' = []"
    and un: "ok b \<Longrightarrow> past b = h @ [e] \<Longrightarrow> apply_op (inverse_op e) (content b) = Some t \<Longrightarrow> \<exists>b'. un b = Inr (Inr (), b') \<and> ok b' \<and>
      content b' = t \<and> origin b' = origin b \<and> past b' = h \<and> future b' = future b @ [inverse_op e]"
    and re: "ok b \<Longrightarrow> future b = r @ [e] \<Longrightarrow> apply_op (inverse_op e) (content b) = Some t \<Longrightarrow> \<exists>b'. re b = Inr (Inr (), b') \<and> ok b' \<and>
      content b' = t \<and> origin b' = origin b \<and> past b' = past b @ [inverse_op e] \<and> future b' = r"
begin

text \<open>The text is what the recorded edits make of the original, and the undone edits still apply.\<close>

definition consistent :: "'b \<Rightarrow> bool" where
  "consistent b \<longleftrightarrow> ok b \<and> replay (past b) (origin b) = Some (content b) \<and>
     replay (map inverse_op (rev (future b))) (content b) \<noteq> None"

lemma edit_consistent:
  assumes "consistent b" and "apply_op e (content b) = Some t"
  obtains b' where "edit b e = Inr (Inr (), b')" "consistent b'" "content b' = t" "origin b' = origin b"
proof -
  obtain b' where "edit b e = Inr (Inr (), b')" "ok b'" "content b' = t" "origin b' = origin b" "past b' = past b @ [e]" "future b' = []"
    using edit [OF _ assms(2)] assms(1) unfolding consistent_def by blast
  then show ?thesis using assms by (intro that [of b']) (simp_all add: consistent_def replay_append)
qed

lemma undo_step:
  assumes b: "consistent b" and h: "past b = h @ [e]"
  obtains b' where "un b = Inr (Inr (), b')" "consistent b'" "origin b' = origin b" "past b' = h"
    "future b' = future b @ [inverse_op e]"
proof -
  obtain t where t: "replay h (origin b) = Some t" "apply_op e t = Some (content b)"
    using b h by (auto simp: consistent_def replay_append bind_eq_Some_conv)
  have i: "apply_op (inverse_op e) (content b) = Some t" by (rule apply_inverse [OF t(2)])
  obtain b' where "un b = Inr (Inr (), b')" "ok b'" "content b' = t" "origin b' = origin b" "past b' = h"
    "future b' = future b @ [inverse_op e]"
    using un [OF _ h i] b unfolding consistent_def by blast
  then show ?thesis using b t by (intro that [of b']) (simp_all add: consistent_def)
qed

lemma redo_step:
  assumes b: "consistent b" and r: "future b = r @ [e]"
  obtains b' where "re b = Inr (Inr (), b')" "consistent b'" "origin b' = origin b" "past b' = past b @ [inverse_op e]"
    "future b' = r"
proof -
  obtain t where t: "apply_op (inverse_op e) (content b) = Some t" "replay (map inverse_op (rev r)) t \<noteq> None"
    using b r by (auto simp: consistent_def bind_eq_Some_conv)
  obtain b' where "re b = Inr (Inr (), b')" "ok b'" "content b' = t" "origin b' = origin b" "past b' = past b @ [inverse_op e]"
    "future b' = r"
    using re [OF _ r t(1)] b unfolding consistent_def by blast
  then show ?thesis using b t by (intro that [of b']) (simp_all add: consistent_def replay_append)
qed

end

text \<open>A number of calls that all succeed.\<close>

fun repeat_edit :: "nat \<Rightarrow> ('b \<Rightarrow> ((text_buffer_error + unit) \<times> 'b) run) \<Rightarrow> 'b \<Rightarrow> 'b option" where
  "repeat_edit 0 f b = Some b"
| "repeat_edit (Suc k) f b = (case f b of Inr (Inr u, b') \<Rightarrow> repeat_edit k f b' | _ \<Rightarrow> None)"

context editor
begin

lemma undo_times:
  "consistent b \<Longrightarrow> past b = h @ es \<Longrightarrow> \<exists>b'. repeat_edit (length es) un b = Some b' \<and> consistent b' \<and> origin b' = origin b \<and>
     past b' = h \<and> future b' = future b @ rev (map inverse_op es)"
proof (induction es arbitrary: b rule: rev_induct)
  case (snoc e es)
  have p: "past b = (h @ es) @ [e]" using snoc.prems by simp
  obtain b1 where b1: "un b = Inr (Inr (), b1)" "consistent b1" "origin b1 = origin b" "past b1 = h @ es"
    "future b1 = future b @ [inverse_op e]" by (rule undo_step [OF snoc.prems(1) p])
  obtain b2 where b2: "repeat_edit (length es) un b1 = Some b2" "consistent b2" "origin b2 = origin b1" "past b2 = h"
    "future b2 = future b1 @ rev (map inverse_op es)" using snoc.IH [OF b1(2,4)] by blast
  show ?case by (rule exI [of _ b2]) (simp add: b1(1,3,5) b2)
qed simp

lemma redo_times:
  "consistent b \<Longrightarrow> future b = r @ rev es \<Longrightarrow> \<exists>b'. repeat_edit (length es) re b = Some b' \<and> consistent b' \<and> origin b' = origin b \<and>
     past b' = past b @ map inverse_op es \<and> future b' = r"
proof (induction es arbitrary: b)
  case (Cons e es)
  have p: "future b = (r @ rev es) @ [e]" using Cons.prems by simp
  obtain b1 where b1: "re b = Inr (Inr (), b1)" "consistent b1" "origin b1 = origin b" "past b1 = past b @ [inverse_op e]"
    "future b1 = r @ rev es" by (rule redo_step [OF Cons.prems(1) p])
  obtain b2 where b2: "repeat_edit (length es) re b1 = Some b2" "consistent b2" "origin b2 = origin b1"
    "past b2 = past b1 @ map inverse_op es" "future b2 = r" using Cons.IH [OF b1(2,5)] by blast
  show ?case by (rule exI [of _ b2]) (simp add: b1(1,3,4) b2)
qed simp

lemma undo_redo_times:
  assumes b: "consistent b" and k: "k \<le> length (past b)"
  obtains b1 b2 where "repeat_edit k un b = Some b1" "repeat_edit k re b1 = Some b2" "consistent b1" "consistent b2"
    "replay (take (length (past b) - k) (past b)) (origin b) = Some (content b1)" "content b2 = content b"
proof -
  let ?h = "take (length (past b) - k) (past b)" and ?es = "drop (length (past b) - k) (past b)"
  obtain b1 where b1: "repeat_edit k un b = Some b1" "consistent b1" "origin b1 = origin b" "past b1 = ?h"
    "future b1 = future b @ rev (map inverse_op ?es)"
    using undo_times [OF b, of ?h ?es] k by (simp del: rev_map) blast
  obtain b2 where b2: "repeat_edit k re b1 = Some b2" "consistent b2" "origin b2 = origin b1" "past b2 = ?h @ ?es"
    using redo_times [OF b1(2), of "future b" "map inverse_op ?es"] b1(4,5) k by (simp add: comp_def) blast
  have "replay ?h (origin b) = Some (content b1)" using b1 by (simp add: consistent_def)
  moreover have "content b2 = content b" using b b2 b1(3) by (simp add: consistent_def)
  ultimately show ?thesis using that b1(1,2) b2(1,2) by blast
qed

end

section \<open>The piece table is an editor\<close>

definition edit_with :: "'c text_buffer \<Rightarrow> 'c edit_op \<Rightarrow> 'c edit" where
  "edit_with b e = (case e of Insert la c \<Rightarrow> insert_char b la c | Delete la c \<Rightarrow> delete_char b la)"

text \<open>The logs do not belong to the text.\<close>

lemma logs_update_simps [simp]:
  "text_of (b\<lparr>tb_history := h\<rparr>) = text_of b" "buffer_ok (b\<lparr>tb_history := h\<rparr>) \<longleftrightarrow> buffer_ok b"
  "text_of (b\<lparr>tb_redo := h\<rparr>) = text_of b" "buffer_ok (b\<lparr>tb_redo := h\<rparr>) \<longleftrightarrow> buffer_ok b"
  "text_of (b\<lparr>tb_pos := n\<rparr>) = text_of b" "buffer_ok (b\<lparr>tb_pos := n\<rparr>) \<longleftrightarrow> buffer_ok b"
proof -
  have p: "piece_text (b\<lparr>tb_history := h\<rparr>) = piece_text b" "piece_ok (b\<lparr>tb_history := h\<rparr>) = piece_ok b"
    "piece_text (b\<lparr>tb_redo := h\<rparr>) = piece_text b" "piece_ok (b\<lparr>tb_redo := h\<rparr>) = piece_ok b"
    "piece_text (b\<lparr>tb_pos := n\<rparr>) = piece_text b" "piece_ok (b\<lparr>tb_pos := n\<rparr>) = piece_ok b"
    by (auto simp: fun_eq_iff piece_text_def piece_ok_def buffer_of_def split: buffer_descr.split)
  show t: "text_of (b\<lparr>tb_history := h\<rparr>) = text_of b" "text_of (b\<lparr>tb_redo := h\<rparr>) = text_of b"
    "text_of (b\<lparr>tb_pos := n\<rparr>) = text_of b"
    by (simp_all add: text_of_def pieces_text_def p)
  show "buffer_ok (b\<lparr>tb_history := h\<rparr>) \<longleftrightarrow> buffer_ok b" "buffer_ok (b\<lparr>tb_redo := h\<rparr>) \<longleftrightarrow> buffer_ok b"
    "buffer_ok (b\<lparr>tb_pos := n\<rparr>) \<longleftrightarrow> buffer_ok b"
    by (simp_all add: buffer_ok_def t p)
qed

text \<open>One operation in one of the three modes.\<close>

definition op_with :: "'c text_buffer \<Rightarrow> 'c edit_op \<Rightarrow> undo_redo_operation \<Rightarrow> 'c edit" where
  "op_with b e m = (case e of Insert la c \<Rightarrow> insert_with b la c m | Delete la c \<Rightarrow> delete_with b la m)"

lemma op_with_ok:
  assumes "buffer_ok b" and "apply_op e (text_of b) = Some t"
  obtains b' where "op_with b e m = Inr (Inr (), b')" "buffer_ok b'" "text_of b' = t" "logged m e b b'"
proof (cases e)
  case (Insert la c)
  then show ?thesis using insert_with_ok [OF assms(1), of la c m] assms(2) that
    by (auto simp: op_with_def split: if_splits)
next
  case (Delete la c)
  then have la: "la < length (text_of b)" and t: "t = take la (text_of b) @ drop (la + 1) (text_of b)" "text_of b ! la = c"
    using assms(2) by (auto split: if_splits)
  show ?thesis using delete_with_ok [OF assms(1) la, of m] t that Delete by (auto simp: op_with_def)
qed

lemma undo_op: "tb_history b = h @ [e] \<Longrightarrow> undo b = op_with (b\<lparr>tb_history := h\<rparr>) (inverse_op e) Undo"
  by (cases e) (simp_all add: undo_def vec_pop_def op_with_def)

lemma redo_op: "tb_redo b = r @ [e] \<Longrightarrow> redo b = op_with (b\<lparr>tb_redo := r\<rparr>) (inverse_op e) Redo"
  by (cases e) (simp_all add: redo_def vec_pop_def op_with_def)

lemma edit_op: "edit_with b e = op_with b e NoUndoRedo"
  by (cases e) (simp_all add: edit_with_def op_with_def insert_char_def delete_char_def)

interpretation tb: editor text_of buffer_ok file_buffer tb_history tb_redo edit_with undo redo
proof
  fix b :: "'c text_buffer" and e h t
  assume ok: "buffer_ok b"
  show "\<exists>b'. edit_with b e = Inr (Inr (), b') \<and> buffer_ok b' \<and> text_of b' = t \<and> file_buffer b' = file_buffer b \<and>
      tb_history b' = tb_history b @ [e] \<and> tb_redo b' = []" if a: "apply_op e (text_of b) = Some t"
    by (rule op_with_ok [OF ok a, of NoUndoRedo]) (auto simp: edit_op logged_def)
  assume a: "apply_op (inverse_op e) (text_of b) = Some t"
  show "\<exists>b'. undo b = Inr (Inr (), b') \<and> buffer_ok b' \<and> text_of b' = t \<and> file_buffer b' = file_buffer b \<and>
      tb_history b' = h \<and> tb_redo b' = tb_redo b @ [inverse_op e]" if p: "tb_history b = h @ [e]"
    by (rule op_with_ok [of "b\<lparr>tb_history := h\<rparr>" "inverse_op e" t Undo]) (use ok a undo_op [OF p] in \<open>auto simp: logged_def\<close>)
  show "\<exists>b'. redo b = Inr (Inr (), b') \<and> buffer_ok b' \<and> text_of b' = t \<and> file_buffer b' = file_buffer b \<and>
      tb_history b' = tb_history b @ [inverse_op e] \<and> tb_redo b' = h" if p: "tb_redo b = h @ [e]"
    by (rule op_with_ok [of "b\<lparr>tb_redo := h\<rparr>" "inverse_op e" t Redo]) (use ok a redo_op [OF p] in \<open>auto simp: logged_def\<close>)
qed

text \<open>The buffers a client can get, with insertions anywhere or only at addresses up to the end.\<close>

inductive edit_reach :: "bool \<Rightarrow> 'c list \<Rightarrow> 'c text_buffer \<Rightarrow> bool" for strict s where
  load: "edit_reach strict s (from_str s)"
| insert: "edit_reach strict s b \<Longrightarrow> strict \<longrightarrow> la \<le> lenght b \<Longrightarrow> insert_char b la c = Inr (r, b') \<Longrightarrow> edit_reach strict s b'"
| delete: "edit_reach strict s b \<Longrightarrow> delete_char b la = Inr (r, b') \<Longrightarrow> edit_reach strict s b'"
| undo: "edit_reach strict s b \<Longrightarrow> undo b = Inr (r, b') \<Longrightarrow> edit_reach strict s b'"
| redo: "edit_reach strict s b \<Longrightarrow> redo b = Inr (r, b') \<Longrightarrow> edit_reach strict s b'"
| advance: "edit_reach strict s b \<Longrightarrow> next_char b = (r, b') \<Longrightarrow> edit_reach strict s b'"

lemma insert_keeps_ok: "buffer_ok b \<Longrightarrow> insert_with b la c m = Inr (r, b') \<Longrightarrow> buffer_ok b'"
  by (rule insert_with_ok [of b la c m]) auto

lemma delete_keeps_ok: "buffer_ok b \<Longrightarrow> delete_with b la m = Inr (r, b') \<Longrightarrow> buffer_ok b'"
  by (cases "la < length (text_of b)")
    (auto simp: delete_with_error elim: delete_with_ok [of b la m])

lemma undo_keeps_ok: "buffer_ok b \<Longrightarrow> undo b = Inr (r, b') \<Longrightarrow> buffer_ok b'"
  unfolding undo_def
  by (auto split: option.splits edit_op.splits elim!: insert_keeps_ok [rotated] delete_keeps_ok [rotated])

lemma redo_keeps_ok: "buffer_ok b \<Longrightarrow> redo b = Inr (r, b') \<Longrightarrow> buffer_ok b'"
  unfolding redo_def
  by (auto split: option.splits edit_op.splits elim!: insert_keeps_ok [rotated] delete_keeps_ok [rotated])

lemma edit_reach_ok: "edit_reach strict s b \<Longrightarrow> buffer_ok b"
  by (induction rule: edit_reach.induct)
    (auto simp: from_str_ok insert_char_def delete_char_def next_char_def split: if_splits
      intro: insert_keeps_ok delete_keeps_ok undo_keeps_ok redo_keeps_ok)

lemma consistent_insert:
  assumes b: "tb.consistent b" and la: "la \<le> length (text_of b)" and i: "insert_char b la c = Inr (r, b')"
  shows "tb.consistent b' \<and> file_buffer b' = file_buffer b"
  by (rule tb.edit_consistent [OF b, of "Insert la c"]) (use la i in \<open>auto simp: edit_with_def\<close>)

lemma consistent_delete:
  assumes b: "tb.consistent b" and i: "delete_char b la = Inr (r, b')"
  shows "tb.consistent b' \<and> file_buffer b' = file_buffer b"
proof (cases "la < length (text_of b)")
  case True
  show ?thesis by (rule tb.edit_consistent [OF b, of "Delete la (text_of b ! la)"]) (use True i in \<open>auto simp: edit_with_def\<close>)
next
  case False
  have "buffer_ok b" using b by (simp add: tb.consistent_def)
  with False i b show ?thesis by (simp add: delete_char_def delete_with_error)
qed

lemma consistent_undo:
  assumes b: "tb.consistent b" and i: "undo b = Inr (r, b')"
  shows "tb.consistent b' \<and> file_buffer b' = file_buffer b"
proof (cases "tb_history b" rule: rev_cases)
  case Nil
  with i b show ?thesis by (simp add: undo_def vec_pop_def)
next
  case (snoc h e)
  show ?thesis by (rule tb.undo_step [OF b snoc]) (use i in auto)
qed

lemma consistent_redo:
  assumes b: "tb.consistent b" and i: "redo b = Inr (r, b')"
  shows "tb.consistent b' \<and> file_buffer b' = file_buffer b"
proof (cases "tb_redo b" rule: rev_cases)
  case Nil
  with i b show ?thesis by (simp add: redo_def vec_pop_def)
next
  case (snoc h e)
  show ?thesis by (rule tb.redo_step [OF b snoc]) (use i in auto)
qed

lemma edit_reach_consistent: "edit_reach True s b \<Longrightarrow> tb.consistent b \<and> file_buffer b = s"
proof (induction rule: edit_reach.induct)
  case load
  show ?case by (simp add: tb.consistent_def from_str_ok) (simp add: from_str_def)
next
  case (insert b la c r b')
  moreover have "buffer_ok b" using insert.IH by (simp add: tb.consistent_def)
  then have "lenght b = length (text_of b)" by (simp add: buffer_ok_def)
  ultimately show ?case using consistent_insert [of b la c r b'] by simp
next
  case (advance b r b')
  then show ?case by (auto simp: next_char_def tb.consistent_def split: if_splits)
qed (auto dest: consistent_delete consistent_undo consistent_redo)

text \<open>
  C29. The piece table is a text: for every buffer that loading and editing can produce, reading
  gives the characters of one list, an insertion (behind the end too) and a deletion change that
  list at the address and nowhere else, a deletion outside it is refused and changes nothing, and
  no call panics.
\<close>

theorem piece_table_refines:
  assumes "edit_reach strict s b"
  shows "lenght b = length (to_string b) \<and> get_char b la = nth_opt (to_string b) la \<and>
    (\<exists>b'. insert_char b la c = Inr (Inr (), b') \<and> to_string b' = take la (to_string b) @ c # drop la (to_string b)) \<and>
    (if la < length (to_string b)
     then \<exists>b'. delete_char b la = Inr (Inr (), b') \<and> to_string b' = take la (to_string b) @ drop (la + 1) (to_string b)
     else delete_char b la = Inr (Inl AddressOutOfBounds, b))"
proof -
  have ok: "buffer_ok b" by (rule edit_reach_ok [OF assms])
  obtain b1 where "insert_char b la c = Inr (Inr (), b1)" "buffer_ok b1" "text_of b1 = take la (text_of b) @ c # drop la (text_of b)"
    using insert_with_ok [OF ok, of la c NoUndoRedo] unfolding insert_char_def by blast
  moreover have "\<exists>b'. delete_char b la = Inr (Inr (), b') \<and> to_string b' = take la (text_of b) @ drop (la + 1) (text_of b)"
    if "la < length (text_of b)"
    using delete_with_ok [OF ok that, of NoUndoRedo] to_string_text unfolding delete_char_def by metis
  moreover have "lenght b = length (text_of b)" using ok by (simp add: buffer_ok_def)
  ultimately show ?thesis
    using get_char_text [OF ok, of la] delete_with_error [OF ok, of la NoUndoRedo] ok
    by (simp add: to_string_text delete_char_def)
qed

definition typed_word :: "char text_buffer" where
  "typed_word = \<lparr>file_buffer = ''ac'', add_buffer = ''b'', piece_table = [piece_new File 0 1, piece_new Add 0 1, piece_new File 1 1],
     lenght = 3, tb_pos = 0, tb_history = [Insert 1 (CHR ''b'')], tb_redo = []\<rparr>"

lemma typed_word_reach: "edit_reach True ''ac'' typed_word"
proof (rule edit_reach.insert [OF edit_reach.load])
  show "insert_char (from_str ''ac'') 1 (CHR ''b'') = Inr (Inr (), typed_word)"
    by (simp add: insert_char_def insert_with_def from_str_def resolve_logical_adress_def piece_new_def can_enlarge_def
      insert_piece_def vec_index_def vec_insert_def record_op_def typed_word_def Let_def)
qed (simp add: from_str_def)

theorem piece_table_refines_witness:
  "get_char typed_word 1 = nth_opt (to_string typed_word) 1 \<and> delete_char typed_word 7 = Inr (Inl AddressOutOfBounds, typed_word)"
proof -
  have s: "to_string typed_word = ''abc''"
    unfolding to_string_text [OF edit_reach_ok [OF typed_word_reach]]
    by (simp add: text_of_def typed_word_def piece_text_def piece_new_def buffer_of_def)
  show ?thesis using piece_table_refines [OF typed_word_reach, of 1] piece_table_refines [OF typed_word_reach, of 7] s by simp
qed

text \<open>
  C30. Undo and redo are inverse: after any edits at addresses of the text, undos and redos, taking
  back the last \<open>k\<close> recorded edits gives the text that the earlier ones make of the file as it was
  loaded (the file itself when all are taken back), and redoing them gives the text again.
\<close>

theorem undo_redo_inverse:
  assumes "edit_reach True s b" and "k \<le> length (tb_history b)"
  shows "\<exists>b1 b2. repeat_edit k undo b = Some b1 \<and> repeat_edit k redo b1 = Some b2 \<and> to_string b2 = to_string b \<and>
    replay (take (length (tb_history b) - k) (tb_history b)) s = Some (to_string b1)"
proof -
  have c: "tb.consistent b" and f: "file_buffer b = s" using edit_reach_consistent [OF assms(1)] by auto
  obtain b1 b2 where b: "repeat_edit k undo b = Some b1" "repeat_edit k redo b1 = Some b2" "tb.consistent b1" "tb.consistent b2"
    "replay (take (length (tb_history b) - k) (tb_history b)) s = Some (text_of b1)" "text_of b2 = text_of b"
    using tb.undo_redo_times [OF c assms(2)] f by blast
  have "buffer_ok b" "buffer_ok b1" "buffer_ok b2" using c b(3,4) by (auto simp: tb.consistent_def)
  with b show ?thesis by (auto simp: to_string_text)
qed

theorem undo_redo_inverse_witness:
  "\<exists>b1 b2. repeat_edit 1 undo typed_word = Some b1 \<and> repeat_edit 1 redo b1 = Some b2 \<and> to_string b2 = to_string typed_word \<and>
    to_string b1 = ''ac''"
proof -
  have h: "tb_history typed_word = [Insert 1 (CHR ''b'')]" by (simp add: typed_word_def)
  obtain b1 b2 where "repeat_edit 1 undo typed_word = Some b1" "repeat_edit 1 redo b1 = Some b2"
    "to_string b2 = to_string typed_word" "replay (take (length (tb_history typed_word) - 1) (tb_history typed_word)) ''ac'' = Some (to_string b1)"
    using undo_redo_inverse [OF typed_word_reach, of 1] h by auto
  then show ?thesis using h by auto
qed

text \<open>
  An insertion behind the end appends, but its record keeps the address of the call: it cannot be
  taken back.
\<close>

lemma undo_behind_end_fails:
  assumes "buffer_ok b" and "length (text_of b) < la"
  obtains b' where "insert_char b la c = Inr (Inr (), b')" "undo b' = Inr (Inl AddressOutOfBounds, b'\<lparr>tb_history := tb_history b\<rparr>)"
proof -
  obtain b' where b': "insert_char b la c = Inr (Inr (), b')" "buffer_ok b'" "text_of b' = text_of b @ [c]"
    "tb_history b' = tb_history b @ [Insert la c]"
    using insert_with_ok [OF assms(1), of la c NoUndoRedo] assms(2) by (auto simp: insert_char_def logged_def)
  then have "undo b' = Inr (Inl AddressOutOfBounds, b'\<lparr>tb_history := tb_history b\<rparr>)"
    using undo_op [OF b'(4)] delete_with_error [of "b'\<lparr>tb_history := tb_history b\<rparr>" la Undo] assms(2)
    by (simp add: op_with_def)
  then show ?thesis by (rule that [OF b'(1)])
qed

end
