(* ===== verification/Naming.thy ===== *)
theory Naming
  imports Dram Pipe BTree "HOL-Library.Char_ord" "HOL-Library.List_Lexorder"
begin

text \<open>
  The naming service (\<open>kernel/src/naming\<close>): the temporary file system in main memory (\<open>tmpfs.rs\<close>),
  the file system with the state of the kernel (\<open>procfs.rs\<close>), mount points, path lookup, the table
  of opened objects and the public interface (\<open>api.rs\<close>).

  The objects that the source shares by reference counting are entries of lists here, and a
  reference is an index. A call that reaches a pipe gives the pipe and the call: what follows are
  the steps of theory \<open>Pipe\<close>. Processes, time and the size of memory are read when a call of the
  process file system needs them; they are an argument.
\<close>

unbundle bit_operations_syntax

section \<open>Metadata\<close>

definition MODE_FILE :: "32 word" where "MODE_FILE = 1"
definition MODE_DIR :: "32 word" where "MODE_DIR = 2"
definition MODE_LINK :: "32 word" where "MODE_LINK = 3"

record stat =
  st_mode :: "32 word"
  st_size :: nat
  st_created_time :: "64 word"
  st_modified_time :: "64 word"
  st_accessed_time :: "64 word"

definition stat_new :: "32 word \<Rightarrow> nat \<Rightarrow> stat" where
  "stat_new mode sz = \<lparr>st_mode = mode, st_size = sz, st_created_time = 0, st_modified_time = 0, st_accessed_time = 0\<rparr>"

definition stat_zeroed :: stat where
  "stat_zeroed = \<lparr>st_mode = MODE_FILE, st_size = 0, st_created_time = 0, st_modified_time = 0, st_accessed_time = 0\<rparr>"

definition mode_is_directory :: "32 word \<Rightarrow> bool" where
  "mode_is_directory m \<longleftrightarrow> m AND MODE_DIR = MODE_DIR"

definition mode_is_file :: "32 word \<Rightarrow> bool" where
  "mode_is_file m \<longleftrightarrow> m AND MODE_FILE = MODE_FILE"

definition mode_is_link :: "32 word \<Rightarrow> bool" where
  "mode_is_link m \<longleftrightarrow> m AND MODE_LINK = MODE_LINK"

datatype file_type = NamedPipe | Directory | Regular | Link

fun file_type_code :: "file_type \<Rightarrow> nat" where
  "file_type_code NamedPipe = 1"
| "file_type_code Directory = 4"
| "file_type_code Regular = 8"
| "file_type_code Link = 16"

record dir_entry =
  de_file_type :: file_type
  de_name :: string

section \<open>Objects\<close>

text \<open>Files, pipes and directories of both file systems, as references.\<close>

datatype file_object =
    TmpFile nat | StaticFile "byte list" | ProcStatusFile uuid | ProcPsFile | ProcTicksFile | ProcMemInfoFile

datatype directory_object = TmpDir nat | ProcDir | ProcPidDir uuid

datatype named_object = FileObject file_object | PipeObject nat | DirectoryObject directory_object

definition as_file :: "named_object \<Rightarrow> errno + file_object" where
  "as_file obj = (case obj of FileObject f \<Rightarrow> Inr f | _ \<Rightarrow> Inl EBADF)"

definition as_pipe :: "named_object \<Rightarrow> errno + nat" where
  "as_pipe obj = (case obj of PipeObject p \<Rightarrow> Inr p | _ \<Rightarrow> Inl EBADF)"

definition as_dir :: "named_object \<Rightarrow> errno + directory_object" where
  "as_dir obj = (case obj of DirectoryObject d \<Rightarrow> Inr d | _ \<Rightarrow> Inl EBADF)"

definition is_file :: "named_object \<Rightarrow> bool" where
  "is_file obj = (case obj of FileObject _ \<Rightarrow> True | _ \<Rightarrow> False)"

definition is_pipe :: "named_object \<Rightarrow> bool" where
  "is_pipe obj = (case obj of PipeObject _ \<Rightarrow> True | _ \<Rightarrow> False)"

definition is_dir :: "named_object \<Rightarrow> bool" where
  "is_dir obj = (case obj of DirectoryObject _ \<Rightarrow> True | _ \<Rightarrow> False)"

datatype tmpfs_inode = InFile file_object | InPipe nat | InDirectory nat

record dir_inner =
  dir_files :: "(string \<times> tmpfs_inode) list"
  dir_stat :: stat

record tmp_file =
  file_data :: "byte list"
  file_stat :: stat

definition dir_new :: dir_inner where
  "dir_new = \<lparr>dir_files = [], dir_stat = stat_zeroed\<lparr>st_mode := 0\<rparr>\<rparr>"

definition file_new :: tmp_file where
  "file_new = \<lparr>file_data = [], file_stat = stat_zeroed\<lparr>st_mode := 0\<rparr>\<rparr>"

definition static_stat :: "byte list \<Rightarrow> stat" where
  "static_stat data = stat_zeroed\<lparr>st_size := length data\<rparr>"

record opened_object =
  oo_object :: named_object
  oo_pos :: nat
  oo_options :: open_options

text \<open>The state of the naming service; the root directory is the first directory.\<close>

record 'q naming =
  ns_dirs :: "dir_inner list"
  ns_files :: "tmp_file list"
  ns_pipes :: "'q pipe list"
  ns_mounts :: "(string, directory_object) btree"
  ns_open_handles :: "(nat \<times> opened_object option) list"
  ns_free_handles :: "nat list"
  ns_cwd :: string

text \<open>The mount table.\<close>

definition mount :: "(string, directory_object) btree \<Rightarrow> string \<Rightarrow> directory_object \<Rightarrow> (string, directory_object) btree" where
  [simp]: "mount m path root = bt_insert m path root"

definition mount_get :: "(string, directory_object) btree \<Rightarrow> string \<Rightarrow> directory_object option" where
  [simp]: "mount_get m path = bt_get m path"

definition inode_object :: "tmpfs_inode \<Rightarrow> named_object" where
  "inode_object i = (case i of InFile f \<Rightarrow> FileObject f | InPipe p \<Rightarrow> PipeObject p | InDirectory d \<Rightarrow> DirectoryObject (TmpDir d))"

definition inode_type :: "tmpfs_inode \<Rightarrow> file_type" where
  "inode_type i = (case i of InDirectory _ \<Rightarrow> Directory | InFile _ \<Rightarrow> Regular | InPipe _ \<Rightarrow> NamedPipe)"

section \<open>What the kernel tells\<close>

record process =
  p_id :: uuid
  p_name :: string
  p_utime :: "64 word"
  p_stime :: "64 word"
  p_rss_user_pages :: "64 word"

record proc_stat =
  ps_pid :: uuid
  ps_name :: string
  ps_utime :: "64 word"
  ps_stime :: "64 word"
  ps_total_cpu_time :: nat
  ps_rss_user_pages :: "64 word"

text \<open>
  The active processes, the clock, the limit of memory, and the text form of process ids, which
  belongs to another package.
\<close>

record proc_env =
  active_processes :: "process list"
  now_ticks :: nat
  dram_limit :: nat
  parse_uuid :: "string \<Rightarrow> uuid option"
  show_uuid :: "uuid \<Rightarrow> string"

definition active_process_ids :: "proc_env \<Rightarrow> uuid list" where
  "active_process_ids E = map p_id (active_processes E)"

definition is_active_process :: "proc_env \<Rightarrow> uuid \<Rightarrow> bool" where
  "is_active_process E pid \<longleftrightarrow> list_ex (\<lambda>p. p_id p = pid) (active_processes E)"

definition from_process :: "process \<Rightarrow> proc_stat run" where
  "from_process p = (if unat (p_utime p) + unat (p_stime p) \<ge> 2 ^ 64 then Inl ArithOverflow
     else Inr \<lparr>ps_pid = p_id p, ps_name = p_name p, ps_utime = p_utime p, ps_stime = p_stime p,
       ps_total_cpu_time = unat (p_utime p) + unat (p_stime p), ps_rss_user_pages = p_rss_user_pages p\<rparr>)"

definition rss_in_bytes :: "proc_stat \<Rightarrow> nat run" where
  "rss_in_bytes p = (if unat (ps_rss_user_pages p) * PAGE_SIZE \<ge> 2 ^ 64 then Inl ArithOverflow
     else Inr (unat (ps_rss_user_pages p) * PAGE_SIZE))"

definition get_stats :: "proc_env \<Rightarrow> uuid \<Rightarrow> proc_stat option run" where
  "get_stats E pid = (case find (\<lambda>p. p_id p = pid) (active_processes E) of
       Some p \<Rightarrow> and_then (from_process p) (\<lambda>st. Inr (Some st))
     | None \<Rightarrow> Inr None)"

fun all_stats :: "process list \<Rightarrow> proc_stat list run" where
  "all_stats [] = Inr []"
| "all_stats (p # ps) = and_then (from_process p) (\<lambda>st. and_then (all_stats ps) (\<lambda>sts. Inr (st # sts)))"

definition get_all_stats :: "proc_env \<Rightarrow> proc_stat list run" where
  "get_all_stats E = all_stats (active_processes E)"

text \<open>\<open>format!\<close>: decimal numbers, padded on the left to a width.\<close>

fun decimal :: "nat \<Rightarrow> string" where
  "decimal n = (if n < 10 then [char_of (n + 48)] else decimal (n div 10) @ [char_of (n mod 10 + 48)])"

declare decimal.simps [simp del]

definition pad_left :: "nat \<Rightarrow> string \<Rightarrow> string" where
  "pad_left w s = replicate (w - length s) (CHR '' '') @ s"

definition newline :: string where
  "newline = [char_of (10 :: nat)]"

definition as_bytes :: "string \<Rightarrow> byte list" where
  "as_bytes s = map of_char s"

definition status_text :: "proc_env \<Rightarrow> proc_stat \<Rightarrow> string run" where
  "status_text E p = and_then (rss_in_bytes p) (\<lambda>rss. Inr
     (''  PID: '' @ pad_left 10 (show_uuid E (ps_pid p)) @ newline @
      ''UTIME: '' @ pad_left 10 (decimal (unat (ps_utime p))) @ newline @
      ''STIME: '' @ pad_left 10 (decimal (unat (ps_stime p))) @ newline @
      ''  RSS: '' @ pad_left 10 (decimal rss) @ newline))"

fun ps_lines :: "proc_env \<Rightarrow> proc_stat list \<Rightarrow> string run" where
  "ps_lines E [] = Inr []"
| "ps_lines E (p # ps) = and_then (rss_in_bytes p) (\<lambda>rss. and_then (ps_lines E ps) (\<lambda>rest. Inr
     (pad_left 36 (show_uuid E (ps_pid p)) @ pad_left 20 (ps_name p) @ pad_left 10 (decimal (unat (ps_utime p))) @
      pad_left 10 (decimal (unat (ps_stime p))) @ pad_left 10 (decimal rss) @ newline @ rest)))"

definition ps_text :: "proc_env \<Rightarrow> string run" where
  "ps_text E = and_then (get_all_stats E) (\<lambda>ps. and_then (ps_lines E ps) (\<lambda>rest. Inr
     (pad_left 36 ''PID'' @ pad_left 20 ''NAME'' @ pad_left 10 ''UTIME'' @ pad_left 10 ''STIME'' @ pad_left 10 ''RSS'' @
      newline @ rest)))"

section \<open>Directories\<close>

definition find_entry :: "string \<Rightarrow> (string \<times> 'i) list \<Rightarrow> 'i option" where
  "find_entry name es = (case find (\<lambda>(n, _). n = name) es of Some (_, i) \<Rightarrow> Some i | None \<Rightarrow> None)"

definition tmp_dir_lookup :: "'q naming \<Rightarrow> nat \<Rightarrow> string \<Rightarrow> errno + named_object" where
  "tmp_dir_lookup N d name = (case find_entry name (dir_files (ns_dirs N ! d)) of
       Some i \<Rightarrow> Inr (inode_object i) | None \<Rightarrow> Inl ENOENT)"

definition proc_dir_lookup :: "proc_env \<Rightarrow> string \<Rightarrow> errno + named_object" where
  "proc_dir_lookup E name = (case parse_uuid E name of
       Some pid \<Rightarrow> if is_active_process E pid then Inr (DirectoryObject (ProcPidDir pid)) else Inl ENOENT
     | None \<Rightarrow>
         if name = ''ps'' then Inr (FileObject ProcPsFile)
         else if name = ''ticks'' then Inr (FileObject ProcTicksFile)
         else if name = ''meminfo'' then Inr (FileObject ProcMemInfoFile)
         else Inl ENOENT)"

definition pid_dir_lookup :: "uuid \<Rightarrow> string \<Rightarrow> errno + named_object" where
  "pid_dir_lookup pid name = (if name = ''status'' then Inr (FileObject (ProcStatusFile pid)) else Inl ENOENT)"

definition dir_lookup :: "proc_env \<Rightarrow> 'q naming \<Rightarrow> directory_object \<Rightarrow> string \<Rightarrow> errno + named_object" where
  "dir_lookup E N dir name = (case dir of
       TmpDir d \<Rightarrow> tmp_dir_lookup N d name
     | ProcDir \<Rightarrow> proc_dir_lookup E name
     | ProcPidDir pid \<Rightarrow> pid_dir_lookup pid name)"

definition has_entry :: "string \<Rightarrow> (string \<times> 'i) list \<Rightarrow> bool" where
  "has_entry name es \<longleftrightarrow> list_ex (\<lambda>(n, _). n = name) es"

definition add_entry :: "'q naming \<Rightarrow> nat \<Rightarrow> string \<Rightarrow> tmpfs_inode \<Rightarrow> 'q naming" where
  "add_entry N d name i = N\<lparr>ns_dirs := (ns_dirs N)[d := (ns_dirs N ! d)\<lparr>dir_files := dir_files (ns_dirs N ! d) @ [(name, i)]\<rparr>]\<rparr>"

definition tmp_create_static_file :: "'q naming \<Rightarrow> nat \<Rightarrow> string \<Rightarrow> byte list \<Rightarrow> (errno + named_object) \<times> 'q naming" where
  "tmp_create_static_file N d name buffer =
     (if has_entry name (dir_files (ns_dirs N ! d)) then (Inl EEXIST, N)
      else (Inr (FileObject (StaticFile buffer)), add_entry N d name (InFile (StaticFile buffer))))"

definition tmp_create_pipe :: "'q queue_ops \<Rightarrow> 'q naming \<Rightarrow> nat \<Rightarrow> string \<Rightarrow> (errno + named_object) \<times> 'q naming" where
  "tmp_create_pipe Q N d name =
     (if has_entry name (dir_files (ns_dirs N ! d)) then (Inl EEXIST, N)
      else let p = length (ns_pipes N) in
        (Inr (PipeObject p), add_entry (N\<lparr>ns_pipes := ns_pipes N @ [pipe_new Q]\<rparr>) d name (InPipe p)))"

definition tmp_create_file :: "'q naming \<Rightarrow> nat \<Rightarrow> string \<Rightarrow> (errno + named_object) \<times> 'q naming" where
  "tmp_create_file N d name =
     (if has_entry name (dir_files (ns_dirs N ! d)) then (Inl EEXIST, N)
      else let f = length (ns_files N) in
        (Inr (FileObject (TmpFile f)), add_entry (N\<lparr>ns_files := ns_files N @ [file_new]\<rparr>) d name (InFile (TmpFile f))))"

definition tmp_create_dir :: "'q naming \<Rightarrow> nat \<Rightarrow> string \<Rightarrow> (errno + named_object) \<times> 'q naming" where
  "tmp_create_dir N d name =
     (if has_entry name (dir_files (ns_dirs N ! d)) then (Inl EEXIST, N)
      else let k = length (ns_dirs N) in
        (Inr (DirectoryObject (TmpDir k)), add_entry (N\<lparr>ns_dirs := ns_dirs N @ [dir_new]\<rparr>) d name (InDirectory k)))"

text \<open>The process file system is read-only.\<close>

definition create_file :: "'q naming \<Rightarrow> directory_object \<Rightarrow> string \<Rightarrow> (errno + named_object) \<times> 'q naming" where
  "create_file N dir name = (case dir of TmpDir d \<Rightarrow> tmp_create_file N d name | _ \<Rightarrow> (Inl ENOTSUP, N))"

definition create_dir :: "'q naming \<Rightarrow> directory_object \<Rightarrow> string \<Rightarrow> (errno + named_object) \<times> 'q naming" where
  "create_dir N dir name = (case dir of TmpDir d \<Rightarrow> tmp_create_dir N d name | _ \<Rightarrow> (Inl ENOTSUP, N))"

definition create_pipe :: "'q queue_ops \<Rightarrow> 'q naming \<Rightarrow> directory_object \<Rightarrow> string \<Rightarrow> (errno + named_object) \<times> 'q naming" where
  "create_pipe Q N dir name = (case dir of TmpDir d \<Rightarrow> tmp_create_pipe Q N d name | _ \<Rightarrow> (Inl ENOTSUP, N))"

definition tmp_readdir :: "'q naming \<Rightarrow> nat \<Rightarrow> nat \<Rightarrow> dir_entry option" where
  "tmp_readdir N d index =
     (let es = dir_files (ns_dirs N ! d) in
      if index < length es
      then Some \<lparr>de_file_type = inode_type (snd (es ! index)), de_name = fst (es ! index)\<rparr> else None)"

definition proc_static :: "(string \<times> file_type) list" where
  "proc_static = [(''ps'', Regular), (''ticks'', Regular), (''meminfo'', Regular)]"

definition proc_readdir :: "proc_env \<Rightarrow> nat \<Rightarrow> dir_entry option" where
  "proc_readdir E index =
     (if index < length proc_static
      then Some \<lparr>de_file_type = snd (proc_static ! index), de_name = fst (proc_static ! index)\<rparr>
      else
        let pids = active_process_ids E; pid_index = index - length proc_static in
        if pid_index \<ge> length pids then None
        else Some \<lparr>de_file_type = Directory, de_name = show_uuid E (pids ! pid_index)\<rparr>)"

definition pid_readdir :: "nat \<Rightarrow> dir_entry option" where
  "pid_readdir index = (if index = 0 then Some \<lparr>de_file_type = Regular, de_name = ''status''\<rparr> else None)"

definition dir_readdir :: "proc_env \<Rightarrow> 'q naming \<Rightarrow> directory_object \<Rightarrow> nat \<Rightarrow> dir_entry option" where
  "dir_readdir E N dir index = (case dir of
       TmpDir d \<Rightarrow> tmp_readdir N d index
     | ProcDir \<Rightarrow> proc_readdir E index
     | ProcPidDir pid \<Rightarrow> pid_readdir index)"

section \<open>Files\<close>

text \<open>The bytes that a read copies to the front of a buffer of the given length.\<close>

definition copy_out :: "byte list \<Rightarrow> nat \<Rightarrow> nat \<Rightarrow> byte list" where
  "copy_out data offset buf_len = (if offset > length data then [] else take buf_len (drop offset data))"

definition file_read :: "proc_env \<Rightarrow> 'q naming \<Rightarrow> file_object \<Rightarrow> nat \<Rightarrow> nat \<Rightarrow> (errno + byte list) run" where
  "file_read E N f buf_len offset = (case f of
       TmpFile i \<Rightarrow> Inr (Inr (copy_out (file_data (ns_files N ! i)) offset buf_len))
     | StaticFile data \<Rightarrow> Inr (Inr (copy_out data offset buf_len))
     | ProcStatusFile pid \<Rightarrow> and_then (get_stats E pid) (\<lambda>st. case st of
           Some p \<Rightarrow> and_then (status_text E p) (\<lambda>s. Inr (Inr (copy_out (as_bytes s) offset buf_len)))
         | None \<Rightarrow> Inr (Inl EAGAIN))
     | ProcPsFile \<Rightarrow> and_then (ps_text E) (\<lambda>s. Inr (Inr (copy_out (as_bytes s) offset buf_len)))
     | ProcTicksFile \<Rightarrow> Inr (Inr (copy_out (as_bytes (decimal (now_ticks E) @ '' '' @ newline)) offset buf_len))
     | ProcMemInfoFile \<Rightarrow> Inr (Inr (copy_out (as_bytes (decimal (dram_limit E) @ '' '' @ newline)) offset buf_len)))"

text \<open>\<open>Vec::resize\<close> with zeros; a vector has at most \<open>isize::MAX\<close> bytes.\<close>

definition resize :: "byte list \<Rightarrow> nat \<Rightarrow> byte list run" where
  "resize data n = (if n > 2 ^ 63 - 1 then Inl (PanicMsg ''capacity overflow'')
     else Inr (take n data @ replicate (n - length data) 0))"

definition tmp_file_write :: "tmp_file \<Rightarrow> byte list \<Rightarrow> nat \<Rightarrow> tmp_file run" where
  "tmp_file_write f buf offset =
     (let n = offset + length buf in
      if n \<ge> 2 ^ 64 then Inl ArithOverflow
      else and_then
        (if n > length (file_data f)
         then and_then (resize (file_data f) n) (\<lambda>data. Inr \<lparr>file_data = data, file_stat = (file_stat f)\<lparr>st_size := n\<rparr>\<rparr>)
         else Inr f)
        (\<lambda>f'. Inr (f'\<lparr>file_data := take offset (file_data f') @ buf @ drop n (file_data f')\<rparr>)))"

definition file_write :: "'q naming \<Rightarrow> file_object \<Rightarrow> byte list \<Rightarrow> nat \<Rightarrow> ((errno + nat) \<times> 'q naming) run" where
  "file_write N f buf offset = (case f of
       TmpFile i \<Rightarrow> and_then (tmp_file_write (ns_files N ! i) buf offset) (\<lambda>f'.
         Inr (Inr (length buf), N\<lparr>ns_files := (ns_files N)[i := f']\<rparr>))
     | StaticFile _ \<Rightarrow> Inr (Inl ERDONLY, N)
     | _ \<Rightarrow> Inr (Inl ENOTSUP, N))"

definition file_stat_of :: "'q naming \<Rightarrow> file_object \<Rightarrow> errno + stat" where
  "file_stat_of N f = (case f of
       TmpFile i \<Rightarrow> Inr (file_stat (ns_files N ! i))
     | StaticFile data \<Rightarrow> Inr (static_stat data)
     | _ \<Rightarrow> Inl ENOTSUP)"

section \<open>Paths\<close>

fun split_from :: "string \<Rightarrow> string \<Rightarrow> string list" where
  "split_from acc [] = [acc]"
| "split_from acc (c # cs) = (if c = CHR ''/'' then acc # split_from [] cs else split_from (acc @ [c]) cs)"

definition split_path :: "string \<Rightarrow> string list" where
  "split_path path = split_from [] path"

fun join_path :: "string list \<Rightarrow> string" where
  "join_path [] = []"
| "join_path [s] = s"
| "join_path (s # t # rest) = s @ ''/'' @ join_path (t # rest)"

definition build_path :: "string \<Rightarrow> string \<Rightarrow> string" where
  "build_path cur component = (if cur = ''/'' then cur @ component else cur @ ''/'' @ component)"

definition check_absolute_path :: "string \<Rightarrow> bool" where
  "check_absolute_path path \<longleftrightarrow> (case path of c # _ \<Rightarrow> c = CHR ''/'' | [] \<Rightarrow> False)"

fun resolve_path :: "proc_env \<Rightarrow> 'q naming \<Rightarrow> directory_object \<Rightarrow> string \<Rightarrow> string list \<Rightarrow> errno + named_object" where
  "resolve_path E N dir cur [] = Inl ENOENT"
| "resolve_path E N dir cur (component # rest) = (case dir_lookup E N dir component of
       Inl _ \<Rightarrow> Inl ENOENT
     | Inr obj \<Rightarrow>
         let cur' = build_path cur component in
         case mount_get (ns_mounts N) cur' of
           Some mounted_root \<Rightarrow>
             if rest = [] then Inr (DirectoryObject mounted_root) else resolve_path E N mounted_root cur' rest
         | None \<Rightarrow>
             if rest = [] then Inr obj
             else (case obj of DirectoryObject d \<Rightarrow> resolve_path E N d cur' rest | _ \<Rightarrow> Inl ENOENT))"

definition lookup_named_object :: "proc_env \<Rightarrow> 'q naming \<Rightarrow> string \<Rightarrow> errno + named_object" where
  "lookup_named_object E N path =
     (if \<not> check_absolute_path path then Inl ENOENT
      else if path = ''/'' then Inr (DirectoryObject (TmpDir 0))
      else resolve_path E N (TmpDir 0) ''/'' (tl (split_path path)))"

definition lookup_dir :: "proc_env \<Rightarrow> 'q naming \<Rightarrow> string \<Rightarrow> errno + directory_object" where
  "lookup_dir E N path = (case lookup_named_object E N path of
       Inr (DirectoryObject d) \<Rightarrow> Inr d | Inr _ \<Rightarrow> Inl ENOTDIR | Inl e \<Rightarrow> Inl e)"

section \<open>The table of opened objects\<close>

definition MAX_OPEN_OBJECTS :: nat where
  "MAX_OPEN_OBJECTS = 0x1000"

text \<open>What a call does: it returns, or it goes on as a call of a pipe.\<close>

datatype pipe_call = PipeOpen open_options | PipeRead nat open_options | PipeWrite "byte list" open_options
  | PipeClose open_options

datatype 'a outcome = Return "errno + 'a" | CallPipe nat pipe_call

definition lookup_opened_object :: "'q naming \<Rightarrow> nat \<Rightarrow> errno + opened_object" where
  "lookup_opened_object N handle = (case find (\<lambda>(h, _). h = handle) (ns_open_handles N) of
       Some (_, Some obj) \<Rightarrow> Inr obj | _ \<Rightarrow> Inl EINVALH)"

fun find_free_from :: "nat \<Rightarrow> nat list \<Rightarrow> (nat \<times> nat list) option" where
  "find_free_from i [] = None"
| "find_free_from i (v # vs) = (if v = 0 then Some (i, 1 # vs)
     else (case find_free_from (i + 1) vs of Some (k, ws) \<Rightarrow> Some (k, v # ws) | None \<Rightarrow> None))"

definition find_free_handle :: "'q naming \<Rightarrow> (nat \<times> 'q naming) option" where
  "find_free_handle N = (case find_free_from 0 (ns_free_handles N) of
       Some (h, fs) \<Rightarrow> Some (h, N\<lparr>ns_free_handles := fs\<rparr>) | None \<Rightarrow> None)"

definition allocate_handle :: "'q naming \<Rightarrow> opened_object \<Rightarrow> (errno + nat) \<times> 'q naming" where
  "allocate_handle N obj = (case find_free_handle N of
       Some (h, N1) \<Rightarrow> (Inr h, N1\<lparr>ns_open_handles := ns_open_handles N1 @ [(h, Some obj)]\<rparr>)
     | None \<Rightarrow> (Inl ENOHANDLES, N))"

text \<open>\<open>swap_remove\<close> puts the last element in the place of the removed one.\<close>

definition swap_remove :: "'a list \<Rightarrow> nat \<Rightarrow> 'a list" where
  "swap_remove xs i = butlast (xs[i := last xs])"

fun position_of :: "('a \<Rightarrow> bool) \<Rightarrow> 'a list \<Rightarrow> nat option" where
  "position_of P [] = None"
| "position_of P (x # xs) = (if P x then Some 0 else map_option Suc (position_of P xs))"

definition free_handle :: "'q naming \<Rightarrow> nat \<Rightarrow> ((errno + nat) \<times> 'q naming) run" where
  "free_handle N handle = (case position_of (\<lambda>(h, _). h = handle) (ns_open_handles N) of
       Some idx \<Rightarrow>
         if handle < length (ns_free_handles N)
         then Inr (Inr 0, N\<lparr>ns_open_handles := swap_remove (ns_open_handles N) idx,
           ns_free_handles := (ns_free_handles N)[handle := 0]\<rparr>)
         else Inl IndexOutOfBounds
     | None \<Rightarrow> Inr (Inl EINVALH, N))"

text \<open>A change of the position in an opened object.\<close>

definition set_pos :: "'q naming \<Rightarrow> nat \<Rightarrow> nat \<Rightarrow> 'q naming" where
  "set_pos N handle n = N\<lparr>ns_open_handles := map (\<lambda>(h, obj).
     (h, if h = handle then map_option (\<lambda>oo. oo\<lparr>oo_pos := n\<rparr>) obj else obj)) (ns_open_handles N)\<rparr>"

definition contains_flag :: "open_options \<Rightarrow> open_options \<Rightarrow> bool" where
  "contains_flag flags f \<longleftrightarrow> flags AND f = f"

text \<open>The end of \<open>open\<close>, for a pipe after the call of the pipe has returned.\<close>

definition open_rest :: "'q naming \<Rightarrow> named_object \<Rightarrow> open_options \<Rightarrow> (errno + nat) \<times> 'q naming" where
  "open_rest N obj flags =
     (if is_dir obj \<and> (contains_flag flags WRITEONLY \<or> contains_flag flags READWRITE) then (Inl EISDIR, N)
      else allocate_handle N \<lparr>oo_object = obj, oo_pos = 0, oo_options = flags\<rparr>)"

definition open_object :: "proc_env \<Rightarrow> 'q naming \<Rightarrow> string \<Rightarrow> open_options \<Rightarrow> nat outcome \<times> 'q naming" where
  "open_object E N path flags = (case lookup_named_object E N path of
       Inl _ \<Rightarrow> (Return (Inl ENOENT), N)
     | Inr obj \<Rightarrow>
         if contains_flag flags DIRECTORY \<and> \<not> is_dir obj then (Return (Inl ENOTDIR), N)
         else (case obj of
             PipeObject p \<Rightarrow> (CallPipe p (PipeOpen flags), N)
           | _ \<Rightarrow> (case open_rest N obj flags of (r, N1) \<Rightarrow> (Return r, N1))))"

definition write_object :: "'q naming \<Rightarrow> nat \<Rightarrow> byte list \<Rightarrow> (nat outcome \<times> 'q naming) run" where
  "write_object N fh buf = (case lookup_opened_object N fh of
       Inl e \<Rightarrow> Inr (Return (Inl e), N)
     | Inr oo \<Rightarrow> (case oo_object oo of
           FileObject f \<Rightarrow> and_then (file_write N f buf (oo_pos oo)) (\<lambda>(r, N1). case r of
               Inl e \<Rightarrow> Inr (Return (Inl e), N1)
             | Inr n \<Rightarrow> if oo_pos oo + n \<ge> 2 ^ 64 then Inl ArithOverflow
                 else Inr (Return (Inr n), set_pos N1 fh (oo_pos oo + n)))
         | PipeObject p \<Rightarrow> Inr (CallPipe p (PipeWrite buf (oo_options oo)), N)
         | DirectoryObject _ \<Rightarrow> Inr (Return (Inl EBADF), N)))"

text \<open>A read gives the bytes copied; their number is the result of the call.\<close>

definition read_object :: "proc_env \<Rightarrow> 'q naming \<Rightarrow> nat \<Rightarrow> nat \<Rightarrow> (byte list outcome \<times> 'q naming) run" where
  "read_object E N fh buf_len = (case lookup_opened_object N fh of
       Inl e \<Rightarrow> Inr (Return (Inl e), N)
     | Inr oo \<Rightarrow> (case oo_object oo of
           FileObject f \<Rightarrow> and_then (file_read E N f buf_len (oo_pos oo)) (\<lambda>r. case r of
               Inl e \<Rightarrow> Inr (Return (Inl e), N)
             | Inr bs \<Rightarrow> if oo_pos oo + length bs \<ge> 2 ^ 64 then Inl ArithOverflow
                 else Inr (Return (Inr bs), set_pos N fh (oo_pos oo + length bs)))
         | PipeObject p \<Rightarrow> Inr (CallPipe p (PipeRead buf_len (oo_options oo)), N)
         | DirectoryObject _ \<Rightarrow> Inr (Return (Inl EISDIR), N)))"

datatype seek_origin = SeekStart | SeekEnd | SeekCurrent

definition seek_origin_from :: "nat \<Rightarrow> seek_origin" where
  "seek_origin_from n = (if n = 2 then SeekEnd else if n = 4 then SeekCurrent else SeekStart)"

text \<open>The sum of two \<open>isize\<close> numbers.\<close>

definition isize_add :: "int \<Rightarrow> int \<Rightarrow> int run" where
  "isize_add a b = (if - (2 ^ 63) \<le> a + b \<and> a + b < 2 ^ 63 then Inr (a + b) else Inl ArithOverflow)"

definition seek_object :: "'q naming \<Rightarrow> nat \<Rightarrow> int \<Rightarrow> seek_origin \<Rightarrow> ((errno + nat) \<times> 'q naming) run" where
  "seek_object N fh offset origin = (case lookup_opened_object N fh of
       Inl e \<Rightarrow> Inr (Inl e, N)
     | Inr oo \<Rightarrow> (case oo_object oo of
           FileObject f \<Rightarrow>
             and_then (case origin of
                 SeekStart \<Rightarrow> Inr (Inr offset)
               | SeekEnd \<Rightarrow> (case file_stat_of N f of
                     Inl e \<Rightarrow> Inr (Inl e)
                   | Inr st \<Rightarrow> and_then (isize_add (as_isize (st_size st)) offset) (\<lambda>i. Inr (Inr i)))
               | SeekCurrent \<Rightarrow> and_then (isize_add (as_isize (oo_pos oo)) offset) (\<lambda>i. Inr (Inr i)))
             (\<lambda>r. case r of Inl e \<Rightarrow> Inr (Inl e, N)
                | Inr i \<Rightarrow> Inr (Inr (as_usize i), set_pos N fh (as_usize i)))
         | _ \<Rightarrow> Inr (Inl ENOTSUP, N)))"

definition readdir_object :: "proc_env \<Rightarrow> 'q naming \<Rightarrow> nat \<Rightarrow> ((errno + dir_entry option) \<times> 'q naming) run" where
  "readdir_object E N fh = (case lookup_opened_object N fh of
       Inl e \<Rightarrow> Inr (Inl e, N)
     | Inr oo \<Rightarrow> (case oo_object oo of
           DirectoryObject d \<Rightarrow>
             if oo_pos oo + 1 \<ge> 2 ^ 64 then Inl ArithOverflow
             else Inr (Inr (dir_readdir E N d (oo_pos oo)), set_pos N fh (oo_pos oo + 1))
         | _ \<Rightarrow> Inr (Inl ENOTSUP, N)))"

text \<open>Closing frees the handle; a pipe is closed before.\<close>

definition close_object :: "'q naming \<Rightarrow> nat \<Rightarrow> ((errno + nat) \<times> (nat \<times> pipe_call) option \<times> 'q naming) run" where
  "close_object N fh = and_then (free_handle N fh) (\<lambda>(r, N1).
     Inr (r, (case lookup_opened_object N fh of
         Inr oo \<Rightarrow> (case oo_object oo of PipeObject p \<Rightarrow> Some (p, PipeClose (oo_options oo)) | _ \<Rightarrow> None)
       | Inl _ \<Rightarrow> None), N1))"

section \<open>The interface\<close>

text \<open>The directory of a path and the name in it: a path with one separator is taken below the root.\<close>

definition parent_and_name :: "string \<Rightarrow> string \<times> string" where
  "parent_and_name path =
     (let components = split_path path; parent = butlast components in
      (if length parent = 1 then ''/'' else join_path parent, last components))"

definition mkdir :: "proc_env \<Rightarrow> 'q naming \<Rightarrow> string \<Rightarrow> (errno + nat) \<times> 'q naming" where
  "mkdir E N path = (case parent_and_name path of (parent, name) \<Rightarrow> case lookup_dir E N parent of
       Inl _ \<Rightarrow> (Inl ENOTDIR, N)
     | Inr dir \<Rightarrow> (case create_dir N dir name of (Inr _, N1) \<Rightarrow> (Inr 0, N1) | (Inl _, N1) \<Rightarrow> (Inl ENOTDIR, N1)))"

definition touch :: "proc_env \<Rightarrow> 'q naming \<Rightarrow> string \<Rightarrow> (errno + nat) \<times> 'q naming" where
  "touch E N path = (case parent_and_name path of (parent, name) \<Rightarrow> case lookup_dir E N parent of
       Inl _ \<Rightarrow> (Inl ENOTDIR, N)
     | Inr dir \<Rightarrow> (case create_file N dir name of (Inr _, N1) \<Rightarrow> (Inr 0, N1) | (Inl _, N1) \<Rightarrow> (Inl ENOTDIR, N1)))"

definition mkfifo :: "'q queue_ops \<Rightarrow> proc_env \<Rightarrow> 'q naming \<Rightarrow> string \<Rightarrow> (errno + nat) \<times> 'q naming" where
  "mkfifo Q E N path = (case parent_and_name path of (parent, name) \<Rightarrow> case lookup_dir E N parent of
       Inl e \<Rightarrow> (Inl e, N)
     | Inr dir \<Rightarrow> (case create_pipe Q N dir name of (Inr _, N1) \<Rightarrow> (Inr 0, N1) | (Inl e, N1) \<Rightarrow> (Inl e, N1)))"

definition open_named :: "proc_env \<Rightarrow> 'q naming \<Rightarrow> string \<Rightarrow> open_options \<Rightarrow> nat outcome \<times> 'q naming" where
  "open_named E N path flags =
     (if contains_flag flags CREATE \<and> (case lookup_named_object E N path of Inr _ \<Rightarrow> True | Inl _ \<Rightarrow> False)
      then (Return (Inl EEXIST), N)
      else case open_object E N path flags of
        (Return (Inl e), N1) \<Rightarrow>
          if contains_flag flags CREATE \<and> e \<noteq> EEXIST
          then (case touch E N1 path of
              (Inl e', N2) \<Rightarrow> (Return (Inl e'), N2)
            | (Inr _, N2) \<Rightarrow> open_object E N2 path flags)
          else (Return (Inl e), N1)
      | r \<Rightarrow> r)"

record raw_dirent =
  d_type :: nat
  d_name :: "byte list"

definition raw_dirent_new :: raw_dirent where
  "raw_dirent_new = \<lparr>d_type = 0, d_name = replicate 256 0\<rparr>"

definition raw_dirent_of :: "dir_entry \<Rightarrow> raw_dirent" where
  "raw_dirent_of e = (let name_bytes = as_bytes (de_name e); len = min (length name_bytes) 255 in
     \<lparr>d_type = file_type_code (de_file_type e), d_name = take len name_bytes @ replicate (256 - len) 0\<rparr>)"

text \<open>The entry goes to the place that the caller gives; the result tells whether there was one.\<close>

definition readdir :: "proc_env \<Rightarrow> 'q naming \<Rightarrow> nat \<Rightarrow> raw_dirent option \<Rightarrow> ((errno + nat) \<times> raw_dirent option \<times> 'q naming) run" where
  "readdir E N dir_handle dentry = and_then (readdir_object E N dir_handle) (\<lambda>(res, N1). Inr (case res of
       Inr (Some dir_entry) \<Rightarrow> (case dentry of
           Some _ \<Rightarrow> (Inr 1, Some (raw_dirent_of dir_entry), N1)
         | None \<Rightarrow> (Inl EUNKN, None, N1))
     | Inr None \<Rightarrow> (Inr 0, dentry, N1)
     | Inl e \<Rightarrow> (Inl e, dentry, N1)))"

definition cwd :: "'q naming \<Rightarrow> byte list \<Rightarrow> (nat \<times> byte list) run" where
  "cwd N buffer =
     (if length buffer = 0 then Inl ArithOverflow
      else
        let bs = as_bytes (ns_cwd N); n = min (length buffer - 1) (length bs) in
        Inr (n + 1, take n bs @ 0 # drop (n + 1) buffer))"

definition cd :: "proc_env \<Rightarrow> 'q naming \<Rightarrow> string \<Rightarrow> (errno + nat) \<times> 'q naming" where
  "cd E N path = (case lookup_dir E N path of
       Inr _ \<Rightarrow> (Inr 0, N\<lparr>ns_cwd := path\<rparr>) | Inl _ \<Rightarrow> (Inl ENOTDIR, N))"

section \<open>Initialisation\<close>

fun make_dirs :: "'q naming \<Rightarrow> nat \<Rightarrow> string list \<Rightarrow> ((errno + nat) \<times> 'q naming) run" where
  "make_dirs N d [] = Inr (Inr d, N)"
| "make_dirs N d (component # rest) = (case tmp_dir_lookup N d component of
       Inr (DirectoryObject (TmpDir k)) \<Rightarrow> make_dirs N k rest
     | Inr _ \<Rightarrow> Inr (Inl EBADF, N)
     | Inl _ \<Rightarrow> (case tmp_create_dir N d component of
           (Inr (DirectoryObject (TmpDir k)), N1) \<Rightarrow> make_dirs N1 k rest
         | _ \<Rightarrow> Inl UnwrapNone))"

definition create_static_file :: "'q naming \<Rightarrow> string \<Rightarrow> byte list \<Rightarrow> ((errno + named_object) \<times> 'q naming) run" where
  "create_static_file N path buffer =
     (let components = split_path path in
      and_then (make_dirs N 0 (filter (\<lambda>s. s \<noteq> []) (butlast components))) (\<lambda>(r, N1). case r of
          Inl e \<Rightarrow> Inr (Inl e, N1)
        | Inr d \<Rightarrow> Inr (tmp_create_static_file N1 d (last components) buffer)))"

fun add_static_files :: "'q naming \<Rightarrow> (string \<times> byte list) list \<Rightarrow> 'q naming run" where
  "add_static_files N [] = Inr N"
| "add_static_files N ((path, data) # es) =
     and_then (create_static_file N path data) (\<lambda>(_, N1). add_static_files N1 es)"

definition naming_init :: "(string \<times> byte list) list \<Rightarrow> 'q naming run" where
  "naming_init initrd =
     (let N = \<lparr>ns_dirs = [dir_new], ns_files = [], ns_pipes = [], ns_mounts = [], ns_open_handles = [],
        ns_free_handles = replicate MAX_OPEN_OBJECTS 0, ns_cwd = []\<rparr> in
      case tmp_create_dir N 0 ''proc'' of
        (Inl _, _) \<Rightarrow> Inl (PanicMsg ''Failed to create proc directory in tmpfs'')
      | (Inr _, N1) \<Rightarrow> and_then (add_static_files N1 initrd) (\<lambda>N2.
          Inr (N2\<lparr>ns_mounts := mount [] ''/proc'' ProcDir, ns_cwd := ''/''\<rparr>)))"

end
