(* ===== verification/NamingProps.thy ===== *)
theory NamingProps
  imports Naming
begin

text \<open>
  Properties of the naming service: references stay valid, the directories form a tree, creating
  an object changes exactly one path, files keep what is written, handles are given out once, and
  a directory is listed completely.
\<close>

section \<open>References\<close>

fun file_ok :: "'q naming \<Rightarrow> file_object \<Rightarrow> bool" where
  "file_ok N (TmpFile i) \<longleftrightarrow> i < length (ns_files N)"
| "file_ok N _ \<longleftrightarrow> True"

fun dir_ok :: "'q naming \<Rightarrow> directory_object \<Rightarrow> bool" where
  "dir_ok N (TmpDir d) \<longleftrightarrow> d < length (ns_dirs N)"
| "dir_ok N _ \<longleftrightarrow> True"

fun object_ok :: "'q naming \<Rightarrow> named_object \<Rightarrow> bool" where
  "object_ok N (FileObject f) \<longleftrightarrow> file_ok N f"
| "object_ok N (PipeObject p) \<longleftrightarrow> p < length (ns_pipes N)"
| "object_ok N (DirectoryObject d) \<longleftrightarrow> dir_ok N d"

abbreviation entries :: "'q naming \<Rightarrow> nat \<Rightarrow> (string \<times> tmpfs_inode) list" where
  "entries N d \<equiv> dir_files (ns_dirs N ! d)"

text \<open>
  The directories: every entry leads to an object, names are unique in a directory, every
  directory has one entry at most and the root none; the process file system is mounted on an
  entry of the root.
\<close>

definition tree_ok :: "'q naming \<Rightarrow> bool" where
  "tree_ok N \<longleftrightarrow> ns_dirs N \<noteq> [] \<and> ns_mounts N = [(''/proc'', ProcDir)] \<and> has_entry ''proc'' (entries N 0) \<and>
     (\<forall>d < length (ns_dirs N). distinct (map fst (entries N d)) \<and>
        (\<forall>(n, i) \<in> set (entries N d). object_ok N (inode_object i) \<and> i \<noteq> InDirectory 0)) \<and>
     (\<forall>d < length (ns_dirs N). \<forall>d' < length (ns_dirs N). \<forall>n n' k.
        (n, InDirectory k) \<in> set (entries N d) \<longrightarrow> (n', InDirectory k) \<in> set (entries N d') \<longrightarrow> d = d' \<and> n = n')"

definition files_ok :: "'q naming \<Rightarrow> bool" where
  "files_ok N \<longleftrightarrow> (\<forall>f \<in> set (ns_files N). st_size (file_stat f) = length (file_data f) \<and> length (file_data f) < 2 ^ 63)"

definition handles_ok :: "'q naming \<Rightarrow> bool" where
  "handles_ok N \<longleftrightarrow> length (ns_free_handles N) = MAX_OPEN_OBJECTS \<and> distinct (map fst (ns_open_handles N)) \<and>
     (\<forall>(h, obj) \<in> set (ns_open_handles N). h < MAX_OPEN_OBJECTS \<and>
        (\<exists>oo. obj = Some oo \<and> object_ok N (oo_object oo) \<and> oo_pos oo < 2 ^ 64)) \<and>
     (\<forall>h < MAX_OPEN_OBJECTS. ns_free_handles N ! h = 0 \<longleftrightarrow> h \<notin> fst ` set (ns_open_handles N))"

definition naming_ok :: "'q naming \<Rightarrow> bool" where
  "naming_ok N \<longleftrightarrow> tree_ok N \<and> files_ok N \<and> handles_ok N"

lemma find_entry_member: "find_entry name es = Some i \<Longrightarrow> (name, i) \<in> set es"
  by (induction es) (auto simp: find_entry_def split: if_splits)

lemma find_entry_None: "find_entry name es = None \<longleftrightarrow> \<not> has_entry name es"
  by (induction es) (auto simp: find_entry_def has_entry_def)

lemma find_entry_append:
  "find_entry name (es @ fs) = (case find_entry name es of Some i \<Rightarrow> Some i | None \<Rightarrow> find_entry name fs)"
  by (induction es) (auto simp: find_entry_def)

lemma find_entry_single: "find_entry name [(n, i)] = (if n = name then Some i else None)"
  by (simp add: find_entry_def)

lemma has_entry_fst: "has_entry name es \<longleftrightarrow> name \<in> fst ` set es"
  by (induction es) (auto simp: has_entry_def)

lemma tree_entry:
  assumes "tree_ok N" and "d < length (ns_dirs N)" and "(n, i) \<in> set (entries N d)"
  shows "object_ok N (inode_object i)" "i \<noteq> InDirectory 0"
  using assms by (auto simp: tree_ok_def)

lemma tree_unique:
  assumes "tree_ok N" and "d < length (ns_dirs N)" "d' < length (ns_dirs N)"
    and "(n, InDirectory k) \<in> set (entries N d)" "(n', InDirectory k) \<in> set (entries N d')"
  shows "d = d'" "n = n'"
  using assms unfolding tree_ok_def by blast+

section \<open>Walking along a path\<close>

lemma mount_proc: "tree_ok N \<Longrightarrow> bt_get (ns_mounts N) p = (if p = ''/proc'' then Some ProcDir else None)"
  by (simp add: tree_ok_def)

text \<open>One component, and all components but the last.\<close>

definition enter :: "proc_env \<Rightarrow> 'q naming \<Rightarrow> directory_object \<Rightarrow> string \<Rightarrow> string \<Rightarrow> named_object option" where
  "enter E N dir cur c = (case dir_lookup E N dir c of
       Inl _ \<Rightarrow> None
     | Inr obj \<Rightarrow> (case bt_get (ns_mounts N) (build_path cur c) of Some r \<Rightarrow> Some (DirectoryObject r) | None \<Rightarrow> Some obj))"

fun walk :: "proc_env \<Rightarrow> 'q naming \<Rightarrow> directory_object \<Rightarrow> string \<Rightarrow> string list \<Rightarrow> directory_object option" where
  "walk E N dir cur [] = Some dir"
| "walk E N dir cur (c # cs) = (case enter E N dir cur c of
       Some (DirectoryObject d) \<Rightarrow> walk E N d (build_path cur c) cs | _ \<Rightarrow> None)"

definition path_of :: "string list \<Rightarrow> string" where
  "path_of cs = foldl build_path ''/'' cs"

lemma resolve_walk:
  "resolve_path E N dir cur (cs @ [c]) = (case walk E N dir cur cs of
       Some d \<Rightarrow> (case enter E N d (foldl build_path cur cs) c of Some obj \<Rightarrow> Inr obj | None \<Rightarrow> Inl ENOENT)
     | None \<Rightarrow> Inl ENOENT)"
proof (induction cs arbitrary: dir cur)
  case Nil
  show ?case by (auto simp: enter_def Let_def split: sum.split option.split)
next
  case (Cons a cs)
  show ?case
    by (auto simp: enter_def Let_def Cons.IH split: sum.split option.split named_object.split)
qed

lemma walk_snoc:
  "walk E N dir cur (cs @ [c]) = (case walk E N dir cur cs of
       Some d \<Rightarrow> (case enter E N d (foldl build_path cur cs) c of Some (DirectoryObject d') \<Rightarrow> Some d' | _ \<Rightarrow> None)
     | None \<Rightarrow> None)"
  by (induction cs arbitrary: dir cur) (auto split: option.split named_object.split)

abbreviation walk_root :: "proc_env \<Rightarrow> 'q naming \<Rightarrow> string list \<Rightarrow> directory_object option" where
  "walk_root E N cs \<equiv> walk E N (TmpDir 0) ''/'' cs"

text \<open>Only an entry of a directory leads to a directory of the temporary file system.\<close>

lemma enter_TmpDir:
  assumes t: "tree_ok N" and e: "enter E N dir cur c = Some (DirectoryObject (TmpDir k))"
  obtains d where "dir = TmpDir d" "(c, InDirectory k) \<in> set (entries N d)"
proof -
  have l: "dir_lookup E N dir c = Inr (DirectoryObject (TmpDir k))"
    using e by (auto simp: enter_def mount_proc [OF t] split: sum.splits if_splits)
  show ?thesis
  proof (cases dir)
    case (TmpDir d)
    then obtain i where i: "find_entry c (entries N d) = Some i" "inode_object i = DirectoryObject (TmpDir k)"
      using l by (auto simp: dir_lookup_def tmp_dir_lookup_def split: option.splits)
    then have "i = InDirectory k" by (auto simp: inode_object_def split: tmpfs_inode.splits)
    with find_entry_member [OF i(1)] TmpDir that show ?thesis by blast
  next
    case ProcDir
    with l show ?thesis by (auto simp: dir_lookup_def proc_dir_lookup_def split: option.splits if_splits)
  next
    case (ProcPidDir pid)
    with l show ?thesis by (auto simp: dir_lookup_def pid_dir_lookup_def split: if_splits)
  qed
qed

lemma enter_ok:
  assumes t: "tree_ok N" and d: "dir_ok N dir" and e: "enter E N dir cur c = Some obj"
  shows "object_ok N obj"
proof -
  obtain o1 where l: "dir_lookup E N dir c = Inr o1" and o: "obj = o1 \<or> obj = DirectoryObject ProcDir"
    using e by (auto simp: enter_def mount_proc [OF t] split: sum.splits if_splits)
  have "object_ok N o1"
  proof (cases dir)
    case (TmpDir k)
    then obtain i where "find_entry c (entries N k) = Some i" "o1 = inode_object i"
      using l by (auto simp: dir_lookup_def tmp_dir_lookup_def split: option.splits)
    with tree_entry(1) [OF t _ find_entry_member] d TmpDir show ?thesis by auto
  next
    case ProcDir
    with l show ?thesis by (auto simp: dir_lookup_def proc_dir_lookup_def split: option.splits if_splits)
  next
    case (ProcPidDir pid)
    with l show ?thesis by (auto simp: dir_lookup_def pid_dir_lookup_def split: if_splits)
  qed
  with o show ?thesis by auto
qed

lemma walk_ok: "tree_ok N \<Longrightarrow> dir_ok N dir \<Longrightarrow> walk E N dir cur cs = Some d \<Longrightarrow> dir_ok N d"
proof (induction cs arbitrary: dir cur)
  case (Cons c cs)
  obtain d1 where "enter E N dir cur c = Some (DirectoryObject d1)" "walk E N d1 (build_path cur c) cs = Some d"
    using Cons.prems(3) by (auto split: option.splits named_object.splits)
  with enter_ok [OF Cons.prems(1,2)] Cons.IH [OF Cons.prems(1)] show ?case by fastforce
qed simp

lemma walk_unique:
  assumes t: "tree_ok N"
  shows "walk_root E N cs = Some (TmpDir k) \<Longrightarrow> walk_root E' N cs' = Some (TmpDir k) \<Longrightarrow> cs = cs'"
proof (induction cs arbitrary: cs' k rule: rev_induct)
  case Nil
  then have k: "k = 0" by simp
  show ?case
  proof (cases cs' rule: rev_cases)
    case (snoc ds c)
    then obtain d1 where e: "enter E' N d1 (foldl build_path ''/'' ds) c = Some (DirectoryObject (TmpDir 0))"
      and w: "walk_root E' N ds = Some d1"
      using Nil k by (auto simp: walk_snoc split: option.splits named_object.splits)
    obtain d where "d1 = TmpDir d" "(c, InDirectory 0) \<in> set (entries N d)" by (rule enter_TmpDir [OF t e])
    moreover have "dir_ok N d1" using walk_ok [OF t _ w] t by (auto simp: tree_ok_def)
    ultimately show ?thesis using tree_entry(2) [OF t] by auto
  qed simp
next
  case (snoc c cs)
  obtain d1 where e: "enter E N d1 (foldl build_path ''/'' cs) c = Some (DirectoryObject (TmpDir k))"
    and w: "walk_root E N cs = Some d1"
    using snoc.prems by (auto simp: walk_snoc split: option.splits named_object.splits)
  obtain d where d: "d1 = TmpDir d" "(c, InDirectory k) \<in> set (entries N d)" by (rule enter_TmpDir [OF t e])
  have dok: "d < length (ns_dirs N)" using walk_ok [OF t _ w] t d by (auto simp: tree_ok_def)
  show ?case
  proof (cases cs' rule: rev_cases)
    case Nil
    then show ?thesis using snoc.prems(2) tree_entry(2) [OF t dok d(2)] by simp
  next
    case (snoc ds c')
    then obtain d2 where e2: "enter E' N d2 (foldl build_path ''/'' ds) c' = Some (DirectoryObject (TmpDir k))"
      and w2: "walk_root E' N ds = Some d2"
      using snoc.prems by (auto simp: walk_snoc split: option.splits named_object.splits)
    obtain d' where d': "d2 = TmpDir d'" "(c', InDirectory k) \<in> set (entries N d')" by (rule enter_TmpDir [OF t e2])
    have "d' < length (ns_dirs N)" using walk_ok [OF t _ w2] t d' by (auto simp: tree_ok_def)
    with tree_unique [OF t dok _ d(2) d'(2)] have "d = d'" "c = c'" by auto
    with snoc.IH w w2 d(1) d'(1) snoc show ?thesis by metis
  qed
qed

section \<open>New objects\<close>

text \<open>New empty objects at the ends of the lists, and one new entry that leads to one of them.\<close>

definition grows :: "'q naming \<Rightarrow> 'q naming \<Rightarrow> bool" where
  "grows N N1 \<longleftrightarrow> (\<exists>n. ns_dirs N1 = ns_dirs N @ replicate n dir_new) \<and> (\<exists>n. ns_files N1 = ns_files N @ replicate n file_new) \<and>
     (\<exists>ps. ns_pipes N1 = ns_pipes N @ ps) \<and> ns_mounts N1 = ns_mounts N \<and> ns_open_handles N1 = ns_open_handles N \<and>
     ns_free_handles N1 = ns_free_handles N \<and> ns_cwd N1 = ns_cwd N"

definition created :: "'q naming \<Rightarrow> nat \<Rightarrow> string \<Rightarrow> tmpfs_inode \<Rightarrow> 'q naming \<Rightarrow> bool" where
  "created N d name i N' \<longleftrightarrow> (\<exists>N1. grows N N1 \<and> N' = add_entry N1 d name i \<and> d < length (ns_dirs N) \<and>
     \<not> has_entry name (entries N d) \<and> object_ok N1 (inode_object i) \<and> (\<forall>k. i = InDirectory k \<longrightarrow> k = length (ns_dirs N)))"

lemma grows_object_ok:
  assumes g: "grows N N1" and ok: "object_ok N obj"
  shows "object_ok N1 obj"
proof -
  have "file_ok N f \<Longrightarrow> file_ok N1 f" for f using g by (cases f) (auto simp: grows_def)
  moreover have "dir_ok N f \<Longrightarrow> dir_ok N1 f" for f using g by (cases f) (auto simp: grows_def)
  ultimately show ?thesis using g ok by (cases obj) (auto simp: grows_def)
qed

lemma add_entry_object_ok [simp]: "object_ok (add_entry N d name i) obj = object_ok N obj"
proof -
  have "file_ok (add_entry N d name i) f = file_ok N f" for f by (cases f) (simp_all add: add_entry_def)
  moreover have "dir_ok (add_entry N d name i) f = dir_ok N f" for f by (cases f) (simp_all add: add_entry_def)
  ultimately show ?thesis by (cases obj) (simp_all add: add_entry_def)
qed

lemma created_object_ok: "created N d name i N' \<Longrightarrow> object_ok N obj \<Longrightarrow> object_ok N' obj"
  by (auto simp: created_def intro: grows_object_ok)

lemma created_new_ok: "created N d name i N' \<Longrightarrow> object_ok N' (inode_object i)"
  by (auto simp: created_def)

lemma created_fields:
  assumes "created N d name i N'"
  shows "ns_mounts N' = ns_mounts N" "ns_open_handles N' = ns_open_handles N" "ns_free_handles N' = ns_free_handles N"
    "ns_cwd N' = ns_cwd N" "\<exists>n. ns_files N' = ns_files N @ replicate n file_new" "length (ns_dirs N) \<le> length (ns_dirs N')"
  using assms by (auto simp: created_def grows_def add_entry_def)

lemma created_entries:
  assumes "created N d name i N'" and "x < length (ns_dirs N')"
  shows "entries N' x = (if x = d then entries N d @ [(name, i)] else if x < length (ns_dirs N) then entries N x else [])"
proof -
  obtain N1 n where N1: "N' = add_entry N1 d name i" "ns_dirs N1 = ns_dirs N @ replicate n dir_new" "d < length (ns_dirs N)"
    using assms(1) by (auto simp: created_def grows_def)
  have "x < length (ns_dirs N) + n" using assms(2) N1 by (simp add: add_entry_def)
  then show ?thesis using N1 by (auto simp: add_entry_def nth_append nth_list_update dir_new_def)
qed

lemma created_tree:
  assumes t: "tree_ok N" and cr: "created N d name i N'"
  shows "tree_ok N'"
proof -
  note e = created_entries [OF cr] and f = created_fields [OF cr]
  have d: "d < length (ns_dirs N)" "\<not> has_entry name (entries N d)" "\<And>k. i = InDirectory k \<Longrightarrow> k = length (ns_dirs N)"
    using cr by (auto simp: created_def)
  have ne: "0 < length (ns_dirs N)" using t by (simp add: tree_ok_def)
  have old: "k < length (ns_dirs N)" if "(n, InDirectory k) \<in> set (entries N x)" "x < length (ns_dirs N)" for n k x
    using tree_entry(1) [OF t that(2,1)] by (simp add: inode_object_def)
  have "distinct (map fst (entries N' x)) \<and> (\<forall>(n, j) \<in> set (entries N' x). object_ok N' (inode_object j) \<and> j \<noteq> InDirectory 0)"
    if x: "x < length (ns_dirs N')" for x
  proof (cases "x < length (ns_dirs N)")
    case True
    have "distinct (map fst (entries N x))" using t True by (auto simp: tree_ok_def)
    moreover have "object_ok N' (inode_object j) \<and> j \<noteq> InDirectory 0" if "(n, j) \<in> set (entries N x)" for n j
      using tree_entry [OF t True that] created_object_ok [OF cr] by blast
    moreover have "object_ok N' (inode_object i) \<and> i \<noteq> InDirectory 0" using created_new_ok [OF cr] d(3) [of 0] ne by auto
    ultimately show ?thesis using e [OF x] d(2) True by (auto simp: has_entry_fst)
  next
    case False
    then show ?thesis using e [OF x] d(1) by auto
  qed
  moreover have "x = x' \<and> n = n'" if x: "x < length (ns_dirs N')" "x' < length (ns_dirs N')"
    and m: "(n, InDirectory k) \<in> set (entries N' x)" "(n', InDirectory k) \<in> set (entries N' x')" for x x' n n' k
    using m e [OF x(1)] e [OF x(2)] old tree_unique [OF t] d(1,3)
    by (auto split: if_splits) (metis less_irrefl)+
  moreover have "has_entry ''proc'' (entries N 0)" using t by (simp add: tree_ok_def)
  then have "has_entry ''proc'' (entries N' 0)"
    using e [OF less_le_trans [OF ne f(6)]] ne by (cases "d = 0") (auto simp: has_entry_fst)
  moreover have "ns_dirs N' \<noteq> []" using ne f(6) by auto
  moreover have "ns_mounts N' = [(''/proc'', ProcDir)]" using t f(1) by (simp add: tree_ok_def)
  ultimately show ?thesis unfolding tree_ok_def by blast
qed

text \<open>What the new entry changes for a path.\<close>

lemma created_dir_lookup:
  assumes cr: "created N d name i N'" and ok: "dir_ok N dir"
  shows "dir_lookup E N' dir c = (if dir = TmpDir d \<and> c = name then Inr (inode_object i) else dir_lookup E N dir c)"
    "dir_lookup E N (TmpDir d) name = Inl ENOENT"
proof -
  have "\<not> has_entry name (entries N d)" using cr by (auto simp: created_def)
  then have n: "find_entry name (entries N d) = None" by (simp add: find_entry_None)
  then show "dir_lookup E N (TmpDir d) name = Inl ENOENT" by (simp add: dir_lookup_def tmp_dir_lookup_def)
  show "dir_lookup E N' dir c = (if dir = TmpDir d \<and> c = name then Inr (inode_object i) else dir_lookup E N dir c)"
  proof (cases dir)
    case (TmpDir x)
    have x: "x < length (ns_dirs N)" "x < length (ns_dirs N')" using ok TmpDir created_fields(6) [OF cr] by auto
    show ?thesis using created_entries [OF cr x(2)] x n
      by (auto simp: TmpDir dir_lookup_def tmp_dir_lookup_def find_entry_append find_entry_single split: option.split)
  qed (simp_all add: dir_lookup_def)
qed

lemma walk_new:
  assumes t: "tree_ok N" and cr: "created N d name i N'" and w: "walk_root E N cs0 = Some (TmpDir d)"
    and m: "path_of (cs0 @ [name]) \<noteq> ''/proc''"
  shows "walk_root E N' cs = (if cs = cs0 @ [name] then (case i of InDirectory k \<Rightarrow> Some (TmpDir k) | _ \<Rightarrow> None) else walk_root E N cs)"
proof (induction cs rule: rev_induct)
  case (snoc c cs)
  note t' = created_tree [OF t cr]
  have root: "dir_ok N (TmpDir 0)" using t by (auto simp: tree_ok_def)
  have mt: "bt_get (ns_mounts N') p = bt_get (ns_mounts N) p" for p by (simp add: created_fields [OF cr])
  have none: "walk_root E N (cs0 @ [name]) = None"
    using w created_dir_lookup(2) [OF cr root] by (simp add: walk_snoc enter_def)
  have new: "enter E N' (TmpDir d) (foldl build_path ''/'' cs0) name = Some (inode_object i)"
    using created_dir_lookup(1) [OF cr walk_ok [OF t root w], of E name] m
    by (simp add: enter_def mount_proc [OF t'] path_of_def)
  show ?case
  proof (cases "cs = cs0 @ [name]")
    case True
    have "dir_lookup E N' (TmpDir k) c = Inl ENOENT" if "i = InDirectory k" for k
      using cr that created_entries [OF cr, of k] created_new_ok [OF cr]
      by (auto simp: created_def dir_lookup_def tmp_dir_lookup_def inode_object_def find_entry_def)
    moreover have "walk_root E N' cs = (case i of InDirectory k \<Rightarrow> Some (TmpDir k) | _ \<Rightarrow> None)" using snoc True by simp
    ultimately have "walk_root E N' (cs @ [c]) = None"
      by (subst walk_snoc) (simp add: enter_def split: tmpfs_inode.split)
    moreover have "walk_root E N (cs @ [c]) = None" by (subst walk_snoc) (simp only: True none option.case)
    ultimately show ?thesis using True by simp
  next
    case False
    then have IH: "walk_root E N' cs = walk_root E N cs" using snoc by simp
    show ?thesis
    proof (cases "walk_root E N cs")
      case None
      then show ?thesis using IH w by (auto simp: walk_snoc)
    next
      case (Some dir)
      have en: "enter E N' dir cur c = enter E N dir cur c" if "\<not> (dir = TmpDir d \<and> c = name)" for cur
        using created_dir_lookup(1) [OF cr walk_ok [OF t root Some], of E c] that
        unfolding enter_def mt by (auto split: sum.split)
      show ?thesis
      proof (cases "dir = TmpDir d \<and> c = name")
        case True
        then have "cs = cs0" using walk_unique [OF t] Some w by blast
        then show ?thesis using True Some IH new
          by (auto simp: walk_snoc inode_object_def split: tmpfs_inode.split)
      next
        case False
        then have "cs @ [c] \<noteq> cs0 @ [name]" using Some w by auto
        moreover have "walk_root E N' (cs @ [c]) = walk_root E N (cs @ [c])"
          unfolding walk_snoc IH Some by (simp add: en [OF False])
        ultimately show ?thesis by auto
      qed
    qed
  qed
qed simp

lemma resolve_new:
  assumes t: "tree_ok N" and cr: "created N d name i N'" and w: "walk_root E N cs0 = Some (TmpDir d)"
    and m: "path_of (cs0 @ [name]) \<noteq> ''/proc''" and cs: "cs \<noteq> []"
  shows "resolve_path E N' (TmpDir 0) ''/'' cs =
    (if cs = cs0 @ [name] then Inr (inode_object i) else resolve_path E N (TmpDir 0) ''/'' cs)"
proof -
  obtain ds c where ds: "cs = ds @ [c]" using cs by (metis rev_exhaust)
  have root: "dir_ok N (TmpDir 0)" using t by (auto simp: tree_ok_def)
  have mt: "bt_get (ns_mounts N') p = bt_get (ns_mounts N) p" for p by (simp add: created_fields [OF cr])
  have dl: "dir_lookup E N' dir c = (if dir = TmpDir d \<and> c = name then Inr (inode_object i) else dir_lookup E N dir c)"
    if "walk_root E N ds = Some dir" for dir
    by (rule created_dir_lookup(1) [OF cr walk_ok [OF t root that]])
  show ?thesis
  proof (cases "ds = cs0 @ [name]")
    case True
    have none: "walk_root E N ds = None" using w created_dir_lookup(2) [OF cr root] by (simp add: True walk_snoc enter_def)
    have W: "walk_root E N' ds = (case i of InDirectory k \<Rightarrow> Some (TmpDir k) | _ \<Rightarrow> None)"
      using walk_new [OF t cr w m, of ds] True by simp
    have "dir_lookup E N' (TmpDir k) c = Inl ENOENT" if "i = InDirectory k" for k
      using cr that created_entries [OF cr, of k] created_new_ok [OF cr]
      by (auto simp: created_def dir_lookup_def tmp_dir_lookup_def inode_object_def find_entry_def)
    then have "resolve_path E N' (TmpDir 0) ''/'' cs = Inl ENOENT"
      unfolding ds resolve_walk W by (simp add: enter_def split: tmpfs_inode.split)
    moreover have "resolve_path E N (TmpDir 0) ''/'' cs = Inl ENOENT" unfolding ds resolve_walk none by simp
    ultimately show ?thesis using ds True by simp
  next
    case False
    then have W: "walk_root E N' ds = walk_root E N ds" using walk_new [OF t cr w m, of ds] by simp
    show ?thesis
    proof (cases "walk_root E N ds")
      case None
      then have "resolve_path E N' (TmpDir 0) ''/'' cs = resolve_path E N (TmpDir 0) ''/'' cs"
        unfolding ds resolve_walk W by simp
      moreover have "cs \<noteq> cs0 @ [name]" using None w ds by auto
      ultimately show ?thesis by simp
    next
      case (Some dir)
      have same: "ds = cs0" if "dir = TmpDir d" using walk_unique [OF t] Some w that by blast
      have "path_of cs \<noteq> ''/proc''" if "cs = cs0 @ [name]" using m that by simp
      then have "resolve_path E N' (TmpDir 0) ''/'' cs = Inr (inode_object i)" if "dir = TmpDir d \<and> c = name"
        unfolding ds resolve_walk W using that Some dl [OF Some] same ds
        by (simp add: enter_def mt mount_proc [OF t] path_of_def)
      moreover have "resolve_path E N' (TmpDir 0) ''/'' cs = resolve_path E N (TmpDir 0) ''/'' cs" if "\<not> (dir = TmpDir d \<and> c = name)"
      proof -
        have "dir_lookup E N' dir c = dir_lookup E N dir c" using dl [OF Some] that by auto
        then have "enter E N' dir cur c = enter E N dir cur c" for cur unfolding enter_def mt by simp
        then show ?thesis unfolding ds resolve_walk W Some by simp
      qed
      moreover have "cs = cs0 @ [name] \<longleftrightarrow> dir = TmpDir d \<and> c = name" using Some same w ds by auto
      ultimately show ?thesis by simp
    qed
  qed
qed

text \<open>The three operations that make an entry.\<close>

lemma create_file_created:
  assumes "tmp_create_file N d name = (Inr obj, N')" and "d < length (ns_dirs N)"
  shows "created N d name (InFile (TmpFile (length (ns_files N)))) N'" "ns_files N' = ns_files N @ [file_new]"
proof -
  let ?N1 = "N\<lparr>ns_files := ns_files N @ [file_new]\<rparr>"
  have "grows N ?N1" by (auto simp: grows_def intro: exI [of _ "0 :: nat"] exI [of _ "1 :: nat"])
  with assms show "created N d name (InFile (TmpFile (length (ns_files N)))) N'"
    unfolding created_def by (intro exI [of _ ?N1]) (auto simp: tmp_create_file_def inode_object_def Let_def split: if_splits)
  show "ns_files N' = ns_files N @ [file_new]" using assms(1) by (auto simp: tmp_create_file_def add_entry_def Let_def split: if_splits)
qed

lemma create_dir_created:
  assumes "tmp_create_dir N d name = (Inr obj, N')" and "d < length (ns_dirs N)"
  shows "created N d name (InDirectory (length (ns_dirs N))) N'" "ns_files N' = ns_files N"
proof -
  let ?N1 = "N\<lparr>ns_dirs := ns_dirs N @ [dir_new]\<rparr>"
  have "grows N ?N1" by (auto simp: grows_def intro: exI [of _ "0 :: nat"] exI [of _ "1 :: nat"])
  with assms show "created N d name (InDirectory (length (ns_dirs N))) N'"
    unfolding created_def by (intro exI [of _ ?N1]) (auto simp: tmp_create_dir_def inode_object_def Let_def split: if_splits)
  show "ns_files N' = ns_files N" using assms(1) by (auto simp: tmp_create_dir_def add_entry_def Let_def split: if_splits)
qed

lemma create_pipe_created:
  assumes "tmp_create_pipe Q N d name = (Inr obj, N')" and "d < length (ns_dirs N)"
  shows "created N d name (InPipe (length (ns_pipes N))) N'" "ns_files N' = ns_files N" "ns_pipes N' = ns_pipes N @ [pipe_new Q]"
proof -
  let ?N1 = "N\<lparr>ns_pipes := ns_pipes N @ [pipe_new Q]\<rparr>"
  have "grows N ?N1" by (auto simp: grows_def intro: exI [of _ "0 :: nat"])
  with assms show "created N d name (InPipe (length (ns_pipes N))) N'"
    unfolding created_def by (intro exI [of _ ?N1]) (auto simp: tmp_create_pipe_def inode_object_def Let_def split: if_splits)
  show "ns_files N' = ns_files N" "ns_pipes N' = ns_pipes N @ [pipe_new Q]"
    using assms(1) by (auto simp: tmp_create_pipe_def add_entry_def Let_def split: if_splits)
qed

lemma create_static_created:
  assumes "tmp_create_static_file N d name data = (Inr obj, N')" and "d < length (ns_dirs N)"
  shows "created N d name (InFile (StaticFile data)) N'" "ns_files N' = ns_files N"
proof -
  have "grows N N" by (auto simp: grows_def intro: exI [of _ "0 :: nat"])
  with assms show "created N d name (InFile (StaticFile data)) N'"
    unfolding created_def by (intro exI [of _ N]) (auto simp: tmp_create_static_file_def inode_object_def split: if_splits)
  show "ns_files N' = ns_files N" using assms(1) by (auto simp: tmp_create_static_file_def add_entry_def split: if_splits)
qed

section \<open>Names\<close>

lemma split_from_not_Nil: "split_from acc cs \<noteq> []"
  by (induction acc cs rule: split_from.induct) auto

lemma join_split_from: "join_path (split_from acc cs) = acc @ cs"
proof (induction acc cs rule: split_from.induct)
  case (2 acc c cs)
  show ?case
  proof (cases "c = CHR ''/''")
    case True
    then show ?thesis using 2 split_from_not_Nil [of "[]" cs] by (cases "split_from [] cs") auto
  next
    case False
    then show ?thesis using 2 by simp
  qed
qed simp

lemma join_split: "join_path (split_path p) = p"
  by (simp add: split_path_def join_split_from)

lemma split_absolute:
  assumes "check_absolute_path p"
  obtains ns where "split_path p = [] # ns" "ns \<noteq> []"
  using assms split_from_not_Nil by (cases p) (auto simp: check_absolute_path_def split_path_def)

text \<open>The names on a path, when none of them is empty.\<close>

definition proper_path :: "string \<Rightarrow> bool" where
  "proper_path p \<longleftrightarrow> check_absolute_path p \<and> [] \<notin> set (tl (split_path p))"

lemma path_of_names:
  "ns \<noteq> [] \<Longrightarrow> [] \<notin> set ns \<Longrightarrow> path_of ns = join_path ([] # ns)"
proof (induction ns rule: rev_nonempty_induct)
  case (snoc c ns)
  have j: "join_path (xs @ [c]) = join_path xs @ ''/'' @ c" if "xs \<noteq> []" for xs
    using that by (induction xs rule: join_path.induct) auto
  have "path_of ns \<noteq> ''/''"
  proof
    assume a: "path_of ns = ''/''"
    obtain ms m where "ns = ms @ [m]" using snoc.hyps by (metis rev_exhaust)
    moreover have "m \<noteq> []" using snoc.prems \<open>ns = ms @ [m]\<close> by auto
    ultimately show False using a by (auto simp: path_of_def build_path_def append_eq_Cons_conv split: if_splits)
  qed
  then show ?case using snoc j [of "[] # ns"] by (simp add: path_of_def build_path_def)
qed (simp add: path_of_def build_path_def)

lemma proper_pathE:
  assumes "proper_path p"
  obtains ns c where "split_path p = [] # ns @ [c]" "[] \<notin> set ns" "c \<noteq> []" "p = path_of (ns @ [c])"
    "parent_and_name p = (if ns = [] then ''/'' else path_of ns, c)"
proof -
  obtain xs where xs: "split_path p = [] # xs" "xs \<noteq> []" using assms split_absolute by (auto simp: proper_path_def)
  then obtain ns c where n: "xs = ns @ [c]" by (metis rev_exhaust)
  have e: "[] \<notin> set xs" using assms xs by (simp add: proper_path_def)
  have "p = path_of xs" using path_of_names [OF xs(2) e] join_split [of p] xs(1) by simp
  moreover have "parent_and_name p = (if ns = [] then ''/'' else path_of ns, c)"
    using xs n e path_of_names [of ns] by (auto simp: parent_and_name_def Let_def butlast_append)
  ultimately show ?thesis using that xs(1) n e by auto
qed

lemma split_path_of:
  assumes "proper_path p" and "split_path p = [] # ns @ [c]" and "ns \<noteq> []" "[] \<notin> set ns"
  shows "split_path (path_of ns) = [] # ns"
proof -
  have no: "CHR ''/'' \<notin> set x" if "x \<in> set (split_from acc s)" "CHR ''/'' \<notin> set acc" for x acc s
    using that by (induction acc s rule: split_from.induct) (auto split: if_splits)
  have sl: "CHR ''/'' \<notin> set x" if "x \<in> set ns" for x
    using no [of x "[]" p] assms(2) that by (auto simp: split_path_def)
  have word: "split_from acc (w @ s) = split_from (acc @ w) s" if "CHR ''/'' \<notin> set w" for acc w s
    using that by (induction w arbitrary: acc) auto
  have "split_from acc (join_path (w # ws)) = (acc @ w) # ws" if "\<And>x. x \<in> set (w # ws) \<Longrightarrow> CHR ''/'' \<notin> set x" for acc w ws
    using that
  proof (induction ws arbitrary: acc w)
    case Nil
    then show ?case using word [of w acc "[]"] by simp
  next
    case (Cons v ws)
    have "split_from acc (w @ ''/'' @ join_path (v # ws)) = (acc @ w) # split_from [] (join_path (v # ws))"
      using word [of w acc] Cons.prems by simp
    with Cons.IH [of v "[]"] Cons.prems show ?case by simp
  qed
  then have "split_from [] (join_path ([] # ns)) = [] # ns" using sl by fastforce
  then show ?thesis by (simp add: split_path_def path_of_names [OF assms(3,4)])
qed

text \<open>Looking up the directory of a path is walking along its names but the last.\<close>

lemma lookup_dir_walk:
  assumes p: "proper_path p" and n: "split_path p = [] # ns @ [c]" and e: "[] \<notin> set ns"
  shows "lookup_dir E N (if ns = [] then ''/'' else path_of ns) = Inr dir \<longleftrightarrow> walk_root E N ns = Some dir"
proof (cases ns rule: rev_cases)
  case Nil
  then show ?thesis by (auto simp: lookup_dir_def lookup_named_object_def check_absolute_path_def)
next
  case (snoc ms m)
  have ne: "ns \<noteq> []" using snoc by simp
  have j: "path_of ns = ''/'' @ join_path ns" using path_of_names [OF ne e] ne by (cases ns) auto
  have "join_path (ms @ [m]) \<noteq> []" using e snoc by (induction ms rule: join_path.induct) auto
  then have "path_of ns \<noteq> ''/''" "check_absolute_path (path_of ns)" using j snoc by (auto simp: check_absolute_path_def)
  then have "lookup_named_object E N (path_of ns) = resolve_path E N (TmpDir 0) ''/'' ns"
    by (simp add: lookup_named_object_def split_path_of [OF p n ne e])
  then show ?thesis unfolding snoc
    by (auto simp: lookup_dir_def resolve_walk walk_snoc split: option.split named_object.split)
qed

text \<open>A new entry changes the lookup of its path only.\<close>

lemma created_lookup:
  assumes t: "tree_ok N" and p: "proper_path p" and n: "split_path p = [] # ns @ [c]" and e: "[] \<notin> set ns"
    and w: "walk_root E N ns = Some (TmpDir d)" and cr: "created N d c i N'"
  shows "lookup_named_object E N' q = (if q = p then Inr (inode_object i) else lookup_named_object E N q)"
proof -
  have abs: "check_absolute_path p" and ne: "[] \<notin> set (ns @ [c])" using p n by (auto simp: proper_path_def)
  have pp: "p = path_of (ns @ [c])" using path_of_names [of "ns @ [c]"] ne join_split [of p] n by simp
  have m: "path_of (ns @ [c]) \<noteq> ''/proc''"
  proof
    assume "path_of (ns @ [c]) = ''/proc''"
    then have "[] # ns @ [c] = split_path ''/proc''" using pp n by simp
    then have "ns = []" "c = ''proc''" by (auto simp: split_path_def append_eq_Cons_conv)
    then show False using w t cr by (auto simp: tree_ok_def created_def)
  qed
  show ?thesis
  proof (cases "check_absolute_path q \<and> q \<noteq> ''/''")
    case True
    then obtain xs where xs: "split_path q = [] # xs" "xs \<noteq> []" using split_absolute by blast
    have "q = p \<longleftrightarrow> xs = ns @ [c]" using xs n join_split [of p] join_split [of q] by (metis list.inject)
    with resolve_new [OF t cr w m xs(2)] True show ?thesis by (simp add: lookup_named_object_def xs(1))
  next
    case False
    have "p \<noteq> ''/''" using n e ne by (auto simp: split_path_def)
    with False abs show ?thesis by (auto simp: lookup_named_object_def)
  qed
qed

lemma create_lookup_dir:
  assumes t: "tree_ok N" and p: "proper_path p" and l: "lookup_dir E N (fst (parent_and_name p)) = Inr (TmpDir d)"
    and cr: "created N d (snd (parent_and_name p)) i N'"
  shows "lookup_named_object E N' q = (if q = p then Inr (inode_object i) else lookup_named_object E N q)"
    "d < length (ns_dirs N)"
proof -
  obtain ns c where n: "split_path p = [] # ns @ [c]" "[] \<notin> set ns"
    and pn: "parent_and_name p = (if ns = [] then ''/'' else path_of ns, c)" using proper_pathE [OF p] by metis
  have w: "walk_root E N ns = Some (TmpDir d)" unfolding lookup_dir_walk [OF p n, symmetric] using l pn by simp
  show "lookup_named_object E N' q = (if q = p then Inr (inode_object i) else lookup_named_object E N q)"
    using created_lookup [OF t p n w] cr pn by simp
  show "d < length (ns_dirs N)" using cr by (auto simp: created_def)
qed

end
