(* ===== verification/NamingCalls.thy ===== *)
theory NamingCalls
  imports NamingProps "HOL-Library.Multiset"
begin

text \<open>
  The calls of the naming service: every state that calls lead to from the initial one has valid
  references, and what the calls promise of paths, handles, files and directories.
\<close>

section \<open>Calls keep references valid\<close>

lemma lookup_ok:
  assumes t: "tree_ok N" and l: "lookup_named_object E N p = Inr obj"
  shows "object_ok N obj"
proof -
  have root: "dir_ok N (TmpDir 0)" using t by (auto simp: tree_ok_def)
  show ?thesis
  proof (cases "p = ''/''")
    case True
    then show ?thesis using l root by (auto simp: lookup_named_object_def split: if_splits)
  next
    case False
    have abs: "check_absolute_path p" using l by (auto simp: lookup_named_object_def split: if_splits)
    obtain xs where xs: "split_path p = [] # xs" "xs \<noteq> []" using split_absolute [OF abs] by blast
    obtain cs c where cs: "xs = cs @ [c]" using xs(2) by (metis rev_exhaust)
    have r: "resolve_path E N (TmpDir 0) ''/'' (cs @ [c]) = Inr obj"
      using l abs False xs cs by (simp add: lookup_named_object_def)
    obtain d where "walk_root E N cs = Some d" "enter E N d (foldl build_path ''/'' cs) c = Some obj"
      using r by (auto simp: resolve_walk split: option.splits)
    with enter_ok [OF t walk_ok [OF t root]] show ?thesis by blast
  qed
qed

lemma lookup_dir_ok: "tree_ok N \<Longrightarrow> lookup_dir E N p = Inr dir \<Longrightarrow> dir_ok N dir"
  using lookup_ok [of N E p "DirectoryObject dir"]
  by (auto simp: lookup_dir_def split: sum.splits named_object.splits)

lemma created_pipes: "created N d name i N' \<Longrightarrow> length (ns_pipes N) \<le> length (ns_pipes N')"
  by (auto simp: created_def grows_def add_entry_def)

text \<open>References depend on the numbers of objects only.\<close>

lemma object_ok_lengths:
  assumes "length (ns_files N') = length (ns_files N)" "length (ns_dirs N') = length (ns_dirs N)"
    "length (ns_pipes N') = length (ns_pipes N)"
  shows "object_ok N' = object_ok N"
proof
  fix obj
  have "file_ok N' f = file_ok N f" for f using assms by (cases f) auto
  moreover have "dir_ok N' d = dir_ok N d" for d using assms by (cases d) auto
  ultimately show "object_ok N' obj = object_ok N obj" using assms by (cases obj) auto
qed

lemma tree_ok_cong:
  assumes "length (ns_files N') = length (ns_files N)" "ns_dirs N' = ns_dirs N" "length (ns_pipes N') = length (ns_pipes N)"
    and "ns_mounts N' = ns_mounts N"
  shows "tree_ok N' = tree_ok N"
proof -
  have "object_ok N' = object_ok N" using assms by (intro object_ok_lengths) simp_all
  then show ?thesis unfolding tree_ok_def using assms by simp
qed

lemma handles_ok_mono:
  assumes h: "handles_ok N" and o: "\<And>obj. object_ok N obj \<Longrightarrow> object_ok N' obj"
    and eq: "ns_open_handles N' = ns_open_handles N" "ns_free_handles N' = ns_free_handles N"
  shows "handles_ok N'"
proof -
  have "\<exists>oo. obj = Some oo \<and> object_ok N' (oo_object oo) \<and> oo_pos oo < 2 ^ 64"
    if "(k, obj) \<in> set (ns_open_handles N)" for k obj
    using h o that unfolding handles_ok_def by blast
  then show ?thesis using h eq unfolding handles_ok_def by auto
qed

lemma created_ok:
  assumes ok: "naming_ok N" and cr: "created N d name i N'"
  shows "naming_ok N'"
proof -
  note f = created_fields [OF cr]
  have "tree_ok N'" using ok created_tree [OF _ cr] by (simp add: naming_ok_def)
  moreover have "files_ok N'" using ok f(5) by (auto simp: naming_ok_def files_ok_def file_new_def stat_zeroed_def)
  moreover have "handles_ok N'" using handles_ok_mono [OF _ created_object_ok [OF cr] f(2,3)] ok by (simp add: naming_ok_def)
  ultimately show ?thesis by (simp add: naming_ok_def)
qed

text \<open>A call that makes an object adds one entry, or changes nothing.\<close>

definition created_one :: "'q naming \<Rightarrow> 'q naming \<Rightarrow> bool" where
  "created_one N N' \<longleftrightarrow> N' = N \<or> (\<exists>d name i. created N d name i N')"

lemma created_one_ok: "naming_ok N \<Longrightarrow> created_one N N' \<Longrightarrow> naming_ok N'"
  by (auto simp: created_one_def intro: created_ok)

lemma created_one_pipes: "created_one N N' \<Longrightarrow> length (ns_pipes N) \<le> length (ns_pipes N')"
  by (auto simp: created_one_def intro: created_pipes)

lemma create_file_one:
  assumes ok: "dir_ok N dir" and c: "create_file N dir name = (r, N')"
  shows "created_one N N'" "\<And>obj. r = Inr obj \<Longrightarrow>
    \<exists>d. dir = TmpDir d \<and> created N d name (InFile (TmpFile (length (ns_files N)))) N' \<and> ns_files N' = ns_files N @ [file_new]"
proof -
  show *: "\<And>obj. r = Inr obj \<Longrightarrow>
    \<exists>d. dir = TmpDir d \<and> created N d name (InFile (TmpFile (length (ns_files N)))) N' \<and> ns_files N' = ns_files N @ [file_new]"
    using create_file_created ok c by (cases dir) (auto simp: create_file_def)
  show "created_one N N'"
  proof (cases r)
    case (Inl e)
    then show ?thesis using c
      by (cases dir) (auto simp: create_file_def tmp_create_file_def created_one_def Let_def split: if_splits)
  qed (use * in \<open>auto simp: created_one_def\<close>)
qed

lemma create_dir_one:
  assumes ok: "dir_ok N dir" and c: "create_dir N dir name = (r, N')"
  shows "created_one N N'" "\<And>obj. r = Inr obj \<Longrightarrow>
    \<exists>d. dir = TmpDir d \<and> created N d name (InDirectory (length (ns_dirs N))) N' \<and> ns_files N' = ns_files N"
proof -
  show *: "\<And>obj. r = Inr obj \<Longrightarrow>
    \<exists>d. dir = TmpDir d \<and> created N d name (InDirectory (length (ns_dirs N))) N' \<and> ns_files N' = ns_files N"
    using create_dir_created ok c by (cases dir) (auto simp: create_dir_def)
  show "created_one N N'"
  proof (cases r)
    case (Inl e)
    then show ?thesis using c
      by (cases dir) (auto simp: create_dir_def tmp_create_dir_def created_one_def Let_def split: if_splits)
  qed (use * in \<open>auto simp: created_one_def\<close>)
qed

lemma create_pipe_one:
  assumes ok: "dir_ok N dir" and c: "create_pipe Q N dir name = (r, N')"
  shows "created_one N N'" "\<And>obj. r = Inr obj \<Longrightarrow>
    \<exists>d. dir = TmpDir d \<and> created N d name (InPipe (length (ns_pipes N))) N' \<and> ns_pipes N' = ns_pipes N @ [pipe_new Q]"
proof -
  show *: "\<And>obj. r = Inr obj \<Longrightarrow>
    \<exists>d. dir = TmpDir d \<and> created N d name (InPipe (length (ns_pipes N))) N' \<and> ns_pipes N' = ns_pipes N @ [pipe_new Q]"
    using create_pipe_created ok c by (cases dir) (auto simp: create_pipe_def)
  show "created_one N N'"
  proof (cases r)
    case (Inl e)
    then show ?thesis using c
      by (cases dir) (auto simp: create_pipe_def tmp_create_pipe_def created_one_def Let_def split: if_splits)
  qed (use * in \<open>auto simp: created_one_def\<close>)
qed

lemma touch_cases:
  assumes t: "tree_ok N" and c: "touch E N p = (r, N')"
  shows "created_one N N'" "\<And>v. r = Inr v \<Longrightarrow> \<exists>d. lookup_dir E N (fst (parent_and_name p)) = Inr (TmpDir d) \<and>
    created N d (snd (parent_and_name p)) (InFile (TmpFile (length (ns_files N)))) N' \<and> ns_files N' = ns_files N @ [file_new]"
proof -
  show "created_one N N'"
    using c create_file_one(1) [OF lookup_dir_ok [OF t]]
    by (fastforce simp: touch_def created_one_def split: prod.splits sum.splits)
  show "\<exists>d. lookup_dir E N (fst (parent_and_name p)) = Inr (TmpDir d) \<and>
    created N d (snd (parent_and_name p)) (InFile (TmpFile (length (ns_files N)))) N' \<and> ns_files N' = ns_files N @ [file_new]"
    if "r = Inr v" for v
    using c that create_file_one(2) [OF lookup_dir_ok [OF t]]
    by (fastforce simp: touch_def split: prod.splits sum.splits)
qed

lemma mkdir_cases:
  assumes t: "tree_ok N" and c: "mkdir E N p = (r, N')"
  shows "created_one N N'" "\<And>v. r = Inr v \<Longrightarrow> \<exists>d. lookup_dir E N (fst (parent_and_name p)) = Inr (TmpDir d) \<and>
    created N d (snd (parent_and_name p)) (InDirectory (length (ns_dirs N))) N' \<and> ns_files N' = ns_files N"
proof -
  show "created_one N N'"
    using c create_dir_one(1) [OF lookup_dir_ok [OF t]]
    by (fastforce simp: mkdir_def created_one_def split: prod.splits sum.splits)
  show "\<exists>d. lookup_dir E N (fst (parent_and_name p)) = Inr (TmpDir d) \<and>
    created N d (snd (parent_and_name p)) (InDirectory (length (ns_dirs N))) N' \<and> ns_files N' = ns_files N"
    if "r = Inr v" for v
    using c that create_dir_one(2) [OF lookup_dir_ok [OF t]]
    by (fastforce simp: mkdir_def split: prod.splits sum.splits)
qed

lemma mkfifo_cases:
  assumes t: "tree_ok N" and c: "mkfifo Q E N p = (r, N')"
  shows "created_one N N'" "\<And>v. r = Inr v \<Longrightarrow> \<exists>d. lookup_dir E N (fst (parent_and_name p)) = Inr (TmpDir d) \<and>
    created N d (snd (parent_and_name p)) (InPipe (length (ns_pipes N))) N' \<and> ns_pipes N' = ns_pipes N @ [pipe_new Q]"
proof -
  show "created_one N N'"
    using c create_pipe_one(1) [OF lookup_dir_ok [OF t]]
    by (fastforce simp: mkfifo_def created_one_def split: prod.splits sum.splits)
  show "\<exists>d. lookup_dir E N (fst (parent_and_name p)) = Inr (TmpDir d) \<and>
    created N d (snd (parent_and_name p)) (InPipe (length (ns_pipes N))) N' \<and> ns_pipes N' = ns_pipes N @ [pipe_new Q]"
    if "r = Inr v" for v
    using c that create_pipe_one(2) [OF lookup_dir_ok [OF t]]
    by (fastforce simp: mkfifo_def split: prod.splits sum.splits)
qed

section \<open>Handles\<close>

lemma find_free_from_Some:
  "find_free_from i vs = Some (k, ws) \<Longrightarrow>
    \<exists>j < length vs. k = i + j \<and> vs ! j = 0 \<and> ws = vs[j := 1] \<and> (\<forall>j' < j. vs ! j' \<noteq> 0)"
proof (induction i vs arbitrary: k ws rule: find_free_from.induct)
  case (2 i v vs)
  show ?case
  proof (cases "v = 0")
    case True
    then show ?thesis using "2.prems" by (auto intro: exI [of _ 0])
  next
    case False
    then obtain us where "find_free_from (i + 1) vs = Some (k, us)" "ws = v # us"
      using "2.prems" by (auto split: option.splits)
    with "2.IH" [OF False] obtain j where "j < length vs" "k = i + 1 + j" "vs ! j = 0" "us = vs[j := 1]" "\<forall>j' < j. vs ! j' \<noteq> 0"
      by blast
    then show ?thesis using False \<open>ws = v # us\<close> by (intro exI [of _ "Suc j"]) (auto simp: less_Suc_eq_0_disj)
  qed
qed simp

lemma find_free_from_None: "find_free_from i vs = None \<longleftrightarrow> 0 \<notin> set vs"
  by (induction i vs rule: find_free_from.induct) (auto split: option.splits)

lemma allocate_handle_ok:
  assumes ok: "naming_ok N" and oo: "object_ok N (oo_object oo)" "oo_pos oo < 2 ^ 64"
    and a: "allocate_handle N oo = (r, N')"
  shows "naming_ok N'" "ns_pipes N' = ns_pipes N"
proof -
  have H: "handles_ok N" using ok by (simp add: naming_ok_def)
  show "ns_pipes N' = ns_pipes N" using a by (auto simp: allocate_handle_def find_free_handle_def split: option.splits)
  show "naming_ok N'"
  proof (cases "find_free_from 0 (ns_free_handles N)")
    case None
    then show ?thesis using ok a by (auto simp: allocate_handle_def find_free_handle_def)
  next
    case (Some s)
    obtain h fs where "s = (h, fs)" by (cases s)
    then have h: "h < length (ns_free_handles N)" "ns_free_handles N ! h = 0" "fs = (ns_free_handles N)[h := 1]"
      using find_free_from_Some [of 0 "ns_free_handles N" h fs] Some by auto
    have N': "N' = N\<lparr>ns_free_handles := fs, ns_open_handles := ns_open_handles N @ [(h, Some oo)]\<rparr>"
      using a Some \<open>s = (h, fs)\<close> by (simp add: allocate_handle_def find_free_handle_def)
    have o: "object_ok N' = object_ok N" by (rule object_ok_lengths) (simp_all add: N')
    have t: "tree_ok N'" using ok tree_ok_cong [of N' N] by (simp add: naming_ok_def N')
    have new: "h \<notin> fst ` set (ns_open_handles N)" "h < MAX_OPEN_OBJECTS" using H h by (auto simp: handles_ok_def)
    have "handles_ok N'" unfolding handles_ok_def o using H new oo h
      by (auto simp: handles_ok_def N' nth_list_update)
    with t ok show ?thesis by (simp add: naming_ok_def files_ok_def N')
  qed
qed

lemma swap_remove_mset:
  assumes i: "i < length xs"
  shows "mset (xs ! i # swap_remove xs i) = mset xs"
proof (cases xs rule: rev_cases)
  case (snoc ys z)
  show ?thesis
  proof (cases "i = length ys")
    case True
    then show ?thesis by (simp add: snoc swap_remove_def)
  next
    case False
    then have "i < length ys" using i snoc by simp
    then show ?thesis by (simp add: snoc swap_remove_def nth_append list_update_append mset_update)
  qed
qed (use i in simp)

lemma swap_remove_entries:
  assumes d: "distinct (map fst xs)" and i: "i < length xs" "fst (xs ! i) = h"
  shows "distinct (map fst (swap_remove xs i))" "set (swap_remove xs i) = {e \<in> set xs. fst e \<noteq> h}"
proof -
  have "mset (map fst (xs ! i # swap_remove xs i)) = mset (map fst xs)" using swap_remove_mset [OF i(1)] by (metis mset_map)
  then have d2: "distinct (map fst (xs ! i # swap_remove xs i))" using d mset_eq_imp_distinct_iff by blast
  then show "distinct (map fst (swap_remove xs i))" by simp
  have s: "insert (xs ! i) (set (swap_remove xs i)) = set xs"
    using arg_cong [OF swap_remove_mset [OF i(1)], of set_mset] by simp
  have "h \<notin> fst ` set (swap_remove xs i)" using d2 i(2) by simp
  then have "fst e \<noteq> h" if "e \<in> set (swap_remove xs i)" for e using that by blast
  with i(2) show "set (swap_remove xs i) = {e \<in> set xs. fst e \<noteq> h}" unfolding s [symmetric] by blast
qed

lemma position_of_Some: "position_of P xs = Some i \<Longrightarrow> i < length xs \<and> P (xs ! i)"
  by (induction xs arbitrary: i) (auto split: if_splits)

lemma position_of_None: "position_of P xs = None \<longleftrightarrow> (\<forall>x \<in> set xs. \<not> P x)"
  by (induction xs) auto

lemma free_handle_ok:
  assumes ok: "naming_ok N" and f: "free_handle N fh = Inr (r, N')"
  shows "naming_ok N'" "ns_pipes N' = ns_pipes N"
proof -
  have H: "handles_ok N" using ok by (simp add: naming_ok_def)
  show "ns_pipes N' = ns_pipes N" using f by (auto simp: free_handle_def split: option.splits if_splits)
  show "naming_ok N'"
  proof (cases "position_of (\<lambda>(h, _). h = fh) (ns_open_handles N)")
    case None
    then show ?thesis using f ok by (simp add: free_handle_def)
  next
    case (Some i)
    let ?xs = "ns_open_handles N"
    have i: "i < length ?xs" "fst (?xs ! i) = fh" using position_of_Some [OF Some] by auto
    have N': "N' = N\<lparr>ns_open_handles := swap_remove ?xs i, ns_free_handles := (ns_free_handles N)[fh := 0]\<rparr>"
      using f Some by (auto simp: free_handle_def split: if_splits)
    have o: "object_ok N' = object_ok N" by (rule object_ok_lengths) (simp_all add: N')
    have "distinct (map fst ?xs)" using H by (simp add: handles_ok_def)
    note s = swap_remove_entries [OF this i]
    have "fst ` set (swap_remove ?xs i) = fst ` set ?xs - {fh}" unfolding s(2) by blast
    moreover have "fh < MAX_OPEN_OBJECTS" using H nth_mem [OF i(1)] i(2) by (auto simp: handles_ok_def)
    moreover have "\<forall>(k, obj) \<in> set (swap_remove ?xs i). k < MAX_OPEN_OBJECTS \<and>
        (\<exists>oo. obj = Some oo \<and> object_ok N (oo_object oo) \<and> oo_pos oo < 2 ^ 64)"
      using H unfolding handles_ok_def s(2) by blast
    ultimately have "handles_ok N'" unfolding handles_ok_def o using H s(1)
      by (simp add: N' handles_ok_def nth_list_update)
    moreover have "tree_ok N'" using ok tree_ok_cong [of N' N] by (simp add: naming_ok_def N')
    ultimately show ?thesis using ok by (simp add: naming_ok_def files_ok_def N')
  qed
qed

lemma set_pos_pipes: "ns_pipes (set_pos N h n) = ns_pipes N"
  by (simp add: set_pos_def)

lemma set_pos_ok:
  assumes ok: "naming_ok N" and n: "n < 2 ^ 64"
  shows "naming_ok (set_pos N h n)"
proof -
  have o: "object_ok (set_pos N h n) = object_ok N" by (rule object_ok_lengths) (simp_all add: set_pos_def)
  have f: "map fst (ns_open_handles (set_pos N h n)) = map fst (ns_open_handles N)" by (auto simp: set_pos_def)
  then have i: "fst ` set (ns_open_handles (set_pos N h n)) = fst ` set (ns_open_handles N)" by (metis set_map)
  have "handles_ok N" using ok by (simp add: naming_ok_def)
  moreover from this have "\<forall>(k, obj) \<in> set (ns_open_handles (set_pos N h n)). k < MAX_OPEN_OBJECTS \<and>
      (\<exists>oo. obj = Some oo \<and> object_ok N (oo_object oo) \<and> oo_pos oo < 2 ^ 64)"
    using n by (fastforce simp: handles_ok_def set_pos_def)
  ultimately have "handles_ok (set_pos N h n)" unfolding handles_ok_def o f i by (simp add: set_pos_def)
  moreover have "tree_ok (set_pos N h n)" using ok tree_ok_cong [of "set_pos N h n" N] by (simp add: naming_ok_def set_pos_def)
  ultimately show ?thesis using ok by (simp add: naming_ok_def files_ok_def set_pos_def)
qed

lemma lookup_opened_member:
  assumes "lookup_opened_object N h = Inr oo"
  shows "(h, Some oo) \<in> set (ns_open_handles N)"
  using assms by (auto simp: lookup_opened_object_def find_Some_iff split: option.splits) (metis nth_mem)

lemma lookup_opened_ok:
  assumes "naming_ok N" and "lookup_opened_object N h = Inr oo"
  shows "object_ok N (oo_object oo)" "oo_pos oo < 2 ^ 64" "h < MAX_OPEN_OBJECTS"
  using assms lookup_opened_member [OF assms(2)] by (auto simp: naming_ok_def handles_ok_def)

lemma find_key: "distinct (map fst xs) \<Longrightarrow> (h, v) \<in> set xs \<Longrightarrow> find (\<lambda>(k, _). k = h) xs = Some (h, v)"
proof (induction xs)
  case (Cons x xs)
  show ?case
  proof (cases "x = (h, v)")
    case False
    then have m: "(h, v) \<in> set xs" using Cons.prems(2) by simp
    then have "fst x \<noteq> h" using Cons.prems(1) image_eqI [of h fst "(h, v)" "set xs"] by auto
    then show ?thesis using Cons.IH Cons.prems(1) m by (simp add: case_prod_beta)
  qed simp
qed simp

lemma lookup_opened_iff:
  assumes "distinct (map fst (ns_open_handles N))"
  shows "lookup_opened_object N h = Inr oo \<longleftrightarrow> (h, Some oo) \<in> set (ns_open_handles N)"
proof
  assume "(h, Some oo) \<in> set (ns_open_handles N)"
  then have "find (\<lambda>(k, _). k = h) (ns_open_handles N) = Some (h, Some oo)" by (rule find_key [OF assms])
  then show "lookup_opened_object N h = Inr oo" by (simp add: lookup_opened_object_def)
qed (rule lookup_opened_member)

section \<open>Files\<close>

lemma tmp_file_write_eq:
  assumes "tmp_file_write f buf offset = Inr f'" and "st_size (file_stat f) = length (file_data f)"
    and "length (file_data f) < 2 ^ 63"
  shows "file_data f' = take offset (file_data f) @ replicate (offset - length (file_data f)) 0 @ buf @
      drop (offset + length buf) (file_data f)"
    "st_size (file_stat f') = length (file_data f')" "length (file_data f') < 2 ^ 63"
proof -
  show *: "file_data f' = take offset (file_data f) @ replicate (offset - length (file_data f)) 0 @ buf @
      drop (offset + length buf) (file_data f)"
    using assms(1) by (auto simp: tmp_file_write_def resize_def Let_def elim!: and_then_InrE split: if_splits)
  show "length (file_data f') < 2 ^ 63"
    using assms(1,3) unfolding * by (auto simp: tmp_file_write_def resize_def Let_def elim!: and_then_InrE split: if_splits)
  show "st_size (file_stat f') = length (file_data f')"
    using assms(1,2) unfolding * by (auto simp: tmp_file_write_def resize_def Let_def elim!: and_then_InrE split: if_splits)
qed

lemma file_write_ok:
  assumes ok: "naming_ok N" and f: "file_ok N f" and w: "file_write N f buf offset = Inr (r, N')"
  shows "naming_ok N'" "ns_pipes N' = ns_pipes N"
proof -
  show "ns_pipes N' = ns_pipes N" using w by (auto simp: file_write_def elim!: and_then_InrE split: file_object.splits)
  show "naming_ok N'"
  proof (cases f)
    case (TmpFile i)
    then obtain f' where f': "tmp_file_write (ns_files N ! i) buf offset = Inr f'" "N' = N\<lparr>ns_files := (ns_files N)[i := f']\<rparr>"
      using w by (auto simp: file_write_def elim!: and_then_InrE)
    have "ns_files N ! i \<in> set (ns_files N)" using f TmpFile by simp
    then have "st_size (file_stat f') = length (file_data f')" "length (file_data f') < 2 ^ 63"
      using tmp_file_write_eq [OF f'(1)] ok by (auto simp: naming_ok_def files_ok_def)
    then have "files_ok N'" using ok set_update_subset_insert [of "ns_files N" i f']
      by (auto simp: naming_ok_def files_ok_def f'(2))
    moreover have "tree_ok N'" using ok tree_ok_cong [of N' N] by (simp add: naming_ok_def f'(2))
    moreover have "object_ok N' = object_ok N" by (rule object_ok_lengths) (simp_all add: f'(2))
    then have "handles_ok N'" using handles_ok_mono [of N N'] ok f'(2) by (simp add: naming_ok_def)
    ultimately show ?thesis by (simp add: naming_ok_def)
  qed (use w ok in \<open>auto simp: file_write_def\<close>)
qed

section \<open>Every state is well formed\<close>

lemma open_rest_ok:
  assumes "naming_ok N" and "object_ok N obj" and "open_rest N obj flags = (r, N')"
  shows "naming_ok N'" "ns_pipes N' = ns_pipes N"
  using assms allocate_handle_ok [of N "\<lparr>oo_object = obj, oo_pos = 0, oo_options = flags\<rparr>" r N']
  by (auto simp: open_rest_def split: if_splits)

lemma open_object_ok:
  assumes ok: "naming_ok N" and op: "open_object E N path flags = (r, N')"
  shows "naming_ok N'" "ns_pipes N' = ns_pipes N" "\<And>p c. r = CallPipe p c \<Longrightarrow> p < length (ns_pipes N') \<and> c = PipeOpen flags"
proof -
  have t: "tree_ok N" using ok by (simp add: naming_ok_def)
  show "naming_ok N'" using op ok open_rest_ok(1) [OF ok lookup_ok [OF t]]
    by (auto simp: open_object_def split: sum.splits if_splits named_object.splits prod.splits)
  show *: "ns_pipes N' = ns_pipes N" using op ok open_rest_ok(2) [OF ok lookup_ok [OF t]]
    by (auto simp: open_object_def split: sum.splits if_splits named_object.splits prod.splits)
  show "p < length (ns_pipes N') \<and> c = PipeOpen flags" if "r = CallPipe p c" for p c
    unfolding * using op that lookup_ok [OF t, of E path]
    by (auto simp: open_object_def split: sum.splits if_splits named_object.splits prod.splits)
qed

lemma open_named_ok:
  assumes ok: "naming_ok N" and op: "open_named E N path flags = (r, N')"
  shows "naming_ok N'" "length (ns_pipes N) \<le> length (ns_pipes N')"
    "\<And>p c. r = CallPipe p c \<Longrightarrow> p < length (ns_pipes N') \<and> c = PipeOpen flags"
proof -
  obtain r1 N1 where o1: "open_object E N path flags = (r1, N1)" by (cases "open_object E N path flags")
  note ok1 = open_object_ok [OF ok o1]
  obtain r2 N2 where t2: "touch E N1 path = (r2, N2)" by (cases "touch E N1 path")
  have c1: "created_one N1 N2" using touch_cases(1) [OF _ t2] ok1(1) by (simp add: naming_ok_def)
  note ok2 = created_one_ok [OF ok1(1) c1]
  obtain r3 N3 where o3: "open_object E N2 path flags = (r3, N3)" by (cases "open_object E N2 path flags")
  note ok3 = open_object_ok [OF ok2 o3]
  have le: "length (ns_pipes N) \<le> length (ns_pipes N2)" using created_one_pipes [OF c1] ok1(2) by simp
  have "(r, N') = (Return (Inl EEXIST), N) \<or> (r, N') = (r1, N1) \<or> (\<exists>e. (r, N') = (Return (Inl e), N2)) \<or> (r, N') = (r3, N3)"
    using op o1 t2 o3 by (auto simp: open_named_def split: if_splits outcome.splits sum.splits)
  then show "naming_ok N'" "length (ns_pipes N) \<le> length (ns_pipes N')"
    "\<And>p c. r = CallPipe p c \<Longrightarrow> p < length (ns_pipes N') \<and> c = PipeOpen flags"
    using ok ok1 ok2 ok3 le by auto
qed

text \<open>The initial state: the files of the initial disk are entered before the process file system is mounted.\<close>

definition mounted :: "'q naming \<Rightarrow> 'q naming" where
  "mounted N = N\<lparr>ns_mounts := [(''/proc'', ProcDir)], ns_cwd := ''/''\<rparr>"

lemma created_mounted:
  assumes "created N d name i N'"
  shows "created (mounted N) d name i (mounted N')"
proof -
  obtain N1 where N1: "grows N N1" "N' = add_entry N1 d name i" "d < length (ns_dirs N)" "\<not> has_entry name (entries N d)"
    "object_ok N1 (inode_object i)" "\<forall>k. i = InDirectory k \<longrightarrow> k = length (ns_dirs N)"
    using assms by (auto simp: created_def)
  have "object_ok (mounted N1) = object_ok N1" by (rule object_ok_lengths) (simp_all add: mounted_def)
  with N1 show ?thesis unfolding created_def
    by (intro exI [of _ "mounted N1"]) (auto simp: grows_def mounted_def add_entry_def)
qed

lemma make_dirs_ok:
  assumes "naming_ok (mounted N)" and "d < length (ns_dirs N)"
  obtains r N' where "make_dirs N d cs = Inr (r, N')" "naming_ok (mounted N')" "\<And>k. r = Inr k \<Longrightarrow> k < length (ns_dirs N')"
  using assms
proof (induction cs arbitrary: N d thesis)
  case Nil
  then show ?case by simp
next
  case (Cons c cs)
  show ?case
  proof (cases "find_entry c (entries N d)")
    case None
    then obtain N1 where N1: "tmp_create_dir N d c = (Inr (DirectoryObject (TmpDir (length (ns_dirs N)))), N1)"
      by (simp add: tmp_create_dir_def find_entry_None Let_def)
    note cr = create_dir_created(1) [OF N1 Cons.prems(3)]
    have ok1: "naming_ok (mounted N1)" using created_ok [OF Cons.prems(2) created_mounted [OF cr]] .
    have "length (ns_dirs N) < length (ns_dirs N1)" using created_new_ok [OF cr] by (simp add: inode_object_def)
    with Cons.IH [OF _ ok1] obtain r N' where "make_dirs N1 (length (ns_dirs N)) cs = Inr (r, N')" "naming_ok (mounted N')"
      "\<And>k. r = Inr k \<Longrightarrow> k < length (ns_dirs N')" by blast
    then show ?thesis using Cons.prems(1) None N1 by (simp add: tmp_dir_lookup_def)
  next
    case (Some i)
    have m: "(c, i) \<in> set (entries (mounted N) d)" using find_entry_member [OF Some] by (simp add: mounted_def)
    have "object_ok (mounted N) (inode_object i)"
      using tree_entry(1) [OF _ _ m] Cons.prems(2,3) by (simp add: naming_ok_def mounted_def)
    then have k: "k < length (ns_dirs N)" if "i = InDirectory k" for k using that by (simp add: inode_object_def mounted_def)
    show ?thesis
    proof (cases i)
      case (InDirectory k)
      obtain r N' where "make_dirs N k cs = Inr (r, N')" "naming_ok (mounted N')" "\<And>k. r = Inr k \<Longrightarrow> k < length (ns_dirs N')"
        using Cons.IH [OF _ Cons.prems(2) k [OF InDirectory]] by blast
      then show ?thesis using Cons.prems(1) Some InDirectory by (simp add: tmp_dir_lookup_def inode_object_def)
    qed (use Cons.prems(1,2) Some in \<open>simp_all add: tmp_dir_lookup_def inode_object_def\<close>)
  qed
qed

lemma create_static_file_ok:
  assumes ok: "naming_ok (mounted N)"
  obtains r N' where "create_static_file N path data = Inr (r, N')" "naming_ok (mounted N')"
proof -
  have d: "0 < length (ns_dirs N)" using ok by (simp add: naming_ok_def tree_ok_def mounted_def)
  obtain r N1 where N1: "make_dirs N 0 (filter (\<lambda>s. s \<noteq> []) (butlast (split_path path))) = Inr (r, N1)" "naming_ok (mounted N1)"
    "\<And>k. r = Inr k \<Longrightarrow> k < length (ns_dirs N1)" using make_dirs_ok [OF ok d] by blast
  show ?thesis
  proof (cases r)
    case (Inl e)
    then show ?thesis using that N1 by (simp add: create_static_file_def Let_def)
  next
    case (Inr k)
    obtain r' N' where c: "tmp_create_static_file N1 k (last (split_path path)) data = (r', N')" by force
    have "naming_ok (mounted N')"
    proof (cases r')
      case (Inl e)
      then show ?thesis using c N1(2) by (auto simp: tmp_create_static_file_def split: if_splits)
    next
      case (Inr obj)
      then show ?thesis
        using created_ok [OF N1(2) created_mounted [OF create_static_created(1) [OF _ N1(3)]]] c \<open>r = Inr k\<close> by blast
    qed
    then show ?thesis using that N1(1) Inr c by (simp add: create_static_file_def Let_def)
  qed
qed

lemma add_static_files_ok:
  "naming_ok (mounted N) \<Longrightarrow> \<exists>N'. add_static_files N es = Inr N' \<and> naming_ok (mounted N')"
proof (induction es arbitrary: N)
  case (Cons e es)
  obtain path data where e: "e = (path, data)" by (cases e)
  obtain r N1 where "create_static_file N path data = Inr (r, N1)" "naming_ok (mounted N1)"
    using create_static_file_ok [OF Cons.prems] by blast
  with Cons.IH show ?case by (simp add: e)
qed simp

lemma naming_init_ok: "\<exists>N :: 'q naming. naming_init initrd = Inr N \<and> naming_ok N"
proof -
  let ?N = "\<lparr>ns_dirs = [dir_new], ns_files = [], ns_pipes = [], ns_mounts = [], ns_open_handles = [],
        ns_free_handles = replicate MAX_OPEN_OBJECTS 0, ns_cwd = []\<rparr> :: 'q naming"
  let ?N1 = "add_entry (?N\<lparr>ns_dirs := [dir_new, dir_new]\<rparr>) 0 ''proc'' (InDirectory 1)"
  have c: "tmp_create_dir ?N 0 ''proc'' = (Inr (DirectoryObject (TmpDir 1)), ?N1)"
    by (simp add: tmp_create_dir_def has_entry_def dir_new_def Let_def)
  have "tree_ok (mounted ?N1)"
    by (auto simp: tree_ok_def mounted_def add_entry_def dir_new_def has_entry_def inode_object_def less_Suc_eq)
  moreover have "handles_ok (mounted ?N1)" by (simp add: handles_ok_def mounted_def add_entry_def)
  ultimately have "naming_ok (mounted ?N1)" by (simp add: naming_ok_def files_ok_def mounted_def add_entry_def)
  then obtain N' where N': "add_static_files ?N1 initrd = Inr N'" "naming_ok (mounted N')"
    using add_static_files_ok by blast
  have "naming_init initrd = Inr (mounted N')" unfolding naming_init_def Let_def c using N'(1) by (simp add: mounted_def)
  with N'(2) show ?thesis by blast
qed

text \<open>
  The states that calls lead to. Opening a pipe ends with a second step, after the pipe has let the
  caller go on, when other calls may have come in between: \<open>pend\<close> lists the open calls that wait.
  A pipe may change at any time; what changes in it are the steps of theory \<open>Pipe\<close>.
\<close>

definition pending :: "nat outcome \<Rightarrow> (nat \<times> open_options) list" where
  "pending r = (case r of CallPipe p (PipeOpen flags) \<Rightarrow> [(p, flags)] | _ \<Rightarrow> [])"

inductive naming_reach :: "'q queue_ops \<Rightarrow> (string \<times> byte list) list \<Rightarrow> (nat \<times> open_options) list \<Rightarrow> 'q naming \<Rightarrow> bool"
  for Q initrd where
  reach_init: "naming_init initrd = Inr N \<Longrightarrow> naming_reach Q initrd [] N"
| reach_mkdir: "naming_reach Q initrd pend N \<Longrightarrow> mkdir E N path = (r, N') \<Longrightarrow> naming_reach Q initrd pend N'"
| reach_touch: "naming_reach Q initrd pend N \<Longrightarrow> touch E N path = (r, N') \<Longrightarrow> naming_reach Q initrd pend N'"
| reach_mkfifo: "naming_reach Q initrd pend N \<Longrightarrow> mkfifo Q E N path = (r, N') \<Longrightarrow> naming_reach Q initrd pend N'"
| reach_open: "naming_reach Q initrd pend N \<Longrightarrow> open_named E N path flags = (oc, N') \<Longrightarrow>
    naming_reach Q initrd (pending oc @ pend) N'"
| reach_opened: "naming_reach Q initrd pend N \<Longrightarrow> (p, flags) \<in> set pend \<Longrightarrow> open_rest N (PipeObject p) flags = (r, N') \<Longrightarrow>
    naming_reach Q initrd (remove1 (p, flags) pend) N'"
| reach_refused: "naming_reach Q initrd pend N \<Longrightarrow> naming_reach Q initrd (remove1 (p, flags) pend) N"
| reach_pipe: "naming_reach Q initrd pend N \<Longrightarrow> naming_reach Q initrd pend (N\<lparr>ns_pipes := (ns_pipes N)[p := P]\<rparr>)"
| reach_write: "naming_reach Q initrd pend N \<Longrightarrow> write_object N fh buf = Inr (oc, N') \<Longrightarrow> naming_reach Q initrd pend N'"
| reach_read: "naming_reach Q initrd pend N \<Longrightarrow> read_object E N fh n = Inr (ob, N') \<Longrightarrow> naming_reach Q initrd pend N'"
| reach_seek: "naming_reach Q initrd pend N \<Longrightarrow> seek_object N fh offset origin = Inr (r, N') \<Longrightarrow> naming_reach Q initrd pend N'"
| reach_readdir: "naming_reach Q initrd pend N \<Longrightarrow> readdir E N fh dentry = Inr (r, de, N') \<Longrightarrow> naming_reach Q initrd pend N'"
| reach_close: "naming_reach Q initrd pend N \<Longrightarrow> close_object N fh = Inr (r, c, N') \<Longrightarrow> naming_reach Q initrd pend N'"
| reach_cd: "naming_reach Q initrd pend N \<Longrightarrow> cd E N path = (r, N') \<Longrightarrow> naming_reach Q initrd pend N'"

lemma write_object_ok:
  assumes ok: "naming_ok N" and w: "write_object N fh buf = Inr (r, N')"
  shows "naming_ok N' \<and> length (ns_pipes N') = length (ns_pipes N)"
proof (cases "lookup_opened_object N fh")
  case (Inl e)
  then show ?thesis using ok w by (simp add: write_object_def)
next
  case (Inr oo)
  show ?thesis
  proof (cases "oo_object oo")
    case (FileObject f)
    have f: "file_ok N f" using lookup_opened_ok(1) [OF ok Inr] FileObject by simp
    obtain r1 N1 where w1: "file_write N f buf (oo_pos oo) = Inr (r1, N1)"
      using w Inr FileObject by (auto simp: write_object_def elim!: and_then_InrE)
    have "N' = N1 \<or> (\<exists>n < 2 ^ 64. N' = set_pos N1 fh n)"
      using w Inr FileObject w1 by (auto simp: write_object_def not_le split: sum.splits if_splits)
    then show ?thesis using file_write_ok [OF ok f w1] set_pos_ok by (auto simp: set_pos_def)
  qed (use ok w Inr in \<open>simp_all add: write_object_def\<close>)
qed

lemma read_object_ok:
  assumes ok: "naming_ok N" and r: "read_object E N fh n = Inr (r, N')"
  shows "naming_ok N' \<and> length (ns_pipes N') = length (ns_pipes N)"
proof -
  have "N' = N \<or> (\<exists>n < 2 ^ 64. N' = set_pos N fh n)"
    using r by (auto simp: read_object_def not_le elim!: and_then_InrE split: sum.splits named_object.splits if_splits)
  then show ?thesis using ok set_pos_ok by (auto simp: set_pos_def)
qed

lemma seek_object_ok:
  assumes ok: "naming_ok N" and r: "seek_object N fh offset origin = Inr (r, N')"
  shows "naming_ok N' \<and> length (ns_pipes N') = length (ns_pipes N)"
proof -
  have "as_usize i < 2 ^ 64" for i using unsigned_less [of "of_int i :: 64 word"] by (simp add: as_usize_def)
  moreover have "N' = N \<or> (\<exists>i. N' = set_pos N fh (as_usize i))"
    using r by (auto simp: seek_object_def elim!: and_then_InrE split: sum.splits named_object.splits)
  ultimately show ?thesis using ok set_pos_ok by (auto simp: set_pos_def)
qed

lemma readdir_ok:
  assumes ok: "naming_ok N" and r: "readdir E N fh dentry = Inr (r, de, N')"
  shows "naming_ok N' \<and> length (ns_pipes N') = length (ns_pipes N)"
proof -
  have "N' = N \<or> (\<exists>n. n + 1 < 2 ^ 64 \<and> N' = set_pos N fh (n + 1))"
    using r by (auto simp: readdir_def readdir_object_def not_le elim!: and_then_InrE split: sum.splits named_object.splits if_splits option.splits)
  then show ?thesis using ok by (auto simp: set_pos_ok set_pos_pipes)
qed

lemma pipe_change_ok: "naming_ok N \<Longrightarrow> naming_ok (N\<lparr>ns_pipes := (ns_pipes N)[p := P]\<rparr>)"
  using object_ok_lengths [of "N\<lparr>ns_pipes := (ns_pipes N)[p := P]\<rparr>" N] tree_ok_cong [of "N\<lparr>ns_pipes := (ns_pipes N)[p := P]\<rparr>" N]
  by (simp add: naming_ok_def files_ok_def handles_ok_def)

lemma cd_ok:
  assumes "naming_ok N" and "cd E N path = (r, N')"
  shows "naming_ok N' \<and> length (ns_pipes N') = length (ns_pipes N)"
proof -
  obtain c where "N' = N\<lparr>ns_cwd := c\<rparr> \<or> N' = N" using assms(2) by (auto simp: cd_def split: sum.splits)
  moreover have "naming_ok (N\<lparr>ns_cwd := c\<rparr>)"
    using assms(1) object_ok_lengths [of "N\<lparr>ns_cwd := c\<rparr>" N] tree_ok_cong [of "N\<lparr>ns_cwd := c\<rparr>" N]
    by (simp add: naming_ok_def files_ok_def handles_ok_def)
  ultimately show ?thesis using assms(1) by auto
qed

lemma naming_reach_ok: "naming_reach Q initrd pend N \<Longrightarrow> naming_ok N \<and> (\<forall>(p, flags) \<in> set pend. p < length (ns_pipes N))"
proof (induction rule: naming_reach.induct)
  case (reach_init N)
  then show ?case using naming_init_ok [of initrd] by (metis empty_iff list.set(1) sum.inject(2))
next
  case (reach_mkdir pend N E path r N')
  then have "created_one N N'" using mkdir_cases(1) by (metis naming_ok_def)
  with reach_mkdir.IH created_one_ok created_one_pipes show ?case by fastforce
next
  case (reach_touch pend N E path r N')
  then have "created_one N N'" using touch_cases(1) by (metis naming_ok_def)
  with reach_touch.IH created_one_ok created_one_pipes show ?case by fastforce
next
  case (reach_mkfifo pend N E path r N')
  then have "created_one N N'" using mkfifo_cases(1) by (metis naming_ok_def)
  with reach_mkfifo.IH created_one_ok created_one_pipes show ?case by fastforce
next
  case (reach_open pend N E path flags oc N')
  then have ok: "naming_ok N" by blast
  note o = open_named_ok [OF ok reach_open.hyps(2)]
  have "\<forall>(p, flags) \<in> set (pending oc). p < length (ns_pipes N')"
    using o(3) by (auto simp: pending_def split: outcome.split pipe_call.split)
  with o(1,2) reach_open.IH show ?case by fastforce
next
  case (reach_opened pend N p flags r N')
  then have "object_ok N (PipeObject p)" "naming_ok N" by auto
  with open_rest_ok [of N "PipeObject p" flags r N'] reach_opened show ?case
    by (metis notin_set_remove1)
next
  case (reach_refused pend N p flags)
  then show ?case by (metis notin_set_remove1)
next
  case (reach_pipe pend N p P)
  then show ?case using pipe_change_ok by auto
next
  case (reach_close pend N fh r c N')
  then have "free_handle N fh = Inr (r, N')" by (auto simp: close_object_def elim!: and_then_InrE)
  with free_handle_ok reach_close.IH show ?case by metis
qed (use write_object_ok read_object_ok seek_object_ok readdir_ok cd_ok in \<open>metis+\<close>)

section \<open>Paths\<close>

lemma lookup_TmpDir:
  assumes t: "tree_ok N" and l: "lookup_named_object E N p = Inr (DirectoryObject (TmpDir k))"
  obtains cs where "walk_root E N cs = Some (TmpDir k)" "p = (if cs = [] then ''/'' else join_path ([] # cs))"
proof (cases "p = ''/''")
  case True
  then show ?thesis using l that [of "[]"] by (auto simp: lookup_named_object_def split: if_splits)
next
  case False
  have abs: "check_absolute_path p" using l by (auto simp: lookup_named_object_def split: if_splits)
  obtain xs where xs: "split_path p = [] # xs" "xs \<noteq> []" using split_absolute [OF abs] by blast
  obtain cs c where cs: "xs = cs @ [c]" using xs(2) by (metis rev_exhaust)
  have "resolve_path E N (TmpDir 0) ''/'' (cs @ [c]) = Inr (DirectoryObject (TmpDir k))"
    using l abs False xs cs by (simp add: lookup_named_object_def)
  then have "walk_root E N (cs @ [c]) = Some (TmpDir k)"
    by (auto simp: resolve_walk walk_snoc split: option.splits)
  moreover have "p = join_path ([] # xs)" using join_split [of p] xs(1) by simp
  ultimately show ?thesis using that cs by auto
qed

lemma entry_lookup:
  assumes t: "tree_ok N" and p: "proper_path p" and l: "lookup_dir E N (fst (parent_and_name p)) = Inr (TmpDir d)"
  shows "has_entry (snd (parent_and_name p)) (entries N d) \<longleftrightarrow> (\<exists>obj. lookup_named_object E N p = Inr obj)"
proof -
  obtain ns c where n: "split_path p = [] # ns @ [c]" "[] \<notin> set ns" "c \<noteq> []"
    and pn: "parent_and_name p = (if ns = [] then ''/'' else path_of ns, c)" using proper_pathE [OF p] by metis
  have w: "walk_root E N ns = Some (TmpDir d)" unfolding lookup_dir_walk [OF p n(1,2), symmetric] using l pn by simp
  have "p \<noteq> ''/''" using n by (auto simp: split_path_def)
  then have "lookup_named_object E N p = resolve_path E N (TmpDir 0) ''/'' (ns @ [c])"
    using p n by (simp add: lookup_named_object_def proper_path_def)
  then show ?thesis using pn find_entry_None [of c "entries N d"]
    by (auto simp: resolve_walk w enter_def dir_lookup_def tmp_dir_lookup_def split: option.splits)
qed

text \<open>
  C31. In every state of the naming service all references are valid and of the right kind: what a
  path leads to, what a handle stands for and the pipes that open calls wait for exist. The
  directories of the temporary file system form a tree: no directory has two paths.
\<close>

theorem naming_references:
  assumes "naming_reach Q initrd pend N"
  shows "(\<forall>E p obj. lookup_named_object E N p = Inr obj \<longrightarrow> object_ok N obj) \<and>
    (\<forall>h oo. lookup_opened_object N h = Inr oo \<longrightarrow> object_ok N (oo_object oo) \<and> oo_pos oo < 2 ^ 64) \<and>
    (\<forall>(p, flags) \<in> set pend. object_ok N (PipeObject p)) \<and>
    (\<forall>E E' p q k. lookup_named_object E N p = Inr (DirectoryObject (TmpDir k)) \<longrightarrow>
       lookup_named_object E' N q = Inr (DirectoryObject (TmpDir k)) \<longrightarrow> p = q)"
proof -
  have ok: "naming_ok N" and pend: "\<forall>(p, flags) \<in> set pend. p < length (ns_pipes N)" using naming_reach_ok [OF assms] by auto
  have t: "tree_ok N" using ok by (simp add: naming_ok_def)
  have "p = q" if "lookup_named_object E N p = Inr (DirectoryObject (TmpDir k))"
    "lookup_named_object E' N q = Inr (DirectoryObject (TmpDir k))" for E E' p q k
    using lookup_TmpDir [OF t that(1)] lookup_TmpDir [OF t that(2)] walk_unique [OF t] by metis
  then show ?thesis using lookup_ok [OF t] lookup_opened_ok [OF ok] pend by fastforce
qed

text \<open>Where an object can be made, and that a path leads to a new object and all others where they did.\<close>

definition creatable :: "proc_env \<Rightarrow> 'q naming \<Rightarrow> string \<Rightarrow> bool" where
  "creatable E N p \<longleftrightarrow> (\<exists>d. lookup_dir E N (fst (parent_and_name p)) = Inr (TmpDir d)) \<and>
     (\<forall>obj. lookup_named_object E N p \<noteq> Inr obj)"

definition only_new :: "proc_env \<Rightarrow> 'q naming \<Rightarrow> 'q naming \<Rightarrow> string \<Rightarrow> named_object \<Rightarrow> bool" where
  "only_new E N N' p obj \<longleftrightarrow> (\<forall>q. lookup_named_object E N' q = (if q = p then Inr obj else lookup_named_object E N q))"

lemma not_creatable:
  assumes "tree_ok N" and "proper_path p" and "\<not> creatable E N p"
  shows "touch E N p = (Inl ENOTDIR, N)" "mkdir E N p = (Inl ENOTDIR, N)" "\<exists>e. mkfifo Q E N p = (Inl e, N)"
proof -
  consider e where "lookup_dir E N (fst (parent_and_name p)) = Inl e"
    | dir where "lookup_dir E N (fst (parent_and_name p)) = Inr dir" "\<forall>d. dir \<noteq> TmpDir d"
    | d where "lookup_dir E N (fst (parent_and_name p)) = Inr (TmpDir d)" "has_entry (snd (parent_and_name p)) (entries N d)"
    using assms(3) entry_lookup [OF assms(1,2)] unfolding creatable_def by (metis sum.exhaust)
  then show "touch E N p = (Inl ENOTDIR, N)" "mkdir E N p = (Inl ENOTDIR, N)" "\<exists>e. mkfifo Q E N p = (Inl e, N)"
    by (cases; auto simp: touch_def mkdir_def mkfifo_def case_prod_beta create_file_def create_dir_def create_pipe_def
        tmp_create_file_def tmp_create_dir_def tmp_create_pipe_def split: directory_object.splits)+
qed

lemma creatable_Inr:
  assumes "tree_ok N" and "proper_path p" and "creatable E N p"
  shows "fst (touch E N p) = Inr 0" "fst (mkdir E N p) = Inr 0" "fst (mkfifo Q E N p) = Inr 0"
proof -
  obtain d where "lookup_dir E N (fst (parent_and_name p)) = Inr (TmpDir d)" "\<not> has_entry (snd (parent_and_name p)) (entries N d)"
    using assms(3) entry_lookup [OF assms(1,2)] unfolding creatable_def by metis
  then show "fst (touch E N p) = Inr 0" "fst (mkdir E N p) = Inr 0" "fst (mkfifo Q E N p) = Inr 0"
    by (simp_all add: touch_def mkdir_def mkfifo_def case_prod_beta create_file_def create_dir_def create_pipe_def
        tmp_create_file_def tmp_create_dir_def tmp_create_pipe_def Let_def)
qed

text \<open>
  C32. Making an object changes one path. A call with a proper path (absolute, without empty names)
  succeeds if its directory is a directory of the temporary file system and the path leads nowhere;
  then the path leads to the new object (an empty file, an empty directory or a new pipe), and every
  other path leads where it led before. Otherwise the call fails and changes nothing.
\<close>

theorem create_exact:
  assumes "naming_reach Q initrd pend N" and "proper_path p"
  shows "if creatable E N p
    then fst (touch E N p) = Inr 0 \<and> ns_files (snd (touch E N p)) = ns_files N @ [file_new] \<and>
      only_new E N (snd (touch E N p)) p (FileObject (TmpFile (length (ns_files N)))) \<and>
      fst (mkdir E N p) = Inr 0 \<and> entries (snd (mkdir E N p)) (length (ns_dirs N)) = [] \<and>
      only_new E N (snd (mkdir E N p)) p (DirectoryObject (TmpDir (length (ns_dirs N)))) \<and>
      fst (mkfifo Q E N p) = Inr 0 \<and> ns_pipes (snd (mkfifo Q E N p)) = ns_pipes N @ [pipe_new Q] \<and>
      only_new E N (snd (mkfifo Q E N p)) p (PipeObject (length (ns_pipes N)))
    else touch E N p = (Inl ENOTDIR, N) \<and> mkdir E N p = (Inl ENOTDIR, N) \<and> (\<exists>e. mkfifo Q E N p = (Inl e, N))"
proof -
  have t: "tree_ok N" using naming_reach_ok [OF assms(1)] by (simp add: naming_ok_def)
  show ?thesis
  proof (cases "creatable E N p")
    case True
    note ok = creatable_Inr [OF t assms(2) True]
    note new = create_lookup_dir(1) [OF t assms(2)]
    obtain N1 N2 N3 where N: "touch E N p = (Inr 0, N1)" "mkdir E N p = (Inr 0, N2)" "mkfifo Q E N p = (Inr 0, N3)"
      using ok(1,2) ok(3) [of Q] by (metis prod.collapse)
    have "ns_files N1 = ns_files N @ [file_new] \<and> only_new E N N1 p (FileObject (TmpFile (length (ns_files N))))"
      using touch_cases(2) [OF t N(1) refl] new unfolding only_new_def by (force simp: inode_object_def)
    moreover have "entries N2 (length (ns_dirs N)) = [] \<and> only_new E N N2 p (DirectoryObject (TmpDir (length (ns_dirs N))))"
    proof -
      obtain d where d: "lookup_dir E N (fst (parent_and_name p)) = Inr (TmpDir d)"
        "created N d (snd (parent_and_name p)) (InDirectory (length (ns_dirs N))) N2"
        using mkdir_cases(2) [OF t N(2) refl] by blast
      have "length (ns_dirs N) < length (ns_dirs N2)" using created_new_ok [OF d(2)] by (simp add: inode_object_def)
      with created_entries [OF d(2)] create_lookup_dir [OF t assms(2) d] show ?thesis
        by (simp add: only_new_def inode_object_def)
    qed
    moreover have "ns_pipes N3 = ns_pipes N @ [pipe_new Q] \<and> only_new E N N3 p (PipeObject (length (ns_pipes N)))"
      using mkfifo_cases(2) [OF t N(3) refl] new unfolding only_new_def by (force simp: inode_object_def)
    ultimately show ?thesis using True by (simp add: N)
  next
    case False
    then show ?thesis using not_creatable [OF t assms(2) False] by simp
  qed
qed

section \<open>What is written is read\<close>

lemma lookup_set_pos:
  "lookup_opened_object (set_pos N h n) k = (case lookup_opened_object N k of
     Inr oo \<Rightarrow> Inr (if k = h then oo\<lparr>oo_pos := n\<rparr> else oo) | Inl e \<Rightarrow> Inl e)"
proof -
  have fm: "find (\<lambda>(j, _). j = k) (map (\<lambda>(j, obj). (j, f j obj)) xs) =
      map_option (\<lambda>(j, obj). (j, f j obj)) (find (\<lambda>(j, _). j = k) xs)" for f :: "nat \<Rightarrow> 'b \<Rightarrow> 'b" and xs
    by (induction xs) auto
  show ?thesis
  proof (cases "find (\<lambda>(j, _). j = k) (ns_open_handles N)")
    case (Some e)
    then have "fst e = k" by (auto simp: find_Some_iff)
    then obtain obj where "e = (k, obj)" by (cases e) auto
    then show ?thesis using Some by (cases obj) (simp_all add: lookup_opened_object_def set_pos_def fm)
  qed (simp add: lookup_opened_object_def set_pos_def fm)
qed

lemma set_pos_files: "ns_files (set_pos N h n) = ns_files N" "ns_dirs (set_pos N h n) = ns_dirs N"
  by (simp_all add: set_pos_def)

lemma tmp_file_write_total:
  "offset + length buf < 2 ^ 63 \<Longrightarrow> \<exists>f'. tmp_file_write f buf offset = Inr f'"
  by (auto simp: tmp_file_write_def resize_def Let_def)

text \<open>
  C33. Writing to a file and reading it: a write at the position of a handle puts the bytes there,
  fills a gap before them with zeros and keeps every other byte and every other file; after a seek
  back a read returns the bytes. The calls do not fail as long as the file stays below \<open>2 ^ 63\<close> bytes.
\<close>

theorem write_seek_read:
  assumes "naming_reach Q initrd pend N" and "lookup_opened_object N fh = Inr oo" and "oo_object oo = FileObject (TmpFile i)"
    and "oo_pos oo + length buf < 2 ^ 63"
  shows "\<exists>N1 N2 N3. write_object N fh buf = Inr (Return (Inr (length buf)), N1) \<and>
    seek_object N1 fh (int (oo_pos oo)) SeekStart = Inr (Inr (oo_pos oo), N2) \<and>
    read_object E N2 fh (length buf) = Inr (Return (Inr buf), N3) \<and>
    (let old = file_data (ns_files N ! i); new = file_data (ns_files N3 ! i) in
      new = take (oo_pos oo) old @ replicate (oo_pos oo - length old) 0 @ buf @ drop (oo_pos oo + length buf) old \<and>
      st_size (file_stat (ns_files N3 ! i)) = length new) \<and>
    (\<forall>j. j \<noteq> i \<longrightarrow> ns_files N3 ! j = ns_files N ! j) \<and>
    lookup_opened_object N3 fh = Inr (oo\<lparr>oo_pos := oo_pos oo + length buf\<rparr>)"
proof -
  have ok: "naming_ok N" using naming_reach_ok [OF assms(1)] by blast
  have i: "i < length (ns_files N)" using lookup_opened_ok(1) [OF ok assms(2)] assms(3) by simp
  then have f: "st_size (file_stat (ns_files N ! i)) = length (file_data (ns_files N ! i))" "length (file_data (ns_files N ! i)) < 2 ^ 63"
    using ok by (simp_all add: naming_ok_def files_ok_def)
  obtain f' where f': "tmp_file_write (ns_files N ! i) buf (oo_pos oo) = Inr f'" using tmp_file_write_total [OF assms(4)] by blast
  note d = tmp_file_write_eq [OF f' f]
  let ?W = "N\<lparr>ns_files := (ns_files N)[i := f']\<rparr>"
  let ?N1 = "set_pos ?W fh (oo_pos oo + length buf)" and ?N2 = "set_pos (set_pos ?W fh (oo_pos oo + length buf)) fh (oo_pos oo)"
  let ?N3 = "set_pos ?N2 fh (oo_pos oo + length buf)"
  have l: "lookup_opened_object ?W fh = Inr oo" using assms(2) by (simp add: lookup_opened_object_def)
  have "write_object N fh buf = Inr (Return (Inr (length buf)), ?N1)"
    using assms(2,3,4) f' by (simp add: write_object_def file_write_def)
  moreover have "seek_object ?N1 fh (int (oo_pos oo)) SeekStart = Inr (Inr (oo_pos oo), ?N2)"
    using l assms(3,4) by (simp add: seek_object_def lookup_set_pos as_usize_small)
  moreover have "copy_out (file_data f') (oo_pos oo) (length buf) = buf" unfolding d(1) copy_out_def by (auto simp: min_def split: if_splits)
  then have "read_object E ?N2 fh (length buf) = Inr (Return (Inr buf), ?N3)"
    using l assms(3,4) i by (simp add: read_object_def lookup_set_pos file_read_def set_pos_files)
  moreover have "ns_files ?N3 = (ns_files N)[i := f']" by (simp add: set_pos_files)
  moreover have "lookup_opened_object ?N3 fh = Inr (oo\<lparr>oo_pos := oo_pos oo + length buf\<rparr>)" using l by (simp add: lookup_set_pos)
  ultimately show ?thesis using i d by (intro exI [of _ ?N1] exI [of _ ?N2] exI [of _ ?N3]) (simp add: Let_def)
qed

section \<open>The handle table\<close>

lemma handles_fst_iff:
  assumes "handles_ok N"
  shows "h \<in> fst ` set (ns_open_handles N) \<longleftrightarrow> (\<exists>oo. (h, Some oo) \<in> set (ns_open_handles N))"
proof
  assume "h \<in> fst ` set (ns_open_handles N)"
  then obtain obj where m: "(h, obj) \<in> set (ns_open_handles N)" by auto
  then obtain oo where "obj = Some oo" using assms unfolding handles_ok_def by blast
  with m show "\<exists>oo. (h, Some oo) \<in> set (ns_open_handles N)" by blast
qed (metis fst_conv image_eqI)

lemma handles_open_iff:
  assumes "handles_ok N" and "h < MAX_OPEN_OBJECTS"
  shows "ns_free_handles N ! h = 0 \<longleftrightarrow> lookup_opened_object N h = Inl EINVALH"
proof -
  have d: "distinct (map fst (ns_open_handles N))" using assms by (simp add: handles_ok_def)
  have "(\<exists>oo. lookup_opened_object N h = Inr oo) \<longleftrightarrow> lookup_opened_object N h \<noteq> Inl EINVALH"
    by (auto simp: lookup_opened_object_def split: option.split)
  moreover have "ns_free_handles N ! h = 0 \<longleftrightarrow> h \<notin> fst ` set (ns_open_handles N)" using assms by (simp add: handles_ok_def)
  ultimately show ?thesis unfolding handles_fst_iff [OF assms(1)] lookup_opened_iff [OF d] by blast
qed

lemma lookup_opened_Inl: "lookup_opened_object N h = Inl e \<Longrightarrow> e = EINVALH"
  by (auto simp: lookup_opened_object_def split: option.splits)

text \<open>Tables with the same entries, up to one, give the same objects.\<close>

lemma lookup_opened_eqI:
  assumes "distinct (map fst (ns_open_handles N))" "distinct (map fst (ns_open_handles N'))"
    and "\<And>oo. (k, Some oo) \<in> set (ns_open_handles N') \<longleftrightarrow> (k, Some oo) \<in> set (ns_open_handles N)"
  shows "lookup_opened_object N' k = lookup_opened_object N k"
proof (cases "lookup_opened_object N k")
  case (Inl e)
  then have "lookup_opened_object N' k \<noteq> Inr oo" for oo using lookup_opened_iff assms by (metis sum.distinct(1))
  then obtain e' where "lookup_opened_object N' k = Inl e'" by (cases "lookup_opened_object N' k") auto
  then show ?thesis using Inl lookup_opened_Inl by metis
next
  case (Inr oo)
  then show ?thesis using lookup_opened_iff assms by metis
qed

lemma lookup_allocated:
  assumes H: "handles_ok N" and a: "allocate_handle N oo = (Inr h, N')"
  shows "h < MAX_OPEN_OBJECTS" "lookup_opened_object N h = Inl EINVALH"
    "\<forall>k < h. lookup_opened_object N k \<noteq> Inl EINVALH"
    "lookup_opened_object N' k = (if k = h then Inr oo else lookup_opened_object N k)"
proof -
  obtain fs where s: "find_free_from 0 (ns_free_handles N) = Some (h, fs)"
    and N': "N' = N\<lparr>ns_free_handles := fs, ns_open_handles := ns_open_handles N @ [(h, Some oo)]\<rparr>"
    using a by (auto simp: allocate_handle_def find_free_handle_def split: option.splits)
  have h: "h < length (ns_free_handles N)" "ns_free_handles N ! h = 0" "\<forall>k < h. ns_free_handles N ! k \<noteq> 0"
    using find_free_from_Some [OF s] by auto
  then show lt: "h < MAX_OPEN_OBJECTS" using H by (simp add: handles_ok_def)
  show free: "lookup_opened_object N h = Inl EINVALH" using handles_open_iff [OF H lt] h by simp
  show "\<forall>k < h. lookup_opened_object N k \<noteq> Inl EINVALH" using handles_open_iff [OF H] h(3) lt by (metis order.strict_trans)
  have d: "distinct (map fst (ns_open_handles N))" using H by (simp add: handles_ok_def)
  have n: "h \<notin> fst ` set (ns_open_handles N)" using H h lt by (simp add: handles_ok_def)
  have d': "distinct (map fst (ns_open_handles N'))" using d n by (auto simp: N')
  show "lookup_opened_object N' k = (if k = h then Inr oo else lookup_opened_object N k)"
    using lookup_opened_iff [OF d', of h oo] lookup_opened_eqI [OF d d', of k] by (auto simp: N')
qed

lemma lookup_freed:
  assumes H: "handles_ok N" and l: "lookup_opened_object N h = Inr oo"
  obtains N' where "free_handle N h = Inr (Inr 0, N')"
    "\<And>k. lookup_opened_object N' k = (if k = h then Inl EINVALH else lookup_opened_object N k)"
proof -
  let ?xs = "ns_open_handles N"
  have m: "(h, Some oo) \<in> set ?xs" by (rule lookup_opened_member [OF l])
  then have "position_of (\<lambda>(k, _). k = h) ?xs \<noteq> None" unfolding position_of_None by blast
  then obtain i where i: "position_of (\<lambda>(k, _). k = h) ?xs = Some i" by blast
  have lt: "h < length (ns_free_handles N)" using H m by (auto simp: handles_ok_def)
  define N' where "N' = N\<lparr>ns_open_handles := swap_remove ?xs i, ns_free_handles := (ns_free_handles N)[h := 0]\<rparr>"
  have f: "free_handle N h = Inr (Inr 0, N')" using i lt by (simp add: free_handle_def N'_def)
  have pi: "i < length ?xs" "fst (?xs ! i) = h" using position_of_Some [OF i] by auto
  have d: "distinct (map fst ?xs)" using H by (simp add: handles_ok_def)
  note s = swap_remove_entries [OF d pi]
  have d': "distinct (map fst (ns_open_handles N'))" using s(1) by (simp add: N'_def)
  have "lookup_opened_object N' k = (if k = h then Inl EINVALH else lookup_opened_object N k)" for k
  proof (cases "k = h")
    case True
    have "lookup_opened_object N' h \<noteq> Inr o'" for o' using lookup_opened_iff [OF d', of h o'] by (simp add: N'_def s(2))
    then show ?thesis using True lookup_opened_Inl [of N' h] by (cases "lookup_opened_object N' h") auto
  next
    case False
    then show ?thesis using lookup_opened_eqI [OF d d', of k] by (simp add: N'_def s(2))
  qed
  with f that show ?thesis by blast
qed

text \<open>
  C34. The table of handles: opening gives the smallest number that is not in use, which then
  stands for the opened object, and fails if and only if all 4096 numbers are in use; closing an
  open handle always succeeds and makes exactly this number invalid; closing another number is an
  error. No call changes what any other handle stands for.
\<close>

theorem handle_table:
  assumes "naming_reach Q initrd pend N"
  shows "(case allocate_handle N oo of
      (Inr h, N') \<Rightarrow> h < MAX_OPEN_OBJECTS \<and> lookup_opened_object N h = Inl EINVALH \<and>
        (\<forall>k < h. lookup_opened_object N k \<noteq> Inl EINVALH) \<and>
        (\<forall>k. lookup_opened_object N' k = (if k = h then Inr oo else lookup_opened_object N k))
    | (Inl e, N') \<Rightarrow> e = ENOHANDLES \<and> N' = N \<and> (\<forall>k < MAX_OPEN_OBJECTS. lookup_opened_object N k \<noteq> Inl EINVALH)) \<and>
    (\<forall>h. if lookup_opened_object N h = Inl EINVALH then close_object N h = Inr (Inl EINVALH, None, N)
      else \<exists>c N'. close_object N h = Inr (Inr 0, c, N') \<and>
        (\<forall>k. lookup_opened_object N' k = (if k = h then Inl EINVALH else lookup_opened_object N k)))"
proof -
  have H: "handles_ok N" using naming_reach_ok [OF assms] by (simp add: naming_ok_def)
  have A: "\<forall>k < MAX_OPEN_OBJECTS. lookup_opened_object N k \<noteq> Inl EINVALH" "e = ENOHANDLES" "N' = N"
    if a: "allocate_handle N oo = (Inl e, N')" for e N'
  proof -
    have "0 \<notin> set (ns_free_handles N)" and *: "e = ENOHANDLES" "N' = N"
      using a by (auto simp: allocate_handle_def find_free_handle_def find_free_from_None split: option.splits)
    then have "\<forall>k < MAX_OPEN_OBJECTS. ns_free_handles N ! k \<noteq> 0" using H by (metis handles_ok_def nth_mem)
    then show "\<forall>k < MAX_OPEN_OBJECTS. lookup_opened_object N k \<noteq> Inl EINVALH" using handles_open_iff [OF H] by blast
    show "e = ENOHANDLES" "N' = N" using * by auto
  qed
  have "close_object N h = Inr (Inl EINVALH, None, N)" if l: "lookup_opened_object N h = Inl EINVALH" for h
  proof -
    have "distinct (map fst (ns_open_handles N))" using H by (simp add: handles_ok_def)
    then have "h \<notin> fst ` set (ns_open_handles N)" using l lookup_opened_iff handles_fst_iff [OF H] by force
    then have "position_of (\<lambda>(k, _). k = h) (ns_open_handles N) = None" by (force simp: position_of_None)
    with l show ?thesis by (simp add: close_object_def free_handle_def)
  qed
  moreover have "\<exists>c N'. close_object N h = Inr (Inr 0, c, N') \<and>
      (\<forall>k. lookup_opened_object N' k = (if k = h then Inl EINVALH else lookup_opened_object N k))"
    if n: "lookup_opened_object N h \<noteq> Inl EINVALH" for h
  proof -
    obtain o' where l: "lookup_opened_object N h = Inr o'" using n lookup_opened_Inl by (metis sum.exhaust)
    show ?thesis by (rule lookup_freed [OF H l]) (auto simp: close_object_def)
  qed
  ultimately show ?thesis using A lookup_allocated [OF H, of oo] by (auto split: prod.split sum.split)
qed

section \<open>Listing a directory\<close>

text \<open>The results of a number of \<open>readdir\<close> calls in a row.\<close>

fun readdirs :: "proc_env \<Rightarrow> 'q naming \<Rightarrow> nat \<Rightarrow> nat \<Rightarrow> ((errno + nat) \<times> raw_dirent option) list run" where
  "readdirs E N fh 0 = Inr []"
| "readdirs E N fh (Suc n) = and_then (readdir E N fh (Some raw_dirent_new)) (\<lambda>(r, de, N1).
     and_then (readdirs E N1 fh n) (\<lambda>rs. Inr ((r, de) # rs)))"

definition dirent_of :: "string \<times> tmpfs_inode \<Rightarrow> raw_dirent" where
  "dirent_of e = raw_dirent_of \<lparr>de_file_type = inode_type (snd e), de_name = fst e\<rparr>"

lemma readdirs_from:
  assumes "lookup_opened_object N fh = Inr oo" and "oo_object oo = DirectoryObject (TmpDir d)" and "oo_pos oo + n < 2 ^ 64"
  shows "readdirs E N fh n = Inr (map (\<lambda>k. if k < length (entries N d) then (Inr 1, Some (dirent_of (entries N d ! k))) else (Inr 0, Some raw_dirent_new))
    [oo_pos oo ..< oo_pos oo + n])"
  using assms
proof (induction n arbitrary: N oo)
  case (Suc n)
  let ?N = "set_pos N fh (oo_pos oo + 1)"
  have "readdirs E ?N fh n = Inr (map (\<lambda>k. if k < length (entries N d) then (Inr 1, Some (dirent_of (entries N d ! k))) else (Inr 0, Some raw_dirent_new))
    [oo_pos oo + 1 ..< oo_pos oo + 1 + n])"
    using Suc.IH [of ?N "oo\<lparr>oo_pos := oo_pos oo + 1\<rparr>"] Suc.prems by (simp add: lookup_set_pos set_pos_files)
  moreover have "readdir E N fh (Some raw_dirent_new) =
      Inr (if oo_pos oo < length (entries N d) then (Inr 1, Some (dirent_of (entries N d ! oo_pos oo)), ?N)
        else (Inr 0, Some raw_dirent_new, ?N))"
    using Suc.prems by (simp add: readdir_def readdir_object_def dir_readdir_def tmp_readdir_def dirent_of_def Let_def)
  moreover have "[oo_pos oo ..< oo_pos oo + Suc n] = oo_pos oo # [oo_pos oo + 1 ..< oo_pos oo + 1 + n]"
    by (simp add: upt_conv_Cons)
  ultimately show ?case by simp
qed simp

text \<open>
  C35. Listing a directory: \<open>n\<close> calls of \<open>readdir\<close> on a handle that was just opened return the
  entries of the directory in the order in which they were made, each one once with its name and
  kind and the result 1, and the result 0 with no entry after the last one. A name of at most 255 characters comes back in full,
  with a zero behind it.
\<close>

theorem readdir_lists:
  assumes "lookup_opened_object N fh = Inr \<lparr>oo_object = DirectoryObject (TmpDir d), oo_pos = 0, oo_options = flags\<rparr>" and "n < 2 ^ 64"
  shows "readdirs E N fh n = Inr (map (\<lambda>e. (Inr 1, Some (dirent_of e))) (take n (entries N d)) @
      replicate (n - length (entries N d)) (Inr 0, Some raw_dirent_new)) \<and>
    (\<forall>e \<in> set (entries N d). length (fst e) \<le> 255 \<longrightarrow> length (d_name (dirent_of e)) = 256 \<and>
       take (length (fst e)) (d_name (dirent_of e)) = as_bytes (fst e) \<and> d_name (dirent_of e) ! length (fst e) = 0 \<and>
       d_type (dirent_of e) = file_type_code (inode_type (snd e)))"
proof -
  have "map (\<lambda>k. if k < length (entries N d) then (Inr 1 :: errno + nat, Some (dirent_of (entries N d ! k))) else (Inr 0, Some raw_dirent_new)) [0 ..< n] =
      map (\<lambda>e. (Inr 1, Some (dirent_of e))) (take n (entries N d)) @ replicate (n - length (entries N d)) (Inr 0, Some raw_dirent_new)"
    by (rule nth_equalityI) (auto simp: nth_append)
  moreover have "readdirs E N fh n = Inr (map (\<lambda>k. if k < length (entries N d) then (Inr 1, Some (dirent_of (entries N d ! k))) else (Inr 0, Some raw_dirent_new)) [0 ..< n])"
    using readdirs_from [OF assms(1)] assms(2) by simp
  ultimately have "readdirs E N fh n = Inr (map (\<lambda>e. (Inr 1, Some (dirent_of e))) (take n (entries N d)) @
      replicate (n - length (entries N d)) (Inr 0, Some raw_dirent_new))" by (simp only:)
  moreover have "length (d_name (dirent_of e)) = 256 \<and> take (length (fst e)) (d_name (dirent_of e)) = as_bytes (fst e) \<and>
      d_name (dirent_of e) ! length (fst e) = 0 \<and> d_type (dirent_of e) = file_type_code (inode_type (snd e))"
    if "length (fst e) \<le> 255" for e
    using that by (simp add: dirent_of_def raw_dirent_of_def as_bytes_def Let_def nth_append)
  ultimately show ?thesis by blast
qed

section \<open>Examples\<close>

text \<open>
  A system without processes, started with one file on the initial disk; then a file is made and
  opened. The text form of process ids is taken as unreadable.
\<close>

definition idle_env :: proc_env where
  "idle_env = \<lparr>active_processes = [], now_ticks = 0, dram_limit = 0, parse_uuid = (\<lambda>_. None), show_uuid = (\<lambda>_. [])\<rparr>"

definition boot_naming :: "byte list naming" where
  "boot_naming = \<lparr>ns_dirs = [dir_new\<lparr>dir_files := [(''proc'', InDirectory 1), (''readme'', InFile (StaticFile [1, 2]))]\<rparr>, dir_new],
     ns_files = [], ns_pipes = [], ns_mounts = [(''/proc'', ProcDir)], ns_open_handles = [],
     ns_free_handles = replicate MAX_OPEN_OBJECTS 0, ns_cwd = ''/''\<rparr>"

lemma boot_naming_init: "naming_init [(''readme'', [1, 2])] = Inr boot_naming"
  by (simp add: naming_init_def boot_naming_def tmp_create_dir_def has_entry_def dir_new_def add_entry_def
      create_static_file_def split_path_def tmp_create_static_file_def Let_def)

definition note_naming :: "byte list naming" where
  "note_naming = snd (touch idle_env boot_naming ''/note'')"

definition open_naming :: "byte list naming" where
  "open_naming = snd (open_named idle_env note_naming ''/note'' READWRITE)"

definition list_naming :: "byte list naming" where
  "list_naming = snd (open_named idle_env note_naming ''/'' DIRECTORY)"

lemma boot_reach: "naming_reach Q [(''readme'', [1, 2])] [] boot_naming"
  by (rule reach_init [OF boot_naming_init])

lemma note_reach: "naming_reach Q [(''readme'', [1, 2])] [] note_naming"
  using reach_touch [OF boot_reach, of idle_env "''/note''"] unfolding note_naming_def by (metis prod.collapse)

lemma replicate_handles: "replicate MAX_OPEN_OBJECTS (0 :: nat) = 0 # replicate (MAX_OPEN_OBJECTS - 1) 0"
proof -
  have "MAX_OPEN_OBJECTS = Suc (MAX_OPEN_OBJECTS - 1)" by (simp add: MAX_OPEN_OBJECTS_def)
  then show ?thesis by (metis replicate_Suc)
qed

lemmas naming_eval =
  idle_env_def boot_naming_def touch_def parent_and_name_def split_path_def lookup_dir_def lookup_named_object_def
  check_absolute_path_def build_path_def dir_lookup_def tmp_dir_lookup_def find_entry_def inode_object_def create_file_def
  tmp_create_file_def has_entry_def add_entry_def dir_new_def file_new_def open_named_def open_object_def open_rest_def
  contains_flag_def is_dir_def allocate_handle_def find_free_handle_def replicate_handles
  CREATE_def DIRECTORY_def READWRITE_def WRITEONLY_def Let_def

lemma note_naming_eq:
  "note_naming = boot_naming\<lparr>ns_dirs := [dir_new\<lparr>dir_files := [(''proc'', InDirectory 1), (''readme'', InFile (StaticFile [1, 2])),
     (''note'', InFile (TmpFile 0))]\<rparr>, dir_new], ns_files := [file_new]\<rparr>"
  by (simp add: note_naming_def naming_eval)

lemma open_naming_eq:
  "open_named idle_env note_naming ''/note'' READWRITE = (Return (Inr 0), open_naming)"
  "open_naming = note_naming\<lparr>ns_open_handles := [(0, Some \<lparr>oo_object = FileObject (TmpFile 0), oo_pos = 0, oo_options = READWRITE\<rparr>)],
     ns_free_handles := 1 # replicate (MAX_OPEN_OBJECTS - 1) 0\<rparr>"
  by (simp_all add: open_naming_def note_naming_eq naming_eval)

lemma list_naming_eq:
  "list_naming = note_naming\<lparr>ns_open_handles := [(0, Some \<lparr>oo_object = DirectoryObject (TmpDir 0), oo_pos = 0, oo_options = DIRECTORY\<rparr>)],
     ns_free_handles := 1 # replicate (MAX_OPEN_OBJECTS - 1) 0\<rparr>"
  by (simp add: list_naming_def note_naming_eq naming_eval)

lemma open_reach: "naming_reach Q [(''readme'', [1, 2])] [] open_naming"
  using reach_open [OF note_reach open_naming_eq(1)] by (simp add: pending_def)

lemma open_naming_lookup:
  "lookup_opened_object open_naming 0 = Inr \<lparr>oo_object = FileObject (TmpFile 0), oo_pos = 0, oo_options = READWRITE\<rparr>"
  by (simp add: lookup_opened_object_def open_naming_eq)

theorem naming_references_witness:
  "lookup_opened_object open_naming 0 = Inr \<lparr>oo_object = FileObject (TmpFile 0), oo_pos = 0, oo_options = READWRITE\<rparr> \<and>
   object_ok open_naming (FileObject (TmpFile 0))"
  using naming_references [OF open_reach] open_naming_lookup by fastforce

theorem create_exact_witness:
  "creatable idle_env boot_naming ''/note'' \<and> only_new idle_env boot_naming note_naming ''/note'' (FileObject (TmpFile 0))"
proof -
  have "proper_path ''/note''" by (simp add: proper_path_def check_absolute_path_def split_path_def)
  moreover have "creatable idle_env boot_naming ''/note''" by (simp add: creatable_def naming_eval)
  moreover have "length (ns_files boot_naming) = 0" by (simp add: boot_naming_def)
  ultimately show ?thesis using create_exact [OF boot_reach, of "''/note''" idle_env list_queue] by (simp add: note_naming_def)
qed

theorem write_seek_read_witness:
  "\<exists>N1 N2 N3. write_object open_naming 0 [5, 6, 7] = Inr (Return (Inr 3), N1) \<and> seek_object N1 0 0 SeekStart = Inr (Inr 0, N2) \<and>
     read_object idle_env N2 0 3 = Inr (Return (Inr [5, 6, 7]), N3)"
proof -
  let ?oo = "\<lparr>oo_object = FileObject (TmpFile 0), oo_pos = 0, oo_options = READWRITE\<rparr>"
  have "oo_object ?oo = FileObject (TmpFile 0)" "oo_pos ?oo + length [5 :: byte, 6, 7] < 2 ^ 63" by simp_all
  from write_seek_read [OF open_reach open_naming_lookup this, of idle_env]
  obtain N1 N2 N3 where "write_object open_naming 0 [5, 6, 7] = Inr (Return (Inr (length [5 :: byte, 6, 7])), N1)"
    "seek_object N1 0 (int (oo_pos ?oo)) SeekStart = Inr (Inr (oo_pos ?oo), N2)"
    "read_object idle_env N2 0 (length [5 :: byte, 6, 7]) = Inr (Return (Inr [5, 6, 7]), N3)" by (elim exE conjE)
  then show ?thesis by (intro exI [of _ N1] exI [of _ N2] exI [of _ N3]) (simp add: numeral_3_eq_3)
qed

theorem handle_table_witness:
  "lookup_opened_object open_naming 0 \<noteq> Inl EINVALH \<and> (\<exists>c N'. close_object open_naming 0 = Inr (Inr 0, c, N') \<and>
     lookup_opened_object N' 0 = Inl EINVALH)"
proof -
  have o: "lookup_opened_object open_naming 0 \<noteq> Inl EINVALH" by (simp add: open_naming_lookup)
  from handle_table [OF open_reach, THEN conjunct2, rule_format, of 0] o show ?thesis by auto
qed

theorem readdir_lists_witness:
  "readdirs idle_env list_naming 0 4 = Inr [(Inr 1, Some (dirent_of (''proc'', InDirectory 1))),
     (Inr 1, Some (dirent_of (''readme'', InFile (StaticFile [1, 2])))), (Inr 1, Some (dirent_of (''note'', InFile (TmpFile 0)))),
     (Inr 0, Some raw_dirent_new)]"
proof -
  have "lookup_opened_object list_naming 0 = Inr \<lparr>oo_object = DirectoryObject (TmpDir 0), oo_pos = 0, oo_options = DIRECTORY\<rparr>"
    by (simp add: lookup_opened_object_def list_naming_eq)
  from readdir_lists [OF this, of 4 idle_env] show ?thesis
    by (simp add: list_naming_eq note_naming_eq dir_new_def)
qed

end
