(* ===== verification/Mlx4Queue.thy ===== *)
theory Mlx4Queue
  imports FramesLf BTree
begin

text \<open>
  The queue pairs of the user-space InfiniBand driver (\<open>library/ibverbs/src/provider/mlx4/queue_pair.rs\<close>):
  rings of work queue entries (WQEs) in memory that the card reads on its own. The buffer of a queue
  is a list of bytes, numbers in it are big-endian (the types of \<open>zerocopy\<close>); a write to a segment is a list of stores in
  the order of the code, because the card may read at any time. \<open>u32\<close> counters are natural numbers
  with their overflow written out. The kernel side of creation and the mapping of memory are arguments.
\<close>

unbundle bit_operations_syntax

section \<open>Requests\<close>

datatype queue_pair_type = RC | UC | UD

datatype queue_pair_state = Reset | Init | ReadyToReceive | ReadyToSend | SQD

record qp_caps =
  max_send_wr :: nat
  max_recv_wr :: nat
  max_send_sge :: nat
  max_recv_sge :: nat
  max_inline_data :: nat

record sg_entry =
  sge_addr :: "64 word"
  sge_length :: "32 word"
  sge_lkey :: "32 word"

record remote_memory_header =
  remote_addr :: "64 word"
  rkey :: "32 word"

record address_handle =
  ah_port :: "32 word"
  ah_dlid :: "16 word"
  ah_slid :: "8 word"

record datagram_header =
  dh_ah :: address_handle
  remote_qpn :: "32 word"
  remote_qkey :: "32 word"

datatype send_operation =
    Send | RdmaRead remote_memory_header | RdmaWrite remote_memory_header
  | Atomic remote_memory_header "64 word" "64 word" | SendUD datagram_header

datatype payload = Sges "sg_entry list" | Inline "byte list"

type_synonym send_flags = "32 word"

definition SIGNALED :: send_flags where "SIGNALED = 1"
definition FENCE :: send_flags where "FENCE = 2"
definition SOLICITED :: send_flags where "SOLICITED = 4"

definition has_flag :: "32 word \<Rightarrow> 32 word \<Rightarrow> bool" where
  "has_flag flags f \<longleftrightarrow> flags AND f = f"

record send_wr =
  sw_id :: "64 word"
  sw_payload :: payload
  sw_flags :: send_flags
  sw_op :: send_operation

record recv_wr =
  rw_id :: "64 word"
  rw_sges :: "sg_entry list"

datatype io_error = Other string | InvalidInput string | InvalidData string

section \<open>Bytes\<close>

definition be16 :: "16 word \<Rightarrow> byte list" where
  "be16 w = map (\<lambda>i. ucast (drop_bit (8 * i) w)) [1, 0]"

definition be32 :: "32 word \<Rightarrow> byte list" where
  "be32 w = map (\<lambda>i. ucast (drop_bit (8 * i) w)) [3, 2, 1, 0]"

definition be64 :: "64 word \<Rightarrow> byte list" where
  "be64 w = map (\<lambda>i. ucast (drop_bit (8 * i) w)) [7, 6, 5, 4, 3, 2, 1, 0]"

text \<open>One store of bytes at an offset, and stores in a row.\<close>

definition store :: "nat \<times> byte list \<Rightarrow> byte list \<Rightarrow> byte list" where
  "store w buf = take (fst w) buf @ snd w @ drop (fst w + length (snd w)) buf"

definition stores :: "(nat \<times> byte list) list \<Rightarrow> byte list \<Rightarrow> byte list" where
  "stores ws buf = fold store ws buf"

section \<open>Segments of an entry\<close>

text \<open>\<open>copy_from_sge\<close>: the byte count is written last.\<close>

definition copy_from_sge :: "nat \<Rightarrow> sg_entry \<Rightarrow> (nat \<times> byte list) list" where
  "copy_from_sge off sge = [(off + 4, be32 (sge_lkey sge)), (off + 8, be64 (sge_addr sge)), (off, be32 (sge_length sge))]"

definition last_segment :: "byte list" where
  "last_segment = be32 0 @ be32 0x100 @ be64 0"

definition remote_address_segment :: "remote_memory_header \<Rightarrow> byte list" where
  "remote_address_segment h = be64 (remote_addr h) @ be32 (rkey h) @ be32 0"

definition datagram_segment :: "datagram_header \<Rightarrow> byte list" where
  "datagram_segment h =
     be32 (push_bit 24 (ah_port (dh_ah h))) @ [0, ah_slid (dh_ah h) AND 0x7f] @ be16 (ah_dlid (dh_ah h)) @ [0, 0, 0, 0] @
     be32 0 @ replicate 16 0 @ be32 (remote_qpn h) @ be32 (remote_qkey h) @ replicate 2 0 @ replicate 6 0"

definition CTRL_FENCE :: "32 word" where "CTRL_FENCE = push_bit 6 1"
definition CTRL_CQ_UPDATE :: "32 word" where "CTRL_CQ_UPDATE = push_bit 2 3"
definition CTRL_SOLICITED :: "32 word" where "CTRL_SOLICITED = push_bit 1 1"

definition control_flags :: "send_flags \<Rightarrow> 32 word" where
  "control_flags flags =
     (if has_flag flags FENCE then CTRL_FENCE else 0) OR (if has_flag flags SOLICITED then CTRL_SOLICITED else 0) OR
     (if has_flag flags SIGNALED then CTRL_CQ_UPDATE else 0)"

text \<open>The opcodes of the card that can be sent; the others are not implemented.\<close>

definition send_opcode :: "send_operation \<Rightarrow> 32 word run" where
  "send_opcode op = (case op of
       Send \<Rightarrow> Inr 0x0a | RdmaWrite _ \<Rightarrow> Inr 0x08 | RdmaRead _ \<Rightarrow> Inr 0x10
     | Atomic _ _ _ \<Rightarrow> Inl (PanicMsg ''not yet implemented: atomic'')
     | SendUD _ \<Rightarrow> Inl (PanicMsg ''not yet implemented: ud''))"

section \<open>Work queues\<close>

record wq_meta =
  wm_id :: "64 word"
  chain_size :: nat

datatype wq_type = SendQueue | ReceiveQueue

record work_queue =
  wq_kind :: wq_type
  wqe_cnt :: nat
  max_post :: nat
  max_gs :: nat
  wq_buffer :: "byte list option"
  wqe_shift :: nat
  spare_wqes :: "nat option"
  wq_head :: nat
  wq_tail :: nat
  wq_metas :: "wq_meta option list"
  divergence_reported :: bool

record mlx4_limits =
  log_max_qp_size :: nat
  log_max_rq_sge :: nat
  log_max_sq_sge :: nat
  max_wqe_sq_size :: nat

definition mlx4_limits_new :: mlx4_limits where
  "mlx4_limits_new = \<lparr>log_max_qp_size = 16, log_max_rq_sge = 5, log_max_sq_sge = 5, max_wqe_sq_size = 1024\<rparr>"

definition IB_SQ_MIN_WQE_SHIFT :: nat where "IB_SQ_MIN_WQE_SHIFT = 6"
definition IB_MAX_HEADROOM :: nat where "IB_MAX_HEADROOM = 2048"

definition ib_sq_headroom :: "nat \<Rightarrow> nat" where
  "ib_sq_headroom shift = drop_bit shift IB_MAX_HEADROOM + 1"

definition IB_SQ_MAX_SPARE :: nat where
  "IB_SQ_MAX_SPARE = ib_sq_headroom IB_SQ_MIN_WQE_SHIFT"

text \<open>Sizes of the segments in bytes.\<close>

definition DATA_SEGMENT :: nat where "DATA_SEGMENT = 16"
definition CONTROL_SEGMENT :: nat where "CONTROL_SEGMENT = 16"
definition REMOTE_SEGMENT :: nat where "REMOTE_SEGMENT = 16"
definition DATAGRAM_SEGMENT :: nat where "DATAGRAM_SEGMENT = 48"

definition send_wqe_overhead :: "queue_pair_type \<Rightarrow> nat" where
  "send_wqe_overhead t = (case t of
       UD \<Rightarrow> CONTROL_SEGMENT + DATAGRAM_SEGMENT
     | UC \<Rightarrow> CONTROL_SEGMENT + REMOTE_SEGMENT
     | RC \<Rightarrow> CONTROL_SEGMENT + REMOTE_SEGMENT)"

definition div_ceil :: "nat \<Rightarrow> nat \<Rightarrow> nat" where
  "div_ceil a b = (a + b - 1) div b"

definition ilog2 :: "nat \<Rightarrow> nat" where
  "ilog2 n = bit_length n - 1"

definition new_receive_queue :: "mlx4_limits \<Rightarrow> qp_caps \<Rightarrow> (io_error + work_queue) run" where
  "new_receive_queue dev caps =
     (if max_recv_wr caps > 2 ^ log_max_qp_size dev - IB_SQ_MAX_SPARE \<or> max_recv_sge caps > 2 ^ log_max_rq_sge dev
      then Inr (Inl (InvalidInput ''RQ size is invalid''))
      else and_then (next_power_of_two (max (max_recv_wr caps) 256)) (\<lambda>cnt.
        and_then (next_power_of_two (max (max_recv_sge caps) 1)) (\<lambda>gs.
        Inr (Inr \<lparr>wq_kind = ReceiveQueue, wqe_cnt = cnt, max_post = min (2 ^ log_max_qp_size dev - IB_SQ_MAX_SPARE) cnt,
          max_gs = gs, wq_buffer = None, wqe_shift = ilog2 (gs * DATA_SEGMENT), spare_wqes = None, wq_head = 0, wq_tail = 0,
          wq_metas = replicate cnt None, divergence_reported = False\<rparr>))))"

definition new_send_queue :: "mlx4_limits \<Rightarrow> qp_caps \<Rightarrow> queue_pair_type \<Rightarrow> (io_error + work_queue) run" where
  "new_send_queue dev caps qtype =
     (if max_send_wr caps > 2 ^ log_max_qp_size dev - IB_SQ_MAX_SPARE \<or> max_send_sge caps > 2 ^ log_max_sq_sge dev
      then Inr (Inl (InvalidInput ''SQ size is invalid''))
      else
        let sz = max_send_sge caps * DATA_SEGMENT + send_wqe_overhead qtype in
        if sz \<ge> 2 ^ 16 then Inl UnwrapNone
        else if sz > max_wqe_sq_size dev then Inr (Inl (InvalidInput ''SQ size is invalid''))
        else and_then (next_power_of_two sz) (\<lambda>p.
          let shift = ilog2 p; spare = ib_sq_headroom shift in
          and_then (next_power_of_two (max (max_send_wr caps) 256 + spare)) (\<lambda>cnt.
          Inr (Inr \<lparr>wq_kind = SendQueue, wqe_cnt = cnt, max_post = cnt - spare,
            max_gs = (min (max_wqe_sq_size dev) (2 ^ shift) - send_wqe_overhead qtype) div DATA_SEGMENT, wq_buffer = None,
            wqe_shift = shift, spare_wqes = Some spare, wq_head = 0, wq_tail = 0,
            wq_metas = replicate cnt None, divergence_reported = False\<rparr>))))"

definition wq_size :: "work_queue \<Rightarrow> nat" where
  "wq_size q = push_bit (wqe_shift q) (wqe_cnt q) mod 2 ^ 32"

definition ring_index :: "work_queue \<Rightarrow> nat \<Rightarrow> nat" where
  "ring_index q index = index AND (wqe_cnt q - 1)"

definition update_meta_for_head :: "work_queue \<Rightarrow> 64 word \<Rightarrow> nat \<Rightarrow> work_queue run" where
  "update_meta_for_head q wr_id chain =
     (if length (wq_metas q) \<noteq> wqe_cnt q then Inl AssertFailed
      else if ring_index q (wq_head q) \<ge> length (wq_metas q) then Inl IndexOutOfBounds
      else Inr (q\<lparr>wq_metas := (wq_metas q)[ring_index q (wq_head q) := Some \<lparr>wm_id = wr_id, chain_size = chain\<rparr>]\<rparr>))"

definition get_in_buffer :: "work_queue \<Rightarrow> nat \<Rightarrow> nat \<Rightarrow> bool" where
  "get_in_buffer q byte_offset sz = (case wq_buffer q of Some b \<Rightarrow> byte_offset + sz \<le> length b | None \<Rightarrow> False)"

text \<open>Stores to a segment that \<open>get_in_buffer\<close> gives; there is no segment outside the buffer.\<close>

definition put_segment :: "work_queue \<Rightarrow> nat \<Rightarrow> nat \<Rightarrow> (nat \<times> byte list) list \<Rightarrow> work_queue run" where
  "put_segment q byte_offset sz ws =
     (if get_in_buffer q byte_offset sz then Inr (q\<lparr>wq_buffer := map_option (stores ws) (wq_buffer q)\<rparr>) else Inl UnwrapNone)"

definition wqe_byte_offset :: "work_queue \<Rightarrow> nat \<Rightarrow> nat" where
  "wqe_byte_offset q index = push_bit (wqe_shift q) (ring_index q index) mod 2 ^ 32"

text \<open>The offsets of the 64 byte blocks between two offsets.\<close>

function blocks :: "nat \<Rightarrow> nat \<Rightarrow> nat list" where
  "blocks from lim = (if from < lim then from # blocks (from + 64) lim else [])"
  by pat_completeness auto
termination by (relation "measure (\<lambda>(from, lim). lim - from)") auto

declare blocks.simps [simp del]

definition stamp_wqebb :: "work_queue \<Rightarrow> nat \<Rightarrow> ((io_error + unit) \<times> work_queue) run" where
  "stamp_wqebb q index = and_then (next_power_of_two (wqe_cnt q)) (\<lambda>p.
     let invalid_owner_bit = (index div 2 ^ trailing_zeros p) mod 2 = 0;
         start = wqe_byte_offset q index; lim = start + 2 ^ wqe_shift q;
         mark = [0x7F OR (if invalid_owner_bit then 0x80 else 0), 0xFF, 0xFF, 0xFF] in
     case wq_buffer q of
       None \<Rightarrow> Inr (Inl (InvalidData ''queue pair has no buffer''), q)
     | Some b \<Rightarrow>
         if list_all (\<lambda>i. i + 3 < length b) (blocks start lim)
         then Inr (Inr (), q\<lparr>wq_buffer := Some (stores (map (\<lambda>i. (i, mark)) (blocks start lim)) b)\<rparr>)
         else Inl IndexOutOfBounds)"

fun stamp_wqe_loop :: "work_queue \<Rightarrow> nat \<Rightarrow> nat \<Rightarrow> nat \<Rightarrow> ((io_error + unit) \<times> work_queue) run" where
  "stamp_wqe_loop q index i 0 = Inr (Inr (), q)"
| "stamp_wqe_loop q index i (Suc n) =
     (if index + i \<ge> 2 ^ 32 then Inl ArithOverflow
      else and_then (stamp_wqebb q (index + i)) (\<lambda>(r, q1).
        case r of Inl e \<Rightarrow> Inr (Inl e, q1) | Inr _ \<Rightarrow> stamp_wqe_loop q1 index (i + 1) n))"

definition stamp_wqe :: "work_queue \<Rightarrow> nat \<Rightarrow> nat \<Rightarrow> ((io_error + unit) \<times> work_queue) run" where
  "stamp_wqe q index sz = stamp_wqe_loop q index 0 (div_ceil sz (2 ^ wqe_shift q))"

definition would_overflow :: "work_queue \<Rightarrow> bool run" where
  "would_overflow q =
     (if wq_head q < wq_tail q \<or> wq_head q - wq_tail q + 1 \<ge> 2 ^ 32 then Inl ArithOverflow
      else Inr (wq_head q - wq_tail q + 1 \<ge> max_post q))"

definition check_wqe_index :: "work_queue \<Rightarrow> nat \<Rightarrow> work_queue" where
  "check_wqe_index q wqe_index =
     (if divergence_reported q then q
      else if ring_index q (wq_tail q) \<noteq> ring_index q wqe_index then q\<lparr>divergence_reported := True\<rparr> else q)"

definition wq_resolve_completion :: "work_queue \<Rightarrow> nat \<Rightarrow> (64 word option \<times> work_queue) run" where
  "wq_resolve_completion q wqe_index =
     (let q1 = check_wqe_index q wqe_index; idx = ring_index q1 wqe_index in
      if idx \<ge> length (wq_metas q1) then Inl IndexOutOfBounds
      else case wq_metas q1 ! idx of
        None \<Rightarrow> Inr (None, q1)
      | Some m \<Rightarrow>
          if wq_tail q1 + chain_size m \<ge> 2 ^ 32 then Inl ArithOverflow
          else Inr (Some (wm_id m), q1\<lparr>wq_metas := (wq_metas q1)[idx := None], wq_tail := wq_tail q1 + chain_size m\<rparr>))"

definition advance_head :: "work_queue \<Rightarrow> work_queue" where
  "advance_head q = q\<lparr>wq_head := (wq_head q + 1) mod 2 ^ 32\<rparr>"

section \<open>Queue pairs\<close>

text \<open>
  \<open>receive_wqe_counter\<close> is the doorbell record of the receive queue, \<open>qp_rings\<close> the numbers written
  (big-endian) to the doorbell register, the latest first.
\<close>

record queue_pair =
  qp_type :: queue_pair_type
  qp_number :: nat
  qp_state :: queue_pair_state
  rq :: work_queue
  sq :: work_queue
  receive_wqe_counter :: nat
  qp_rings :: "nat list"

fun put_sges :: "work_queue \<Rightarrow> nat \<Rightarrow> sg_entry list \<Rightarrow> work_queue run" where
  "put_sges q off [] = Inr q"
| "put_sges q off (sge # sges) = and_then (put_segment q off DATA_SEGMENT (copy_from_sge off sge)) (\<lambda>q1. put_sges q1 (off + DATA_SEGMENT) sges)"

fun post_receive_loop :: "work_queue \<Rightarrow> recv_wr list \<Rightarrow> ((io_error + unit) \<times> work_queue) run" where
  "post_receive_loop q [] = Inr (Inr (), q)"
| "post_receive_loop q (wr # wrs) = and_then (would_overflow q) (\<lambda>full.
     if full then Inr (Inl (Other ''receive queue would overflow''), q)
     else if length (rw_sges wr) > max_gs q then Inr (Inl (Other ''work request has too many sges''), q)
     else and_then (put_sges q (wqe_byte_offset q (wq_head q)) (rw_sges wr)) (\<lambda>q1.
       and_then (update_meta_for_head q1 (rw_id wr) 1) (\<lambda>q2.
       let off = wqe_byte_offset q2 (wq_head q2) + length (rw_sges wr) * DATA_SEGMENT in
       and_then (if length (rw_sges wr) < max_gs q2 then put_segment q2 off DATA_SEGMENT [(off, last_segment)] else Inr q2) (\<lambda>q3.
       post_receive_loop (advance_head q3) wrs))))"

definition post_receive :: "queue_pair \<Rightarrow> recv_wr list \<Rightarrow> ((io_error + unit) \<times> queue_pair) run" where
  "post_receive qp wrs =
     (if qp_state qp \<noteq> ReadyToReceive \<and> qp_state qp \<noteq> ReadyToSend
      then Inr (Inl (Other ''queue pair cannot receive in this state''), qp)
      else and_then (post_receive_loop (rq qp) wrs) (\<lambda>(r, q). case r of
          Inl e \<Rightarrow> Inr (Inl e, qp\<lparr>rq := q\<rparr>)
        | Inr _ \<Rightarrow> if wrs = [] then Inr (Inr (), qp\<lparr>rq := q\<rparr>)
            else Inr (Inr (), qp\<lparr>rq := q, receive_wqe_counter := wq_head q AND 0xffff\<rparr>)))"

text \<open>The segment between the control segment and the data, and its length.\<close>

definition extra_segment :: "queue_pair_type \<Rightarrow> send_operation \<Rightarrow> byte list" where
  "extra_segment t op = (case t of
       UD \<Rightarrow> (case op of SendUD h \<Rightarrow> datagram_segment h | _ \<Rightarrow> [])
     | _ \<Rightarrow> (case op of RdmaRead h \<Rightarrow> remote_address_segment h | RdmaWrite h \<Rightarrow> remote_address_segment h | _ \<Rightarrow> []))"

text \<open>The data segments are written from the last one to the first one, which starts at \<open>off\<close>.\<close>

fun put_sges_rev :: "work_queue \<Rightarrow> nat \<Rightarrow> sg_entry list \<Rightarrow> work_queue run" where
  "put_sges_rev q off [] = Inr q"
| "put_sges_rev q off (sge # sges) = and_then (put_sges_rev q (off + DATA_SEGMENT) sges) (\<lambda>q1. put_segment q1 off DATA_SEGMENT (copy_from_sge off sge))"

definition put_payload :: "work_queue \<Rightarrow> nat \<Rightarrow> payload \<Rightarrow> work_queue run" where
  "put_payload q off p = (case p of
       Sges sges \<Rightarrow> if sges = [] then Inl ArithOverflow else put_sges_rev q off sges
     | Inline _ \<Rightarrow> Inr q)"

definition wqe_size_of :: "queue_pair_type \<Rightarrow> send_wr \<Rightarrow> nat" where
  "wqe_size_of t wr = CONTROL_SEGMENT + length (extra_segment t (sw_op wr)) +
     (case sw_payload wr of Sges sges \<Rightarrow> length sges * DATA_SEGMENT | Inline _ \<Rightarrow> 0)"

text \<open>One entry: the segments first, the size next, the owner bit last, then the mark behind the headroom.\<close>

definition write_wqe :: "queue_pair_type \<Rightarrow> work_queue \<Rightarrow> send_wr \<Rightarrow> ((io_error + unit) \<times> work_queue) run" where
  "write_wqe t q wr =
     (let off = wqe_byte_offset q (wq_head q); extra = extra_segment t (sw_op wr) in
      and_then (put_segment q off CONTROL_SEGMENT [(off + 4, be32 0), (off + 8, be32 (control_flags (sw_flags wr))), (off + 12, be32 0)]) (\<lambda>q1.
      and_then (if extra = [] then Inr q1 else put_segment q1 (off + CONTROL_SEGMENT) (length extra) [(off + CONTROL_SEGMENT, extra)]) (\<lambda>q2.
      and_then (put_payload q2 (off + CONTROL_SEGMENT + length extra) (sw_payload wr)) (\<lambda>q3.
      and_then (put_segment q3 off CONTROL_SEGMENT [(off + 4, be32 (of_nat (wqe_size_of t wr div 16)))]) (\<lambda>q4.
      and_then (send_opcode (sw_op wr)) (\<lambda>opcode.
      let owner = (if wq_head q AND wqe_cnt q = 0 then 0 else push_bit 31 1) in
      and_then (put_segment q4 off CONTROL_SEGMENT [(off, be32 (owner OR opcode))]) (\<lambda>q5.
      case spare_wqes q5 of
        None \<Rightarrow> Inl UnwrapNone
      | Some spare \<Rightarrow>
          if wq_head q5 + spare \<ge> 2 ^ 32 then Inl ArithOverflow
          else stamp_wqe q5 (wq_head q5 + spare) (wqe_size_of t wr))))))))"

fun post_send_loop :: "queue_pair_type \<Rightarrow> work_queue \<Rightarrow> nat \<Rightarrow> send_wr list \<Rightarrow> ((io_error + unit) \<times> work_queue) run" where
  "post_send_loop t q chain [] = Inr (Inr (), q)"
| "post_send_loop t q chain (wr # wrs) = and_then (would_overflow q) (\<lambda>full.
     if full then Inr (Inl (Other ''send queue would overflow''), q)
     else if (case sw_payload wr of Sges sges \<Rightarrow> length sges > max_gs q | _ \<Rightarrow> False)
     then Inr (Inl (Other ''work request has too many sges''), q)
     else and_then (write_wqe t q wr) (\<lambda>(r, q1). case r of
         Inl e \<Rightarrow> Inr (Inl e, q1)
       | Inr _ \<Rightarrow>
           if has_flag (sw_flags wr) SIGNALED
           then and_then (update_meta_for_head q1 (sw_id wr) chain) (\<lambda>q2. post_send_loop t (advance_head q2) 1 wrs)
           else if chain + 1 \<ge> 2 ^ 32 then Inl ArithOverflow
           else post_send_loop t (advance_head q1) (chain + 1) wrs))"

definition ring_qp_doorbell :: "queue_pair \<Rightarrow> queue_pair run" where
  "ring_qp_doorbell qp =
     (if qp_number qp < 2 ^ 24 then Inr (qp\<lparr>qp_rings := push_bit 8 (qp_number qp) # qp_rings qp\<rparr>) else Inl AssertFailed)"

definition post_send :: "queue_pair \<Rightarrow> send_wr list \<Rightarrow> ((io_error + unit) \<times> queue_pair) run" where
  "post_send qp wrs =
     (if qp_state qp \<noteq> ReadyToSend then Inr (Inl (Other ''queue pair cannot send in this state''), qp)
      else if wrs = [] then Inr (Inr (), qp)
      else and_then (post_send_loop (qp_type qp) (sq qp) 1 wrs) (\<lambda>(r, q). case r of
          Inl e \<Rightarrow> Inr (Inl e, qp\<lparr>sq := q\<rparr>)
        | Inr _ \<Rightarrow> and_then (ring_qp_doorbell (qp\<lparr>sq := q\<rparr>)) (\<lambda>qp1. Inr (Inr (), qp1))))"

text \<open>The verb \<open>ModifyQp\<close> of the kernel is an argument; the state follows when it was asked for.\<close>

definition modify_qp :: "(io_error + unit) \<Rightarrow> queue_pair \<Rightarrow> queue_pair_state option \<Rightarrow> (io_error + unit) \<times> queue_pair" where
  "modify_qp verb qp new_state = (case verb of
       Inl e \<Rightarrow> (Inl e, qp)
     | Inr _ \<Rightarrow> (Inr (), case new_state of Some s \<Rightarrow> qp\<lparr>qp_state := s\<rparr> | None \<Rightarrow> qp))"

definition qp_resolve_completion :: "queue_pair \<Rightarrow> nat \<Rightarrow> bool \<Rightarrow> (64 word option \<times> queue_pair) run" where
  "qp_resolve_completion qp wqe_index is_send =
     (if is_send then and_then (wq_resolve_completion (sq qp) wqe_index) (\<lambda>(r, q). Inr (r, qp\<lparr>sq := q\<rparr>))
      else and_then (wq_resolve_completion (rq qp) wqe_index) (\<lambda>(r, q). Inr (r, qp\<lparr>rq := q\<rparr>)))"

text \<open>Every entry of a new send queue belongs to software and is marked.\<close>

fun init_send_queue :: "work_queue \<Rightarrow> nat \<Rightarrow> nat \<Rightarrow> ((io_error + unit) \<times> work_queue) run" where
  "init_send_queue q i 0 = Inr (Inr (), q)"
| "init_send_queue q i (Suc n) =
     (let off = wqe_byte_offset q i in
      if \<not> get_in_buffer q off CONTROL_SEGMENT then Inr (Inl (Other ''invalid send queue offset''), q)
      else and_then (put_segment q off CONTROL_SEGMENT [(off, be32 (push_bit 31 1)), (off + 4, be32 (push_bit (wqe_shift q - 4) 1))]) (\<lambda>q1.
        and_then (stamp_wqebb q1 i) (\<lambda>(r, q2). case r of Inl e \<Rightarrow> Inr (Inl e, q2) | Inr _ \<Rightarrow> init_send_queue q2 (i + 1) n)))"

text \<open>
  Creation: \<open>buffer\<close> is the memory that \<open>mmap\<close> returns for the given size, \<open>verb\<close> the answer of the
  kernel to \<open>CreateQp\<close>. The queue with the larger entries comes first.
\<close>

definition qp_create ::
  "mlx4_limits \<Rightarrow> qp_caps \<Rightarrow> queue_pair_type \<Rightarrow> (nat \<Rightarrow> byte list option) \<Rightarrow> (io_error + nat) \<Rightarrow> (io_error + queue_pair) run" where
  "qp_create dev caps t mmap verb =
     and_then (new_receive_queue dev caps) (\<lambda>r0. case r0 of Inl e \<Rightarrow> Inr (Inl e) | Inr rq0 \<Rightarrow>
     and_then (new_send_queue dev caps t) (\<lambda>s0. case s0 of Inl e \<Rightarrow> Inr (Inl e) | Inr sq0 \<Rightarrow>
     let buf_size = wq_size rq0 + wq_size sq0 in
     if buf_size \<ge> 2 ^ 32 then Inl ArithOverflow
     else case mmap (div_ceil buf_size 4096 * 4096) of
       None \<Rightarrow> Inl (PanicMsg ''failed to allocate buffer'')
     | Some mem \<Rightarrow> (case mmap 4 of
         None \<Rightarrow> Inl (PanicMsg ''failed to allocate doorbell page'')
       | Some _ \<Rightarrow>
         let buffer = map (\<lambda>_. 0) mem;
             split = (if wqe_shift rq0 > wqe_shift sq0 then wq_size rq0 else wq_size sq0) in
         if split > length buffer then Inl (PanicMsg ''mid > len'')
         else
           let first = take split buffer; second = drop split buffer;
               rq1 = rq0\<lparr>wq_buffer := Some (if wqe_shift rq0 > wqe_shift sq0 then first else second)\<rparr>;
               sq1 = sq0\<lparr>wq_buffer := Some (if wqe_shift rq0 > wqe_shift sq0 then second else first)\<rparr> in
           and_then (init_send_queue sq1 0 (wqe_cnt sq1)) (\<lambda>(r, sq2). case r of
               Inl e \<Rightarrow> Inr (Inl e)
             | Inr _ \<Rightarrow> (case verb of
                   Inl e \<Rightarrow> Inr (Inl e)
                 | Inr num \<Rightarrow> Inr (Inr \<lparr>qp_type = t, qp_number = num, qp_state = Reset, rq = rq1, sq = sq2,
                     receive_wqe_counter = 0, qp_rings = []\<rparr>))))))"

end
