(* ===== verification/Mlx4QueueProps.thy ===== *)
theory Mlx4QueueProps
  imports Mlx4Queue
begin

text \<open>
  Properties of the queue pairs: entries are written completely, inside the buffer and never over
  an entry that the card still needs, and completions give back the identifiers of the requests in
  the order of posting.
\<close>

section \<open>Stores\<close>

lemma store_length: "o1 + length bs \<le> length b \<Longrightarrow> length (store (o1, bs) b) = length b"
  by (simp add: store_def)

lemma store_nth:
  "o1 + length bs \<le> length b \<Longrightarrow> p < length b \<Longrightarrow>
    store (o1, bs) b ! p = (if o1 \<le> p \<and> p < o1 + length bs then bs ! (p - o1) else b ! p)"
  by (auto simp: store_def nth_append)

lemma store_append:
  "o2 = o1 + length xs \<Longrightarrow> o2 + length ys \<le> length b \<Longrightarrow> store (o2, ys) (store (o1, xs) b) = store (o1, xs @ ys) b"
  by (rule nth_equalityI) (auto simp: store_length store_nth nth_append)

lemma store_prepend:
  "o2 = o1 + length xs \<Longrightarrow> o2 + length ys \<le> length b \<Longrightarrow> store (o1, xs) (store (o2, ys) b) = store (o1, xs @ ys) b"
  by (rule nth_equalityI) (auto simp: store_length store_nth nth_append)

lemma store_over:
  "length ys = length xs \<Longrightarrow> o1 + length xs + length zs \<le> length b \<Longrightarrow>
    store (o1, ys) (store (o1, xs @ zs) b) = store (o1, ys @ zs) b"
  by (rule nth_equalityI) (auto simp: store_length store_nth nth_append)

lemma store_nil [simp]: "o1 \<le> length b \<Longrightarrow> store (o1, []) b = b"
  by (simp add: store_def)

lemma be_length [simp]: "length (be16 w) = 2" "length (be32 v) = 4" "length (be64 u) = 8"
  by (simp_all add: be16_def be32_def be64_def)

definition sge_bytes :: "sg_entry \<Rightarrow> byte list" where
  "sge_bytes sge = be32 (sge_length sge) @ be32 (sge_lkey sge) @ be64 (sge_addr sge)"

lemma sge_bytes_length [simp]: "length (sge_bytes sge) = 16"
  by (simp add: sge_bytes_def)

lemma sges_bytes_length [simp]: "length (concat (map sge_bytes sges)) = 16 * length sges"
  by (induction sges) auto

lemma copy_from_sge_store:
  assumes "off + 16 \<le> length b"
  shows "stores (copy_from_sge off sge) b = store (off, sge_bytes sge) b"
proof -
  have "store (off + 8, be64 (sge_addr sge)) (store (off + 4, be32 (sge_lkey sge)) b) =
      store (off + 4, be32 (sge_lkey sge) @ be64 (sge_addr sge)) b"
    using assms by (intro store_append) simp_all
  moreover have "store (off, be32 (sge_length sge)) (store (off + 4, be32 (sge_lkey sge) @ be64 (sge_addr sge)) b) =
      store (off, be32 (sge_length sge) @ be32 (sge_lkey sge) @ be64 (sge_addr sge)) b"
    using assms by (intro store_prepend) simp_all
  ultimately show ?thesis by (simp add: stores_def copy_from_sge_def sge_bytes_def)
qed

lemma put_Some:
  "wq_buffer q = Some b \<Longrightarrow> off + sz \<le> length b \<Longrightarrow> put_segment q off sz ws = Inr (q\<lparr>wq_buffer := Some (stores ws b)\<rparr>)"
  by (simp add: put_segment_def get_in_buffer_def)

lemma put_sges_store:
  "wq_buffer q = Some b \<Longrightarrow> off + 16 * length sges \<le> length b \<Longrightarrow>
    put_sges q off sges = Inr (q\<lparr>wq_buffer := Some (store (off, concat (map sge_bytes sges)) b)\<rparr>)"
proof (induction sges arbitrary: q off b)
  case Nil
  then show ?case by simp
next
  case (Cons sge sges)
  let ?b = "store (off, sge_bytes sge) b"
  have "put_segment q off DATA_SEGMENT (copy_from_sge off sge) = Inr (q\<lparr>wq_buffer := Some ?b\<rparr>)"
    using Cons.prems put_Some [of q b off DATA_SEGMENT] by (simp add: copy_from_sge_store DATA_SEGMENT_def)
  moreover have "put_sges (q\<lparr>wq_buffer := Some ?b\<rparr>) (off + 16) sges =
      Inr (q\<lparr>wq_buffer := Some (store (off + 16, concat (map sge_bytes sges)) ?b)\<rparr>)"
    using Cons.IH [of "q\<lparr>wq_buffer := Some ?b\<rparr>" ?b "off + 16"] Cons.prems(2) by (simp add: store_length)
  moreover have "store (off + 16, concat (map sge_bytes sges)) ?b = store (off, concat (map sge_bytes (sge # sges))) b"
    using store_append [of "off + 16" off "sge_bytes sge" "concat (map sge_bytes sges)" b] Cons.prems(2) by simp
  ultimately show ?case by (simp add: DATA_SEGMENT_def)
qed

lemma put_sges_rev_store:
  "wq_buffer q = Some b \<Longrightarrow> off + 16 * length sges \<le> length b \<Longrightarrow>
    put_sges_rev q off sges = Inr (q\<lparr>wq_buffer := Some (store (off, concat (map sge_bytes sges)) b)\<rparr>)"
proof (induction sges arbitrary: q off b)
  case Nil
  then show ?case by simp
next
  case (Cons sge sges)
  let ?b = "store (off + 16, concat (map sge_bytes sges)) b"
  have l: "length ?b = length b" using Cons.prems(2) by (simp add: store_length)
  have "put_sges_rev q (off + 16) sges = Inr (q\<lparr>wq_buffer := Some ?b\<rparr>)"
    using Cons.IH [of q b "off + 16"] Cons.prems by simp
  moreover have "put_segment (q\<lparr>wq_buffer := Some ?b\<rparr>) off DATA_SEGMENT (copy_from_sge off sge) =
      Inr (q\<lparr>wq_buffer := Some (store (off, sge_bytes sge) ?b)\<rparr>)"
    using put_Some [of "q\<lparr>wq_buffer := Some ?b\<rparr>" ?b off DATA_SEGMENT] l Cons.prems(2)
    by (simp add: copy_from_sge_store DATA_SEGMENT_def)
  moreover have "store (off, sge_bytes sge) ?b = store (off, concat (map sge_bytes (sge # sges))) b"
    using store_prepend [of "off + 16" off "sge_bytes sge" "concat (map sge_bytes sges)" b] Cons.prems(2) by simp
  ultimately show ?case by (simp add: DATA_SEGMENT_def)
qed

section \<open>The image of an entry\<close>

definition payload_bytes :: "payload \<Rightarrow> byte list" where
  "payload_bytes p = (case p of Sges sges \<Rightarrow> concat (map sge_bytes sges) | Inline _ \<Rightarrow> [])"

definition wqe_tail_bytes :: "queue_pair_type \<Rightarrow> send_wr \<Rightarrow> byte list" where
  "wqe_tail_bytes t wr = be32 (control_flags (sw_flags wr)) @ be32 0 @ extra_segment t (sw_op wr) @ payload_bytes (sw_payload wr)"

definition wqe_image :: "queue_pair_type \<Rightarrow> work_queue \<Rightarrow> nat \<Rightarrow> send_wr \<Rightarrow> byte list" where
  "wqe_image t q index wr = be32 ((if index AND wqe_cnt q = 0 then 0 else push_bit 31 1) OR projr (send_opcode (sw_op wr))) @
     be32 (of_nat (wqe_size_of t wr div 16)) @ wqe_tail_bytes t wr"

text \<open>What the code can send: an operation that is implemented, with data that is not an empty list.\<close>

definition sendable :: "send_wr \<Rightarrow> bool" where
  "sendable wr \<longleftrightarrow> is_ok (send_opcode (sw_op wr)) \<and> sw_payload wr \<noteq> Sges []"

lemma wqe_size_bytes: "wqe_size_of t wr = 8 + length (wqe_tail_bytes t wr)"
  by (auto simp: wqe_size_of_def wqe_tail_bytes_def payload_bytes_def CONTROL_SEGMENT_def DATA_SEGMENT_def split: payload.split)

lemma wqe_image_length [simp]: "length (wqe_image t q index wr) = wqe_size_of t wr"
  by (simp add: wqe_image_def wqe_size_bytes)

lemma put_payload_store:
  assumes "wq_buffer q = Some b" and "sw_payload wr \<noteq> Sges []" and "off + length (payload_bytes (sw_payload wr)) \<le> length b"
  shows "put_payload q off (sw_payload wr) = Inr (q\<lparr>wq_buffer := Some (store (off, payload_bytes (sw_payload wr)) b)\<rparr>)"
proof (cases "sw_payload wr")
  case (Sges sges)
  then show ?thesis using assms put_sges_rev_store [of q b off sges] by (auto simp: put_payload_def payload_bytes_def)
next
  case (Inline bs)
  then show ?thesis using assms by (simp add: put_payload_def payload_bytes_def)
qed

lemma write_wqe_stamps:
  assumes b: "wq_buffer q = Some b" and s: "sendable wr" and sp: "spare_wqes q = Some spare" "wq_head q + spare < 2 ^ 32"
    and len: "wqe_byte_offset q (wq_head q) + wqe_size_of t wr \<le> length b"
  shows "write_wqe t q wr = stamp_wqe (q\<lparr>wq_buffer := Some (store (wqe_byte_offset q (wq_head q), wqe_image t q (wq_head q) wr) b)\<rparr>)
    (wq_head q + spare) (wqe_size_of t wr)"
proof -
  define off where "off = wqe_byte_offset q (wq_head q)"
  define F where "F = be32 (control_flags (sw_flags wr)) @ be32 0"
  define X where "X = extra_segment t (sw_op wr)"
  define D where "D = payload_bytes (sw_payload wr)"
  define S where "S = be32 (of_nat (wqe_size_of t wr div 16))"
  obtain opc where opc: "send_opcode (sw_op wr) = Inr opc"
    using s by (cases "send_opcode (sw_op wr)") (auto simp: sendable_def)
  define Own where "Own = be32 ((if wq_head q AND wqe_cnt q = 0 then 0 else push_bit 31 1) OR opc)"
  have l [simp]: "length F = 8" "length S = 4" "length Own = 4" by (simp_all add: F_def S_def Own_def)
  have len': "off + 16 + length X + length D \<le> length b"
    using len by (simp add: wqe_size_bytes wqe_tail_bytes_def off_def X_def D_def)
  let ?b1 = "store (off + 4, be32 0 @ F) b" and ?b2 = "store (off + 4, be32 0 @ F @ X) b"
  let ?b3 = "store (off + 4, be32 0 @ F @ X @ D) b" and ?b4 = "store (off + 4, S @ F @ X @ D) b"
  have L: "length ?b1 = length b" "length ?b2 = length b" "length ?b3 = length b" "length ?b4 = length b"
    using len' by (simp_all add: store_length)
  have p1: "put_segment q off CONTROL_SEGMENT [(off + 4, be32 0), (off + 8, be32 (control_flags (sw_flags wr))), (off + 12, be32 0)] =
      Inr (q\<lparr>wq_buffer := Some ?b1\<rparr>)"
    using b len' store_append [of "off + 8" "off + 4" "be32 0" "be32 (control_flags (sw_flags wr))" b]
      store_append [of "off + 12" "off + 4" "be32 0 @ be32 (control_flags (sw_flags wr))" "be32 0" b]
    by (simp add: put_Some stores_def F_def CONTROL_SEGMENT_def)
  have p2: "(if X = [] then Inr (q\<lparr>wq_buffer := Some ?b1\<rparr>) else put_segment (q\<lparr>wq_buffer := Some ?b1\<rparr>) (off + CONTROL_SEGMENT) (length X) [(off + CONTROL_SEGMENT, X)]) =
      Inr (q\<lparr>wq_buffer := Some ?b2\<rparr>)"
    using len' L store_append [of "off + 16" "off + 4" "be32 0 @ F" X b] by (simp add: put_Some stores_def CONTROL_SEGMENT_def)
  have p3: "put_payload (q\<lparr>wq_buffer := Some ?b2\<rparr>) (off + CONTROL_SEGMENT + length X) (sw_payload wr) = Inr (q\<lparr>wq_buffer := Some ?b3\<rparr>)"
    using put_payload_store [of "q\<lparr>wq_buffer := Some ?b2\<rparr>" ?b2 wr "off + CONTROL_SEGMENT + length X"] s len' L
      store_append [of "off + 16 + length X" "off + 4" "be32 0 @ F @ X" D b]
    by (simp add: sendable_def D_def CONTROL_SEGMENT_def add.assoc)
  have p4: "put_segment (q\<lparr>wq_buffer := Some ?b3\<rparr>) off CONTROL_SEGMENT [(off + 4, S)] = Inr (q\<lparr>wq_buffer := Some ?b4\<rparr>)"
    using len' L store_over [of S "be32 0" "off + 4" "F @ X @ D" b] by (simp add: put_Some stores_def CONTROL_SEGMENT_def)
  have p5: "put_segment (q\<lparr>wq_buffer := Some ?b4\<rparr>) off CONTROL_SEGMENT [(off, Own)] = Inr (q\<lparr>wq_buffer := Some (store (off, Own @ S @ F @ X @ D) b)\<rparr>)"
    using len' L store_prepend [of "off + 4" off Own "S @ F @ X @ D" b] by (simp add: put_Some stores_def CONTROL_SEGMENT_def)
  have im: "wqe_image t q (wq_head q) wr = Own @ S @ F @ X @ D"
    by (simp add: wqe_image_def wqe_tail_bytes_def Own_def S_def F_def X_def D_def opc)
  show ?thesis
    unfolding write_wqe_def Let_def off_def [symmetric] X_def [symmetric] p1 and_then.simps p2 p3 S_def [symmetric] p4 opc
      Own_def [symmetric] p5 im using sp by simp
qed

section \<open>The ring\<close>

definition ring_wf :: "work_queue \<Rightarrow> bool" where
  "ring_wf q \<longleftrightarrow> (\<exists>k. wqe_cnt q = 2 ^ k \<and> k \<le> 16) \<and> wqe_cnt q * 2 ^ wqe_shift q \<le> 2 ^ 32 \<and> 4 \<le> wqe_shift q \<and>
     length (wq_metas q) = wqe_cnt q \<and> (\<exists>b. wq_buffer q = Some b \<and> wqe_cnt q * 2 ^ wqe_shift q \<le> length b) \<and>
     wq_tail q \<le> wq_head q \<and> wq_head q < 2 ^ 32 \<and> max_post q \<le> wqe_cnt q"

definition wqe_bytes :: "work_queue \<Rightarrow> nat \<Rightarrow> byte list" where
  "wqe_bytes q i = take (2 ^ wqe_shift q) (drop (wqe_byte_offset q i) (the (wq_buffer q)))"

lemma and_pow2_minus_1: "i AND (2 ^ k - 1) = i mod 2 ^ k" for i :: nat
  by (simp flip: take_bit_eq_mod add: take_bit_eq_mask mask_eq_exp_minus_1)

lemma ring_index_mod: "ring_wf q \<Longrightarrow> ring_index q i = i mod wqe_cnt q"
proof -
  assume "ring_wf q"
  then obtain k where "wqe_cnt q = 2 ^ k" by (auto simp: ring_wf_def)
  then show ?thesis by (simp only: ring_index_def and_pow2_minus_1)
qed

lemma ring_cnt_pos: "ring_wf q \<Longrightarrow> 0 < wqe_cnt q"
  by (auto simp: ring_wf_def)

lemma slot_bound:
  assumes "ring_wf q"
  shows "(i mod wqe_cnt q) * 2 ^ wqe_shift q + 2 ^ wqe_shift q \<le> wqe_cnt q * 2 ^ wqe_shift q"
proof -
  have "i mod wqe_cnt q + 1 \<le> wqe_cnt q" using ring_cnt_pos [OF assms] by (simp add: Suc_le_eq)
  then have "(i mod wqe_cnt q + 1) * 2 ^ wqe_shift q \<le> wqe_cnt q * 2 ^ wqe_shift q" by (rule mult_le_mono1)
  then show ?thesis by (simp add: algebra_simps)
qed

lemma wqe_offset: "ring_wf q \<Longrightarrow> wqe_byte_offset q i = (i mod wqe_cnt q) * 2 ^ wqe_shift q"
proof -
  assume w: "ring_wf q"
  have "(i mod wqe_cnt q) * 2 ^ wqe_shift q < 2 ^ 32"
    using slot_bound [OF w, of i] w by (auto simp: ring_wf_def intro: less_le_trans [of _ "(i mod wqe_cnt q) * 2 ^ wqe_shift q + 2 ^ wqe_shift q"])
  then show ?thesis by (simp add: wqe_byte_offset_def ring_index_mod [OF w] push_bit_eq_mult)
qed

lemma slot_disjoint:
  assumes w: "ring_wf q" and ne: "i mod wqe_cnt q \<noteq> j mod wqe_cnt q"
  shows "wqe_byte_offset q i + 2 ^ wqe_shift q \<le> wqe_byte_offset q j \<or> wqe_byte_offset q j + 2 ^ wqe_shift q \<le> wqe_byte_offset q i"
proof -
  have *: "a * 2 ^ wqe_shift q + 2 ^ wqe_shift q \<le> c * 2 ^ wqe_shift q" if "a < c" for a c :: nat
  proof -
    have "(a + 1) * 2 ^ wqe_shift q \<le> c * 2 ^ wqe_shift q" using that by (intro mult_le_mono1) simp
    then show ?thesis by (simp add: algebra_simps)
  qed
  show ?thesis using ne * by (cases "i mod wqe_cnt q < j mod wqe_cnt q") (auto simp: wqe_offset [OF w])
qed

text \<open>Bytes outside the slot of \<open>j\<close> stay.\<close>

definition only_slot :: "work_queue \<Rightarrow> nat \<Rightarrow> byte list \<Rightarrow> byte list \<Rightarrow> bool" where
  "only_slot q j b b' \<longleftrightarrow> length b' = length b \<and>
     (\<forall>p < length b. p < wqe_byte_offset q j \<or> wqe_byte_offset q j + 2 ^ wqe_shift q \<le> p \<longrightarrow> b' ! p = b ! p)"

lemma only_slot_other:
  assumes w: "ring_wf q" and b: "wq_buffer q = Some b" and o: "only_slot q j b b'" and ne: "i mod wqe_cnt q \<noteq> j mod wqe_cnt q"
  shows "wqe_bytes (q\<lparr>wq_buffer := Some b'\<rparr>) i = wqe_bytes q i"
proof -
  have off: "wqe_byte_offset (q\<lparr>wq_buffer := Some b'\<rparr>) i = wqe_byte_offset q i"
    by (simp add: wqe_byte_offset_def ring_index_def)
  have "wqe_byte_offset q i + 2 ^ wqe_shift q \<le> length b"
    using slot_bound [OF w, of i] w b by (auto simp: ring_wf_def wqe_offset)
  then show ?thesis using o slot_disjoint [OF w ne] unfolding wqe_bytes_def off
    by (intro nth_equalityI) (auto simp: only_slot_def b)
qed

lemma only_slot_trans: "only_slot q j b b1 \<Longrightarrow> only_slot q j b1 b2 \<Longrightarrow> only_slot q j b b2"
  by (auto simp: only_slot_def)

lemma only_slot_store:
  assumes "wqe_byte_offset q j \<le> o1" and "o1 + length bs \<le> wqe_byte_offset q j + 2 ^ wqe_shift q" and "o1 + length bs \<le> length b"
  shows "only_slot q j b (store (o1, bs) b)"
  using assms by (auto simp: only_slot_def store_length store_nth)

lemma blocks_inside:
  assumes "e \<in> set (blocks lo (lo + 2 ^ s))" and "2 \<le> s"
  shows "lo \<le> e \<and> e + 4 \<le> lo + 2 ^ s"
proof -
  have *: "\<exists>m. e = lo + 64 * m \<and> e < lim" if "e \<in> set (blocks lo lim)" for lo lim :: nat
    using that
  proof (induction lo lim rule: blocks.induct)
    case (1 lo lim)
    show ?case
    proof (cases "e = lo")
      case True
      then show ?thesis using "1.prems" by (auto simp: blocks.simps [of lo] split: if_splits)
    next
      case False
      then have "lo < lim" "e \<in> set (blocks (lo + 64) lim)" using "1.prems" by (auto simp: blocks.simps [of lo] split: if_splits)
      then obtain m where "e = lo + 64 + 64 * m" "e < lim" using "1.IH" by blast
      then show ?thesis by (intro exI [of _ "Suc m"]) simp
    qed
  qed
  obtain m where m: "e = lo + 64 * m" "64 * m < 2 ^ s" using * [OF assms(1)] by auto
  have "64 * m + 4 \<le> 2 ^ s"
  proof (cases "6 \<le> s")
    case True
    then obtain r where "s = 6 + r" using le_Suc_ex by blast
    then have "(2 :: nat) ^ s = 64 * 2 ^ r" by (simp add: power_add)
    then show ?thesis using m(2) by simp
  next
    case False
    then have "(2 :: nat) ^ s \<le> 2 ^ 5" by (intro power_increasing) auto
    then have "m = 0" using m(2) by simp
    moreover have "(2 :: nat) ^ 2 \<le> 2 ^ s" using assms(2) by (intro power_increasing) auto
    ultimately show ?thesis by simp
  qed
  then show ?thesis using m(1) by simp
qed

lemma stamp_wqebb_slot:
  assumes w: "ring_wf q" and b: "wq_buffer q = Some b"
  obtains b' where "stamp_wqebb q index = Inr (Inr (), q\<lparr>wq_buffer := Some b'\<rparr>)" "only_slot q index b b'"
proof -
  obtain k where k: "wqe_cnt q = 2 ^ k" "k \<le> 16" using w by (auto simp: ring_wf_def)
  have np: "next_power_of_two (wqe_cnt q) = Inr (wqe_cnt q)" using next_power_of_two_power [of k] k by simp
  let ?lo = "wqe_byte_offset q index" and ?lim = "wqe_byte_offset q index + 2 ^ wqe_shift q"
  have lim: "?lim \<le> length b" using slot_bound [OF w, of index] w b by (auto simp: ring_wf_def wqe_offset)
  have in_slot: "?lo \<le> e \<and> e + 4 \<le> ?lim" if "e \<in> set (blocks ?lo ?lim)" for e
    using blocks_inside [OF that] w by (simp add: ring_wf_def)
  have st: "only_slot q index b1 (stores (map (\<lambda>i. (i, mark)) es) b1)"
    if "length (mark :: byte list) = 4" "length b1 = length b" "set es \<subseteq> set (blocks ?lo ?lim)" for mark es b1
    using that
  proof (induction es arbitrary: b1)
    case (Cons e es)
    have o: "only_slot q index b1 (store (e, mark) b1)"
      using in_slot [of e] Cons.prems lim by (intro only_slot_store) auto
    moreover have "only_slot q index (store (e, mark) b1) (stores (map (\<lambda>i. (i, mark)) es) (store (e, mark) b1))"
      using Cons.IH [of "store (e, mark) b1"] Cons.prems o by (simp add: only_slot_def)
    ultimately show ?case using only_slot_trans by (simp add: stores_def)
  qed (simp add: only_slot_def stores_def)
  have all: "list_all (\<lambda>i. i + 3 < length b) (blocks ?lo ?lim)"
    using in_slot lim by (fastforce simp: list_all_iff)
  let ?mark = "[0x7F OR (if (index div 2 ^ trailing_zeros (wqe_cnt q)) mod 2 = 0 then 0x80 else 0), 0xFF, 0xFF, 0xFF] :: byte list"
  have "stamp_wqebb q index = Inr (Inr (), q\<lparr>wq_buffer := Some (stores (map (\<lambda>i. (i, ?mark)) (blocks ?lo ?lim)) b)\<rparr>)"
    using all by (simp add: stamp_wqebb_def np b Let_def)
  with st [of ?mark b "blocks ?lo ?lim"] that show ?thesis by simp
qed

lemma stamp_wqe_slot:
  assumes w: "ring_wf q" and b: "wq_buffer q = Some b" and sz: "0 < sz" "sz \<le> 2 ^ wqe_shift q" and i: "index < 2 ^ 32"
  obtains b' where "stamp_wqe q index sz = Inr (Inr (), q\<lparr>wq_buffer := Some b'\<rparr>)" "only_slot q index b b'"
proof -
  have "div_ceil sz (2 ^ wqe_shift q) = 1" unfolding div_ceil_def
    using sz by (intro div_nat_eqI) auto
  moreover obtain b' where "stamp_wqebb q index = Inr (Inr (), q\<lparr>wq_buffer := Some b'\<rparr>)" "only_slot q index b b'"
    using stamp_wqebb_slot [OF w b] .
  ultimately show ?thesis using that i by (simp add: stamp_wqe_def)
qed

section \<open>Posting to the send queue\<close>

definition sq_wf :: "queue_pair_type \<Rightarrow> work_queue \<Rightarrow> bool" where
  "sq_wf t q \<longleftrightarrow> ring_wf q \<and> (\<exists>s. spare_wqes q = Some s \<and> 0 < s \<and> max_post q + s \<le> wqe_cnt q) \<and>
     send_wqe_overhead t + 16 * max_gs q \<le> 2 ^ wqe_shift q"

definition fits :: "work_queue \<Rightarrow> send_wr \<Rightarrow> bool" where
  "fits q wr \<longleftrightarrow> (case sw_payload wr of Sges sges \<Rightarrow> length sges \<le> max_gs q | Inline _ \<Rightarrow> True)"

lemma extra_segment_length: "16 + length (extra_segment t op) \<le> send_wqe_overhead t"
  by (auto simp: extra_segment_def send_wqe_overhead_def remote_address_segment_def datagram_segment_def
      CONTROL_SEGMENT_def REMOTE_SEGMENT_def DATAGRAM_SEGMENT_def split: queue_pair_type.split send_operation.split)

lemma wqe_size_le: "sq_wf t q \<Longrightarrow> fits q wr \<Longrightarrow> 0 < wqe_size_of t wr \<and> wqe_size_of t wr \<le> 2 ^ wqe_shift q"
  using extra_segment_length [of t "sw_op wr"]
  by (auto simp: sq_wf_def fits_def wqe_size_of_def CONTROL_SEGMENT_def DATA_SEGMENT_def split: payload.splits)

lemma mod_neq: "i < j \<Longrightarrow> j - i < n \<Longrightarrow> i mod n \<noteq> j mod n" for i j n :: nat
  by (metis diff_is_0_eq gcd_nat.extremum_uniqueI linorder_not_le mod_eq_dvd_iff_nat nat_dvd_not_less nless_le zero_less_diff)

lemma write_wqe_ok:
  assumes w: "sq_wf t q" and s: "sendable wr" and f: "fits q wr" and room: "wq_head q - wq_tail q + 1 < max_post q"
    and sp: "spare_wqes q = Some spare" "wq_head q + spare < 2 ^ 32"
  obtains b' where "write_wqe t q wr = Inr (Inr (), q\<lparr>wq_buffer := Some b'\<rparr>)" "length b' = length (the (wq_buffer q))"
    "take (wqe_size_of t wr) (wqe_bytes (q\<lparr>wq_buffer := Some b'\<rparr>) (wq_head q)) = wqe_image t q (wq_head q) wr"
    "\<forall>i. wq_tail q \<le> i \<longrightarrow> i < wq_head q \<longrightarrow> wqe_bytes (q\<lparr>wq_buffer := Some b'\<rparr>) i = wqe_bytes q i"
proof -
  have r: "ring_wf q" and post: "max_post q + spare \<le> wqe_cnt q" "0 < spare" using w sp by (auto simp: sq_wf_def)
  obtain b where b: "wq_buffer q = Some b" "wqe_cnt q * 2 ^ wqe_shift q \<le> length b" using r by (auto simp: ring_wf_def)
  let ?h = "wq_head q" and ?off = "wqe_byte_offset q (wq_head q)" and ?im = "wqe_image t q (wq_head q) wr"
  have sz: "0 < wqe_size_of t wr" "wqe_size_of t wr \<le> 2 ^ wqe_shift q" using wqe_size_le [OF w f] by auto
  have slot: "?off + 2 ^ wqe_shift q \<le> length b" using slot_bound [OF r, of ?h] b by (simp add: wqe_offset [OF r])
  define b1 where "b1 = store (?off, ?im) b"
  let ?q1 = "q\<lparr>wq_buffer := Some b1\<rparr>"
  have o1: "only_slot q ?h b b1" unfolding b1_def using slot sz by (intro only_slot_store) auto
  have r1: "ring_wf ?q1" using r b o1 by (auto simp: ring_wf_def only_slot_def)
  have same: "wqe_byte_offset (q\<lparr>wq_buffer := x\<rparr>) = wqe_byte_offset q" for x
    by (simp add: fun_eq_iff wqe_byte_offset_def ring_index_def)
  obtain b2 where b2: "stamp_wqe ?q1 (?h + spare) (wqe_size_of t wr) = Inr (Inr (), ?q1\<lparr>wq_buffer := Some b2\<rparr>)" "only_slot ?q1 (?h + spare) b1 b2"
    using stamp_wqe_slot [OF r1, of b1 "wqe_size_of t wr" "?h + spare"] sz sp(2) by auto
  have eq: "write_wqe t q wr = Inr (Inr (), q\<lparr>wq_buffer := Some b2\<rparr>)"
    using write_wqe_stamps [OF b(1) s sp, of t] slot sz b2(1) by (simp add: b1_def)
  have ne: "i mod wqe_cnt q \<noteq> (?h + spare) mod wqe_cnt q" if "wq_tail q \<le> i" "i \<le> ?h" for i
    using that room post by (intro mod_neq) auto
  have keep: "wqe_bytes (q\<lparr>wq_buffer := Some b2\<rparr>) i = wqe_bytes ?q1 i" if "wq_tail q \<le> i" "i \<le> ?h" for i
    using only_slot_other [OF r1 _ b2(2), of i] ne [OF that] by simp
  have "take (wqe_size_of t wr) (wqe_bytes ?q1 ?h) = ?im"
    using sz slot by (simp add: wqe_bytes_def same b1_def store_def min_def)
  moreover have "wq_tail q \<le> ?h" using r by (simp add: ring_wf_def)
  ultimately have "take (wqe_size_of t wr) (wqe_bytes (q\<lparr>wq_buffer := Some b2\<rparr>) ?h) = ?im" using keep [of ?h] by simp
  moreover have "wqe_bytes (q\<lparr>wq_buffer := Some b2\<rparr>) i = wqe_bytes q i" if i: "wq_tail q \<le> i" "i < ?h" for i
  proof -
    have "i mod wqe_cnt q \<noteq> ?h mod wqe_cnt q" using i room post by (intro mod_neq) auto
    then show ?thesis using only_slot_other [OF r b(1) o1] keep [of i] i by simp
  qed
  moreover have "length b2 = length (the (wq_buffer q))" using b2(2) o1 b(1) by (simp add: only_slot_def)
  ultimately show ?thesis using that eq by blast
qed

section \<open>Requests that are not completed\<close>

text \<open>
  The signaled requests in the ring in the order of posting: the index of the entry, the identifier
  and the number of entries that its completion gives back. \<open>lost\<close> counts entries that no completion
  gives back.
\<close>

type_synonym outs = "(nat \<times> 64 word \<times> nat) list"

fun chained :: "nat \<Rightarrow> nat \<Rightarrow> outs \<Rightarrow> bool" where
  "chained t h [] \<longleftrightarrow> t \<le> h"
| "chained t h ((p, i, n) # os) \<longleftrightarrow> 0 < n \<and> t + n \<le> p + 1 \<and> p < h \<and> (\<forall>o1 \<in> set os. p < fst o1) \<and> chained (t + n) h os"

definition meta_of :: "nat \<Rightarrow> outs \<Rightarrow> nat \<Rightarrow> wq_meta option" where
  "meta_of cnt os x = (case find (\<lambda>(p, _). p mod cnt = x) os of
       Some (p, i, n) \<Rightarrow> Some \<lparr>wm_id = i, chain_size = n\<rparr> | None \<Rightarrow> None)"

abbreviation given_back :: "outs \<Rightarrow> nat" where
  "given_back os \<equiv> sum_list (map (\<lambda>(p, i, n). n) os)"

definition outstanding :: "work_queue \<Rightarrow> outs \<Rightarrow> nat \<Rightarrow> bool" where
  "outstanding q os lost \<longleftrightarrow> chained (wq_tail q) (wq_head q) os \<and> wq_head q = wq_tail q + given_back os + lost \<and>
     wq_head q - wq_tail q \<le> wqe_cnt q \<and> (\<forall>x < wqe_cnt q. wq_metas q ! x = meta_of (wqe_cnt q) os x)"

lemma chained_range: "chained t h os \<Longrightarrow> (p, i, n) \<in> set os \<Longrightarrow> t \<le> p \<and> p < h \<and> 0 < n"
  by (induction t h os rule: chained.induct) fastforce+

lemma chained_le: "chained t h os \<Longrightarrow> t \<le> h"
  by (induction t h os rule: chained.induct) auto

lemma chained_snoc:
  "chained t h os \<Longrightarrow> 0 < n \<Longrightarrow> t + given_back os + n \<le> h + 1 \<Longrightarrow> chained t (h + 1) (os @ [(h, i, n)])"
proof (induction t h os rule: chained.induct)
  case (2 t h p i' n' os)
  then have "chained (t + n') (h + 1) (os @ [(h, i, n)])" by simp
  moreover have "\<forall>o1 \<in> set (os @ [(h, i, n)]). p < fst o1" using "2.prems"(1) by auto
  ultimately show ?case using "2.prems"(1) by simp
qed simp

lemma chained_mono: "chained t h os \<Longrightarrow> h \<le> h' \<Longrightarrow> chained t h' os"
  by (induction t h os rule: chained.induct) auto

lemma meta_of_snoc:
  assumes "\<And>p j m. (p, j, m) \<in> set os \<Longrightarrow> p mod cnt \<noteq> h mod cnt"
  shows "meta_of cnt (os @ [(h, i, n)]) x = (if x = h mod cnt then Some \<lparr>wm_id = i, chain_size = n\<rparr> else meta_of cnt os x)"
proof -
  have ap: "find P (xs @ ys) = (case find P xs of Some v \<Rightarrow> Some v | None \<Rightarrow> find P ys)" for P and xs ys :: outs
    by (induction xs) auto
  show ?thesis
  proof (cases "x = h mod cnt")
    case True
    then have "find (\<lambda>(p, _). p mod cnt = x) os = None" using assms by (auto simp: find_None_iff)
    then show ?thesis using True by (simp add: meta_of_def ap)
  next
    case False
    then show ?thesis by (auto simp: meta_of_def ap split: option.split)
  qed
qed

lemma meta_of_Cons:
  "meta_of cnt ((p, i, n) # os) x = (if p mod cnt = x then Some \<lparr>wm_id = i, chain_size = n\<rparr> else meta_of cnt os x)"
  by (simp add: meta_of_def)

lemma outstanding_residues:
  assumes "chained t h os" and "(p, i, n) \<in> set os" and "t \<le> h" "h - t < cnt"
  shows "p mod cnt \<noteq> h mod cnt"
  using chained_range [OF assms(1,2)] assms(3,4) by (intro mod_neq) auto

text \<open>One entry more, with or without a completion.\<close>

lemma outstanding_signaled:
  assumes o: "chained (wq_tail q) (wq_head q) os" and h: "wq_head q + 1 = wq_tail q + given_back os + lost + n" and n: "0 < n"
    and room: "wq_head q - wq_tail q < wqe_cnt q" and m: "\<forall>x < wqe_cnt q. wq_metas q ! x = meta_of (wqe_cnt q) os x"
    and l: "length (wq_metas q) = wqe_cnt q" and lt: "wq_head q + 1 < 2 ^ 32"
  shows "outstanding (advance_head (q\<lparr>wq_metas := (wq_metas q)[wq_head q mod wqe_cnt q := Some \<lparr>wm_id = i, chain_size = n\<rparr>]\<rparr>))
    (os @ [(wq_head q, i, n)]) lost"
proof -
  have "chained (wq_tail q) (wq_head q + 1) (os @ [(wq_head q, i, n)])" using chained_snoc [OF o n] h by simp
  moreover have "meta_of (wqe_cnt q) (os @ [(wq_head q, i, n)]) x =
      (if x = wq_head q mod wqe_cnt q then Some \<lparr>wm_id = i, chain_size = n\<rparr> else meta_of (wqe_cnt q) os x)" for x
    using outstanding_residues [OF o] chained_le [OF o] room by (intro meta_of_snoc) auto
  moreover have "wq_head q mod wqe_cnt q < wqe_cnt q" using room by simp
  ultimately show ?thesis using h room m l lt
    by (auto simp: outstanding_def advance_head_def nth_list_update)
qed

lemma resolve_outstanding:
  assumes w: "ring_wf q" and o: "outstanding q ((p, i, n) # os) lost"
  obtains q' where "wq_resolve_completion q (p mod 2 ^ 16) = Inr (Some i, q')" "outstanding q' os lost" "ring_wf q'"
    "wq_tail q' = wq_tail q + n" "wq_head q' = wq_head q" "max_post q' = max_post q" "spare_wqes q' = spare_wqes q"
    "max_gs q' = max_gs q" "wqe_shift q' = wqe_shift q" "wqe_cnt q' = wqe_cnt q" "wq_buffer q' = wq_buffer q"
    "divergence_reported q' \<longleftrightarrow> divergence_reported q \<or> wq_tail q mod wqe_cnt q \<noteq> p mod wqe_cnt q"
proof -
  obtain k where k: "wqe_cnt q = 2 ^ k" "k \<le> 16" using w by (auto simp: ring_wf_def)
  have "(2 :: nat) ^ k dvd 2 ^ 16" using k(2) by (rule le_imp_power_dvd)
  then have "p mod 2 ^ 16 mod wqe_cnt q = p mod wqe_cnt q" unfolding k(1) by (rule mod_mod_cancel)
  then have idx: "p mod 65536 mod wqe_cnt q = p mod wqe_cnt q" by simp
  have c: "0 < n" "wq_tail q + n \<le> p + 1" "p < wq_head q" "chained (wq_tail q + n) (wq_head q) os"
    "\<And>p' j m. (p', j, m) \<in> set os \<Longrightarrow> p < p'" using o by (auto simp: outstanding_def)
  define q1 where "q1 = check_wqe_index q (p mod 65536)"
  have q1: "q1 = q\<lparr>divergence_reported := (divergence_reported q \<or> wq_tail q mod wqe_cnt q \<noteq> p mod wqe_cnt q)\<rparr>"
    by (auto simp: q1_def check_wqe_index_def ring_index_mod [OF w] idx)
  have x: "p mod wqe_cnt q < wqe_cnt q" using ring_cnt_pos [OF w] by simp
  have m: "wq_metas q ! (p mod wqe_cnt q) = Some \<lparr>wm_id = i, chain_size = n\<rparr>"
    using o x by (simp add: outstanding_def meta_of_Cons)
  have lt: "wq_tail q + n < 2 ^ 32" using c(2,3) w by (simp add: ring_wf_def)
  define q' where "q' = q1\<lparr>wq_metas := (wq_metas q)[p mod wqe_cnt q := None], wq_tail := wq_tail q + n\<rparr>"
  have ri: "ring_index q1 (p mod 65536) = p mod wqe_cnt q"
    using ring_index_mod [OF w, of "p mod 65536"] idx by (simp add: q1 ring_index_def)
  have "wq_resolve_completion q (p mod 65536) = Inr (Some i, q')"
    unfolding wq_resolve_completion_def q1_def [symmetric] Let_def ri
    using w x m lt by (simp add: q1 q'_def ring_wf_def)
  then have "wq_resolve_completion q (p mod 2 ^ 16) = Inr (Some i, q')" by simp
  moreover have "ring_wf q'" using w chained_le [OF c(4)] by (auto simp: q'_def q1 ring_wf_def)
  moreover have "p' mod wqe_cnt q \<noteq> p mod wqe_cnt q" if "(p', j, l) \<in> set os" for p' j l
  proof -
    have "p' < wq_head q" using chained_range [OF c(4) that] by simp
    moreover have "wq_head q - wq_tail q \<le> wqe_cnt q" using o unfolding outstanding_def by blast
    ultimately have "p mod wqe_cnt q \<noteq> p' mod wqe_cnt q" using c(5) [OF that] c(1,2) by (intro mod_neq) auto
    then show ?thesis by simp
  qed
  then have "find (\<lambda>(p', _). p' mod wqe_cnt q = p mod wqe_cnt q) os = None" by (auto simp: find_None_iff)
  then have "meta_of (wqe_cnt q) os (p mod wqe_cnt q) = None" by (simp add: meta_of_def)
  then have "outstanding q' os lost" using o x c(4) w
    by (auto simp: outstanding_def q'_def q1 meta_of_Cons nth_list_update ring_wf_def)
  ultimately show ?thesis using that by (simp add: q'_def q1)
qed

section \<open>A call that posts sends\<close>

text \<open>The requests that a call adds, and the number of entries at its end that are not given back, plus one.\<close>

fun new_outs :: "nat \<Rightarrow> nat \<Rightarrow> send_wr list \<Rightarrow> outs \<times> nat" where
  "new_outs h c [] = ([], c)"
| "new_outs h c (wr # wrs) =
     (if has_flag (sw_flags wr) SIGNALED
      then ((h, sw_id wr, c) # fst (new_outs (h + 1) 1 wrs), snd (new_outs (h + 1) 1 wrs))
      else new_outs (h + 1) (c + 1) wrs)"

definition same_ring :: "work_queue \<Rightarrow> work_queue \<Rightarrow> bool" where
  "same_ring q q' \<longleftrightarrow> wqe_cnt q' = wqe_cnt q \<and> wqe_shift q' = wqe_shift q \<and> max_post q' = max_post q \<and> max_gs q' = max_gs q \<and>
     spare_wqes q' = spare_wqes q \<and> wq_tail q' = wq_tail q"

lemma same_ring_trans: "same_ring q q1 \<Longrightarrow> same_ring q1 q2 \<Longrightarrow> same_ring q q2"
  by (simp add: same_ring_def)

lemma same_ring_fits: "same_ring q q' \<Longrightarrow> fits q' wr = fits q wr"
  by (auto simp: same_ring_def fits_def split: payload.split)

lemma same_ring_image: "same_ring q q' \<Longrightarrow> wqe_image t q' i wr = wqe_image t q i wr"
  by (simp add: same_ring_def wqe_image_def)

text \<open>One entry of the loop.\<close>

lemma post_one:
  assumes w: "sq_wf t q" and s: "sendable wr" and f: "fits q wr" and room: "wq_head q - wq_tail q + 1 < max_post q"
    and sp: "spare_wqes q = Some spare" "wq_head q + spare + 1 < 2 ^ 32" and o: "outstanding q os L" "0 < chain" "chain \<le> L + 1" "chain + 1 < 2 ^ 32"
  obtains q' where "\<And>wrs. post_send_loop t q chain (wr # wrs) =
      post_send_loop t q' (if has_flag (sw_flags wr) SIGNALED then 1 else chain + 1) wrs"
    "sq_wf t q'" "same_ring q q'" "wq_head q' = wq_head q + 1"
    "outstanding q' (if has_flag (sw_flags wr) SIGNALED then os @ [(wq_head q, sw_id wr, chain)] else os)
       (if has_flag (sw_flags wr) SIGNALED then L + 1 - chain else L + 1)"
    "take (wqe_size_of t wr) (wqe_bytes q' (wq_head q)) = wqe_image t q (wq_head q) wr"
    "\<forall>i. wq_tail q \<le> i \<longrightarrow> i < wq_head q \<longrightarrow> wqe_bytes q' i = wqe_bytes q i"
proof -
  have r: "ring_wf q" using w by (simp add: sq_wf_def)
  obtain b' where b': "write_wqe t q wr = Inr (Inr (), q\<lparr>wq_buffer := Some b'\<rparr>)" "length b' = length (the (wq_buffer q))"
    "take (wqe_size_of t wr) (wqe_bytes (q\<lparr>wq_buffer := Some b'\<rparr>) (wq_head q)) = wqe_image t q (wq_head q) wr"
    "\<forall>i. wq_tail q \<le> i \<longrightarrow> i < wq_head q \<longrightarrow> wqe_bytes (q\<lparr>wq_buffer := Some b'\<rparr>) i = wqe_bytes q i"
    using write_wqe_ok [OF w s f room sp(1)] sp(2) by auto
  let ?q1 = "q\<lparr>wq_buffer := Some b'\<rparr>"
  have r1: "ring_wf ?q1" using r b'(2) by (auto simp: ring_wf_def)
  let ?q2 = "if has_flag (sw_flags wr) SIGNALED
    then ?q1\<lparr>wq_metas := (wq_metas q)[wq_head q mod wqe_cnt q := Some \<lparr>wm_id = sw_id wr, chain_size = chain\<rparr>]\<rparr> else ?q1"
  let ?q' = "advance_head ?q2"
  have meta: "update_meta_for_head ?q1 (sw_id wr) chain =
      Inr (?q1\<lparr>wq_metas := (wq_metas q)[wq_head q mod wqe_cnt q := Some \<lparr>wm_id = sw_id wr, chain_size = chain\<rparr>]\<rparr>)"
    using r ring_cnt_pos [OF r] by (simp add: update_meta_for_head_def ring_index_mod [OF r1] ring_wf_def not_le)
  have wo: "would_overflow q = Inr False" using r room sp(2) by (simp add: would_overflow_def ring_wf_def)
  have nf: "\<not> (case sw_payload wr of Sges sges \<Rightarrow> length sges > max_gs q | _ \<Rightarrow> False)"
    using f by (auto simp: fits_def split: payload.split)
  have eq: "post_send_loop t q chain (wr # wrs) = post_send_loop t ?q' (if has_flag (sw_flags wr) SIGNALED then 1 else chain + 1) wrs" for wrs
    using nf o(4) by (simp add: wo b'(1) meta)
  have head: "wq_head ?q' = wq_head q + 1" using sp(2) by (simp add: advance_head_def)
  have wf: "sq_wf t ?q'" using w b'(2) sp(2) by (auto simp: sq_wf_def ring_wf_def advance_head_def)
  have cnt: "wq_head q - wq_tail q < wqe_cnt q" using room r by (simp add: ring_wf_def)
  have o': "chained (wq_tail q) (wq_head q) os" "wq_head q = wq_tail q + given_back os + L"
      "\<forall>x < wqe_cnt q. wq_metas q ! x = meta_of (wqe_cnt q) os x" using o(1) unfolding outstanding_def by blast+
  have out: "outstanding ?q' (if has_flag (sw_flags wr) SIGNALED then os @ [(wq_head q, sw_id wr, chain)] else os)
       (if has_flag (sw_flags wr) SIGNALED then L + 1 - chain else L + 1)"
  proof (cases "has_flag (sw_flags wr) SIGNALED")
    case True
    then show ?thesis
      using outstanding_signaled [of ?q1 os "L + 1 - chain" chain "sw_id wr"] o' o(2,3) cnt r sp(2)
      by (simp add: ring_wf_def)
  next
    case False
    then show ?thesis using o' cnt chained_mono [OF o'(1), of "wq_head q + 1"] sp(2) chained_le [OF o'(1)]
      by (auto simp: outstanding_def advance_head_def)
  qed
  have bytes: "wqe_bytes ?q' = wqe_bytes ?q1"
    by (simp add: fun_eq_iff wqe_bytes_def wqe_byte_offset_def ring_index_def advance_head_def)
  have sr: "same_ring q ?q'" by (simp add: same_ring_def advance_head_def)
  have "take (wqe_size_of t wr) (wqe_bytes ?q' (wq_head q)) = wqe_image t q (wq_head q) wr" unfolding bytes by (rule b'(3))
  moreover have "\<forall>i. wq_tail q \<le> i \<longrightarrow> i < wq_head q \<longrightarrow> wqe_bytes ?q' i = wqe_bytes q i" unfolding bytes by (rule b'(4))
  ultimately show ?thesis by (rule that [OF eq wf sr head out])
qed

text \<open>
  A whole call: \<open>n\<close> requests are posted, all of them or as many as there is room for.
\<close>

definition posted :: "queue_pair_type \<Rightarrow> work_queue \<Rightarrow> send_wr list \<Rightarrow> nat \<Rightarrow> work_queue \<Rightarrow> bool" where
  "posted t q wrs n q' \<longleftrightarrow> same_ring q q' \<and> wq_head q' = wq_head q + n \<and>
     (\<forall>i. wq_tail q \<le> i \<longrightarrow> i < wq_head q \<longrightarrow> wqe_bytes q' i = wqe_bytes q i) \<and>
     (\<forall>j < n. take (wqe_size_of t (wrs ! j)) (wqe_bytes q' (wq_head q + j)) = wqe_image t q (wq_head q + j) (wrs ! j))"

text \<open>Why a call stops: it is done, the ring is full, or a request does not fit in an entry.\<close>

definition stopped :: "work_queue \<Rightarrow> send_wr list \<Rightarrow> nat \<Rightarrow> work_queue \<Rightarrow> io_error + unit \<Rightarrow> bool" where
  "stopped q wrs n q' r \<longleftrightarrow> r = Inr () \<and> n = length wrs \<or>
     r = Inl (Other ''send queue would overflow'') \<and> n < length wrs \<and> max_post q \<le> wq_head q' - wq_tail q' + 1 \<or>
     r = Inl (Other ''work request has too many sges'') \<and> n < length wrs \<and> \<not> fits q (wrs ! n)"

lemma post_send_loop_ok:
  assumes "sq_wf t q" and "\<forall>wr \<in> set wrs. sendable wr" and "spare_wqes q = Some spare"
    and "wq_head q + spare + length wrs < 2 ^ 32" and "outstanding q os L" "0 < chain" "chain \<le> L + 1" "chain + length wrs < 2 ^ 32"
  shows "\<exists>r q' n. post_send_loop t q chain wrs = Inr (r, q') \<and> sq_wf t q' \<and> posted t q wrs n q' \<and>
    stopped q wrs n q' r \<and> outstanding q' (os @ fst (new_outs (wq_head q) chain (take n wrs))) (L + snd (new_outs (wq_head q) chain (take n wrs)) - chain)"
  using assms
proof (induction wrs arbitrary: q chain os L)
  case Nil
  then show ?case by (intro exI [of _ "Inr ()"] exI [of _ q] exI [of _ 0]) (simp add: posted_def same_ring_def stopped_def)
next
  case (Cons wr wrs)
  have r: "ring_wf q" using Cons.prems(1) by (simp add: sq_wf_def)
  have wo: "would_overflow q = Inr (max_post q \<le> wq_head q - wq_tail q + 1)"
    using r Cons.prems(4) by (simp add: would_overflow_def ring_wf_def)
  consider "max_post q \<le> wq_head q - wq_tail q + 1" | "wq_head q - wq_tail q + 1 < max_post q" "\<not> fits q wr"
    | "wq_head q - wq_tail q + 1 < max_post q" "fits q wr" by linarith
  then show ?case
  proof cases
    case 1
    then have "post_send_loop t q chain (wr # wrs) = Inr (Inl (Other ''send queue would overflow''), q)" by (simp add: wo)
    then show ?thesis using 1 Cons.prems(1,5)
      by (intro exI [of _ "Inl (Other ''send queue would overflow'')"] exI [of _ q] exI [of _ 0]) (simp add: posted_def same_ring_def stopped_def)
  next
    case 2
    then have "post_send_loop t q chain (wr # wrs) = Inr (Inl (Other ''work request has too many sges''), q)"
      by (auto simp: wo fits_def split: payload.splits)
    then show ?thesis using 2 Cons.prems(1,5)
      by (intro exI [of _ "Inl (Other ''work request has too many sges'')"] exI [of _ q] exI [of _ 0]) (simp add: posted_def same_ring_def stopped_def)
  next
    case 3
    let ?sig = "has_flag (sw_flags wr) SIGNALED"
    let ?os = "if ?sig then os @ [(wq_head q, sw_id wr, chain)] else os" and ?L = "if ?sig then L + 1 - chain else L + 1"
    let ?c = "if ?sig then 1 else chain + 1"
    obtain q1 where q1: "\<And>wrs. post_send_loop t q chain (wr # wrs) = post_send_loop t q1 ?c wrs" "sq_wf t q1" "same_ring q q1"
      "wq_head q1 = wq_head q + 1" "outstanding q1 ?os ?L"
      "take (wqe_size_of t wr) (wqe_bytes q1 (wq_head q)) = wqe_image t q (wq_head q) wr"
      "\<forall>i. wq_tail q \<le> i \<longrightarrow> i < wq_head q \<longrightarrow> wqe_bytes q1 i = wqe_bytes q i"
      using post_one [OF Cons.prems(1) _ 3(2,1) Cons.prems(3) _ Cons.prems(5-7)] Cons.prems(2,4,8) by auto
    have f1: "\<forall>wr \<in> set wrs. sendable wr" using Cons.prems(2) by simp
    have s1: "spare_wqes q1 = Some spare" using q1(3) Cons.prems(3) by (simp add: same_ring_def)
    have h: "wq_head q1 + spare + length wrs < 2 ^ 32" "0 < ?c" "?c \<le> ?L + 1" "?c + length wrs < 2 ^ 32"
      using q1(4) Cons.prems(4,7,8) by (simp_all split: if_split)
    obtain r q' n where q': "post_send_loop t q1 ?c wrs = Inr (r, q')" "sq_wf t q'" "posted t q1 wrs n q'"
      "stopped q1 wrs n q' r"
      "outstanding q' (?os @ fst (new_outs (wq_head q1) ?c (take n wrs))) (?L + snd (new_outs (wq_head q1) ?c (take n wrs)) - ?c)"
      using Cons.IH [OF q1(2) f1 s1 h(1) q1(5) h(2-4)] by blast
    have "posted t q (wr # wrs) (Suc n) q'"
    proof -
      have old: "wqe_bytes q' i = wqe_bytes q1 i" if "wq_tail q \<le> i" "i \<le> wq_head q" for i
        using q'(3) that q1(3,4) by (simp add: posted_def same_ring_def)
      have "wq_tail q \<le> wq_head q" using r by (simp add: ring_wf_def)
      then have "take (wqe_size_of t ((wr # wrs) ! j)) (wqe_bytes q' (wq_head q + j)) = wqe_image t q (wq_head q + j) ((wr # wrs) ! j)"
        if "j < Suc n" for j
        using that q'(3) q1(4,6) old [of "wq_head q"] same_ring_image [OF q1(3)]
        by (cases j) (auto simp: posted_def)
      then show ?thesis using q'(3) q1(3,4,7) old same_ring_trans by (auto simp: posted_def)
    qed
    moreover have "new_outs (wq_head q) chain (take (Suc n) (wr # wrs)) =
        (if ?sig then ((wq_head q, sw_id wr, chain) # fst (new_outs (wq_head q1) ?c (take n wrs)), snd (new_outs (wq_head q1) ?c (take n wrs)))
         else new_outs (wq_head q1) ?c (take n wrs))" by (simp add: q1(4))
    moreover have "stopped q (wr # wrs) (Suc n) q' r"
      using q'(4) q1(3) same_ring_fits [OF q1(3)] by (auto simp: stopped_def same_ring_def)
    ultimately show ?thesis using q'(1,2,5) q1(1) Cons.prems(6,7)
      by (intro exI [of _ r] exI [of _ q'] exI [of _ "Suc n"]) (auto split: if_splits)
  qed
qed

end
