(* ===== verification/Mlx4QueueCalls.thy ===== *)
theory Mlx4QueueCalls
  imports Mlx4QueueProps
begin

text \<open>
  The calls of a queue pair from its creation on: what is in the rings, and what completions report.
\<close>

section \<open>Posting to the receive queue\<close>

definition rq_wf :: "work_queue \<Rightarrow> bool" where
  "rq_wf q \<longleftrightarrow> ring_wf q \<and> 16 * max_gs q \<le> 2 ^ wqe_shift q"

definition recv_image :: "work_queue \<Rightarrow> recv_wr \<Rightarrow> byte list" where
  "recv_image q wr = concat (map sge_bytes (rw_sges wr)) @ (if length (rw_sges wr) < max_gs q then last_segment else [])"

lemma last_segment_length [simp]: "length last_segment = 16"
  by (simp add: last_segment_def)

lemma recv_image_length: "length (rw_sges wr) \<le> max_gs q \<Longrightarrow> rq_wf q \<Longrightarrow> length (recv_image q wr) \<le> 2 ^ wqe_shift q"
  by (auto simp: recv_image_def rq_wf_def)

lemma recv_one:
  assumes w: "rq_wf q" and f: "length (rw_sges wr) \<le> max_gs q" and room: "wq_head q - wq_tail q + 1 < max_post q"
    and h: "wq_head q + 1 < 2 ^ 32" and o: "outstanding q os 0"
  obtains q' where "\<And>wrs. post_receive_loop q (wr # wrs) = post_receive_loop q' wrs" "rq_wf q'" "same_ring q q'"
    "wq_head q' = wq_head q + 1" "outstanding q' (os @ [(wq_head q, rw_id wr, 1)]) 0" "divergence_reported q' = divergence_reported q"
    "take (length (recv_image q wr)) (wqe_bytes q' (wq_head q)) = recv_image q wr"
    "\<forall>i. wq_tail q \<le> i \<longrightarrow> i < wq_head q \<longrightarrow> wqe_bytes q' i = wqe_bytes q i"
proof -
  have r: "ring_wf q" using w by (simp add: rq_wf_def)
  obtain b where b: "wq_buffer q = Some b" "wqe_cnt q * 2 ^ wqe_shift q \<le> length b" using r by (auto simp: ring_wf_def)
  let ?h = "wq_head q" and ?off = "wqe_byte_offset q (wq_head q)" and ?n = "length (rw_sges wr)"
  let ?data = "concat (map sge_bytes (rw_sges wr))"
  have slot: "?off + 2 ^ wqe_shift q \<le> length b" using slot_bound [OF r, of ?h] b by (simp add: wqe_offset [OF r])
  have im: "length (recv_image q wr) \<le> 2 ^ wqe_shift q" by (rule recv_image_length [OF f w])
  have fit: "?off + 16 * ?n \<le> length b" using slot f w by (simp add: rq_wf_def)
  define b1 where "b1 = store (?off, ?data) b"
  define b2 where "b2 = store (?off, recv_image q wr) b"
  define ms where "ms = (wq_metas q)[?h mod wqe_cnt q := Some \<lparr>wm_id = rw_id wr, chain_size = 1\<rparr>]"
  have p1: "put_sges q ?off (rw_sges wr) = Inr (q\<lparr>wq_buffer := Some b1\<rparr>)" using put_sges_store [OF b(1) fit] by (simp add: b1_def)
  have r1: "ring_wf (q\<lparr>wq_buffer := Some b1\<rparr>)" using r b fit by (auto simp: ring_wf_def b1_def store_length)
  have p2: "update_meta_for_head (q\<lparr>wq_buffer := Some b1\<rparr>) (rw_id wr) 1 = Inr (q\<lparr>wq_buffer := Some b1, wq_metas := ms\<rparr>)"
    using r ring_cnt_pos [OF r] by (simp add: update_meta_for_head_def ring_index_mod [OF r1] ring_wf_def not_le ms_def)
  let ?q2 = "q\<lparr>wq_buffer := Some b1, wq_metas := ms\<rparr>"
  have off2: "wqe_byte_offset ?q2 = wqe_byte_offset q" by (simp add: fun_eq_iff wqe_byte_offset_def ring_index_def)
  have p3: "(if ?n < max_gs ?q2 then put_segment ?q2 (wqe_byte_offset ?q2 (wq_head ?q2) + ?n * DATA_SEGMENT) DATA_SEGMENT
        [(wqe_byte_offset ?q2 (wq_head ?q2) + ?n * DATA_SEGMENT, last_segment)] else Inr ?q2) = Inr (?q2\<lparr>wq_buffer := Some b2\<rparr>)"
  proof (cases "?n < max_gs q")
    case True
    then have "?off + 16 * ?n + 16 \<le> length b" using slot im by (simp add: recv_image_def)
    then have "length b1 = length b" "?off + ?n * 16 + 16 \<le> length b" "store (?off + ?n * 16, last_segment) b1 = b2"
      using True fit store_append [of "?off + ?n * 16" ?off ?data last_segment b]
      by (simp_all add: b1_def b2_def recv_image_def store_length)
    then have "put_segment ?q2 (?off + ?n * 16) 16 [(?off + ?n * 16, last_segment)] = Inr (?q2\<lparr>wq_buffer := Some b2\<rparr>)"
      using put_Some [of ?q2 b1 "?off + ?n * 16" 16 "[(?off + ?n * 16, last_segment)]"] by (simp add: stores_def)
    then show ?thesis using True by (simp add: off2 DATA_SEGMENT_def)
  qed (simp add: b1_def b2_def recv_image_def)
  let ?q' = "advance_head (?q2\<lparr>wq_buffer := Some b2\<rparr>)"
  have wo: "would_overflow q = Inr False" using r room h by (simp add: would_overflow_def ring_wf_def)
  have eq: "post_receive_loop q (wr # wrs) = post_receive_loop ?q' wrs" for wrs
    unfolding post_receive_loop.simps wo and_then.simps p1 p2 Let_def p3 using f by simp
  have os: "only_slot q ?h b b2" unfolding b2_def using slot im by (intro only_slot_store) auto
  have wf: "rq_wf ?q'" using w b os h by (auto simp: rq_wf_def ring_wf_def advance_head_def only_slot_def ms_def)
  have cnt: "?h - wq_tail q < wqe_cnt q" using room r by (simp add: ring_wf_def)
  have o': "chained (wq_tail q) ?h os" "?h = wq_tail q + given_back os + 0"
      "\<forall>x < wqe_cnt q. wq_metas q ! x = meta_of (wqe_cnt q) os x" using o unfolding outstanding_def by blast+
  have sw: "?q2\<lparr>wq_buffer := Some b2\<rparr> = q\<lparr>wq_buffer := Some b2, wq_metas := ms\<rparr>" by simp
  have out: "outstanding ?q' (os @ [(?h, rw_id wr, 1)]) 0"
    unfolding sw using outstanding_signaled [of "q\<lparr>wq_buffer := Some b2\<rparr>" os 0 1 "rw_id wr"] o' cnt r h by (simp add: ring_wf_def ms_def)
  have bytes: "wqe_bytes ?q' = wqe_bytes (q\<lparr>wq_buffer := Some b2\<rparr>)"
    by (simp add: fun_eq_iff wqe_bytes_def wqe_byte_offset_def ring_index_def advance_head_def)
  have "wqe_byte_offset (q\<lparr>wq_buffer := Some b2\<rparr>) = wqe_byte_offset q" by (simp add: fun_eq_iff wqe_byte_offset_def ring_index_def)
  then have new: "take (length (recv_image q wr)) (wqe_bytes ?q' ?h) = recv_image q wr"
    unfolding bytes using im slot by (simp add: wqe_bytes_def b2_def store_def min_def)
  have old: "\<forall>i. wq_tail q \<le> i \<longrightarrow> i < ?h \<longrightarrow> wqe_bytes ?q' i = wqe_bytes q i"
  proof (intro allI impI)
    fix i assume i: "wq_tail q \<le> i" "i < ?h"
    then have "i mod wqe_cnt q \<noteq> ?h mod wqe_cnt q" using cnt by (intro mod_neq) auto
    then show "wqe_bytes ?q' i = wqe_bytes q i" unfolding bytes by (rule only_slot_other [OF r b(1) os])
  qed
  have "same_ring q ?q'" "wq_head ?q' = ?h + 1" "divergence_reported ?q' = divergence_reported q"
    using h by (simp_all add: same_ring_def advance_head_def)
  then show ?thesis using that [OF eq wf _ _ out _ new old] by blast
qed

text \<open>A call that posts receives: \<open>n\<close> requests are in the ring.\<close>

definition recv_outs :: "nat \<Rightarrow> recv_wr list \<Rightarrow> outs" where
  "recv_outs h wrs = map (\<lambda>j. (h + j, rw_id (wrs ! j), 1)) [0 ..< length wrs]"

lemma recv_outs_Cons: "recv_outs h (wr # wrs) = (h, rw_id wr, 1) # recv_outs (h + 1) wrs"
  by (simp add: recv_outs_def map_upt_Suc del: upt_Suc)

definition received :: "work_queue \<Rightarrow> recv_wr list \<Rightarrow> nat \<Rightarrow> work_queue \<Rightarrow> bool" where
  "received q wrs n q' \<longleftrightarrow> same_ring q q' \<and> wq_head q' = wq_head q + n \<and>
     (\<forall>i. wq_tail q \<le> i \<longrightarrow> i < wq_head q \<longrightarrow> wqe_bytes q' i = wqe_bytes q i) \<and>
     (\<forall>j < n. take (length (recv_image q (wrs ! j))) (wqe_bytes q' (wq_head q + j)) = recv_image q (wrs ! j))"

definition recv_stopped :: "work_queue \<Rightarrow> recv_wr list \<Rightarrow> nat \<Rightarrow> work_queue \<Rightarrow> io_error + unit \<Rightarrow> bool" where
  "recv_stopped q wrs n q' r \<longleftrightarrow> r = Inr () \<and> n = length wrs \<or>
     r = Inl (Other ''receive queue would overflow'') \<and> n < length wrs \<and> max_post q \<le> wq_head q' - wq_tail q' + 1 \<or>
     r = Inl (Other ''work request has too many sges'') \<and> n < length wrs \<and> max_gs q < length (rw_sges (wrs ! n))"

lemma post_receive_loop_ok:
  assumes "rq_wf q" and "wq_head q + length wrs < 2 ^ 32 - 1" and "outstanding q os 0"
  shows "\<exists>r q' n. post_receive_loop q wrs = Inr (r, q') \<and> rq_wf q' \<and> received q wrs n q' \<and> recv_stopped q wrs n q' r \<and>
    outstanding q' (os @ recv_outs (wq_head q) (take n wrs)) 0 \<and> divergence_reported q' = divergence_reported q"
  using assms
proof (induction wrs arbitrary: q os)
  case Nil
  then show ?case
    by (intro exI [of _ "Inr ()"] exI [of _ q] exI [of _ 0]) (simp add: received_def same_ring_def recv_stopped_def recv_outs_def)
next
  case (Cons wr wrs)
  have r: "ring_wf q" using Cons.prems(1) by (simp add: rq_wf_def)
  have wo: "would_overflow q = Inr (max_post q \<le> wq_head q - wq_tail q + 1)"
    using r Cons.prems(2) by (simp add: would_overflow_def ring_wf_def)
  consider "max_post q \<le> wq_head q - wq_tail q + 1" | "wq_head q - wq_tail q + 1 < max_post q" "max_gs q < length (rw_sges wr)"
    | "wq_head q - wq_tail q + 1 < max_post q" "length (rw_sges wr) \<le> max_gs q" by linarith
  then show ?case
  proof cases
    case 1
    then have "post_receive_loop q (wr # wrs) = Inr (Inl (Other ''receive queue would overflow''), q)" by (simp add: wo)
    then show ?thesis using 1 Cons.prems(1,3)
      by (intro exI [of _ "Inl (Other ''receive queue would overflow'')"] exI [of _ q] exI [of _ 0])
        (simp add: received_def same_ring_def recv_stopped_def recv_outs_def)
  next
    case 2
    then have "post_receive_loop q (wr # wrs) = Inr (Inl (Other ''work request has too many sges''), q)" by (simp add: wo)
    then show ?thesis using 2 Cons.prems(1,3)
      by (intro exI [of _ "Inl (Other ''work request has too many sges'')"] exI [of _ q] exI [of _ 0])
        (simp add: received_def same_ring_def recv_stopped_def recv_outs_def)
  next
    case 3
    obtain q1 where q1: "\<And>wrs. post_receive_loop q (wr # wrs) = post_receive_loop q1 wrs" "rq_wf q1" "same_ring q q1"
      "wq_head q1 = wq_head q + 1" "outstanding q1 (os @ [(wq_head q, rw_id wr, 1)]) 0" "divergence_reported q1 = divergence_reported q"
      "take (length (recv_image q wr)) (wqe_bytes q1 (wq_head q)) = recv_image q wr"
      "\<forall>i. wq_tail q \<le> i \<longrightarrow> i < wq_head q \<longrightarrow> wqe_bytes q1 i = wqe_bytes q i"
      using recv_one [OF Cons.prems(1) 3(2,1) _ Cons.prems(3)] Cons.prems(2) by auto
    have h: "wq_head q1 + length wrs < 2 ^ 32 - 1" using q1(4) Cons.prems(2) by simp
    have im: "recv_image q1 w = recv_image q w" for w using q1(3) by (simp add: recv_image_def same_ring_def)
    obtain r q' n where q': "post_receive_loop q1 wrs = Inr (r, q')" "rq_wf q'" "received q1 wrs n q'" "recv_stopped q1 wrs n q' r"
      "outstanding q' ((os @ [(wq_head q, rw_id wr, 1)]) @ recv_outs (wq_head q1) (take n wrs)) 0" "divergence_reported q' = divergence_reported q1"
      using Cons.IH [OF q1(2) h q1(5)] by blast
    have "received q (wr # wrs) (Suc n) q'"
    proof -
      have old: "wqe_bytes q' i = wqe_bytes q1 i" if "wq_tail q \<le> i" "i \<le> wq_head q" for i
        using q'(3) that q1(3,4) by (simp add: received_def same_ring_def)
      have "wq_tail q \<le> wq_head q" using r by (simp add: ring_wf_def)
      then have "take (length (recv_image q ((wr # wrs) ! j))) (wqe_bytes q' (wq_head q + j)) = recv_image q ((wr # wrs) ! j)"
        if "j < Suc n" for j
        using that q'(3) q1(4,7) old [of "wq_head q"] im by (cases j) (auto simp: received_def)
      then show ?thesis using q'(3) q1(3,4,8) old same_ring_trans by (auto simp: received_def)
    qed
    moreover have "recv_stopped q (wr # wrs) (Suc n) q' r" using q'(4) q1(3) by (auto simp: recv_stopped_def same_ring_def)
    moreover have "recv_outs (wq_head q) (take (Suc n) (wr # wrs)) = (wq_head q, rw_id wr, 1) # recv_outs (wq_head q1) (take n wrs)"
      using recv_outs_Cons q1(4) by simp
    ultimately show ?thesis using q'(1,2,5,6) q1(1,6)
      by (intro exI [of _ r] exI [of _ q'] exI [of _ "Suc n"]) simp
  qed
qed

section \<open>Creation\<close>

lemma ilog2_power [simp]: "ilog2 (2 ^ k) = k"
proof -
  have b: "(2 :: nat) ^ (bit_length (2 ^ k) - 1) \<le> 2 ^ k" "(2 :: nat) ^ k < 2 ^ bit_length (2 ^ k)" "0 < bit_length (2 ^ k)"
    using bit_length_bounds [of "2 ^ k"] by auto
  then have "bit_length (2 ^ k) - 1 \<le> k" "k < bit_length (2 ^ k)"
    by (metis one_less_numeral_iff power_le_imp_le_exp semiring_norm(76), metis one_less_numeral_iff power_less_imp_less_exp semiring_norm(76))
  then show ?thesis by (simp add: ilog2_def)
qed

lemma next_power_of_two_le:
  assumes "0 < n" and "n \<le> 2 ^ m" and "m \<le> 62"
  obtains k where "next_power_of_two n = Inr (2 ^ k)" "n \<le> 2 ^ k" "k \<le> m"
proof -
  have "(2 :: nat) ^ m \<le> 2 ^ 63" using assms(3) by (intro power_increasing) auto
  then have "n \<le> 2 ^ 63" using assms(2) le_trans by blast
  then obtain k where k: "next_power_of_two n = Inr (2 ^ k)" "n \<le> 2 ^ k" "2 ^ k < 2 * n" using next_power_of_two_ok assms(1) by blast
  then have "(2 :: nat) ^ k < 2 ^ Suc m" using assms(2) by simp
  then have "k \<le> m" using pow2_lessD by (metis less_Suc_eq_le)
  then show ?thesis using that k by blast
qed

text \<open>A queue that has no buffer yet: it is well-formed once it gets one of its size.\<close>

definition empty_queue :: "work_queue \<Rightarrow> bool" where
  "empty_queue q \<longleftrightarrow> wq_buffer q = None \<and> wq_head q = 0 \<and> wq_tail q = 0 \<and> wq_metas q = replicate (wqe_cnt q) None \<and>
     \<not> divergence_reported q \<and> wq_size q = wqe_cnt q * 2 ^ wqe_shift q \<and> wq_size q \<le> 2 ^ 26"

lemma pow2_mult_le: "k \<le> 16 \<Longrightarrow> s \<le> 10 \<Longrightarrow> (2 :: nat) ^ k * 2 ^ s \<le> 2 ^ 26"
proof -
  assume "k \<le> 16" "s \<le> 10"
  then have "(2 :: nat) ^ (k + s) \<le> 2 ^ 26" by (intro power_increasing) auto
  then show ?thesis by (simp add: power_add)
qed

lemma new_receive_queue_wf:
  assumes "new_receive_queue mlx4_limits_new caps = Inr (Inr q)" and "wq_size q \<le> length b"
  shows "empty_queue q \<and> rq_wf (q\<lparr>wq_buffer := Some b\<rparr>)"
proof -
  let ?n = "max (max_recv_wr caps) 256" and ?g = "max (max_recv_sge caps) 1"
  have lim: "max_recv_wr caps \<le> 65503" "max_recv_sge caps \<le> 32"
    using assms(1) by (auto simp: new_receive_queue_def mlx4_limits_new_def IB_SQ_MAX_SPARE_def ib_sq_headroom_def
        IB_MAX_HEADROOM_def IB_SQ_MIN_WQE_SHIFT_def drop_bit_eq_div split: if_splits)
  obtain k where k: "next_power_of_two ?n = Inr (2 ^ k)" "?n \<le> 2 ^ k" "k \<le> 16"
    by (rule next_power_of_two_le [of ?n 16]) (use lim in simp_all)
  obtain g where g: "next_power_of_two ?g = Inr (2 ^ g)" "?g \<le> 2 ^ g" "g \<le> 5"
    by (rule next_power_of_two_le [of ?g 5]) (use lim in simp_all)
  have sh: "ilog2 (2 ^ g * DATA_SEGMENT) = g + 4"
    using ilog2_power [of "g + 4"] by (simp add: DATA_SEGMENT_def power_add)
  have q: "wqe_cnt q = 2 ^ k" "max_post q \<le> 2 ^ k" "max_gs q = 2 ^ g" "wqe_shift q = g + 4" "wq_buffer q = None" "wq_head q = 0" "wq_tail q = 0"
    "wq_metas q = replicate (2 ^ k) None" "\<not> divergence_reported q"
    using assms(1) k(1) g(1) by (auto simp: new_receive_queue_def sh split: if_splits)
  have "(2 :: nat) ^ k * 2 ^ (g + 4) \<le> 2 ^ 26" using k(3) g(3) by (intro pow2_mult_le) auto
  then have sz: "wq_size q = 2 ^ k * 2 ^ (g + 4)" "2 ^ k * 2 ^ (g + 4) \<le> (67108864 :: nat)" by (simp_all add: wq_size_def q push_bit_eq_mult)
  have "\<exists>j. (2 :: nat) ^ k = 2 ^ j \<and> j \<le> 16" using k(3) by blast
  then show ?thesis using sz assms(2) by (simp add: empty_queue_def rq_wf_def ring_wf_def q power_add)
qed

lemma new_send_queue_wf:
  assumes "new_send_queue mlx4_limits_new caps t = Inr (Inr q)" and "1 \<le> max_send_sge caps" and "wq_size q \<le> length b"
  shows "empty_queue q \<and> sq_wf t (q\<lparr>wq_buffer := Some b\<rparr>) \<and> (\<exists>s \<le> 33. spare_wqes q = Some s)"
proof -
  let ?sz = "max_send_sge caps * DATA_SEGMENT + send_wqe_overhead t"
  have ov: "32 \<le> send_wqe_overhead t" "send_wqe_overhead t \<le> 64"
    by (cases t; simp add: send_wqe_overhead_def CONTROL_SEGMENT_def REMOTE_SEGMENT_def DATAGRAM_SEGMENT_def)+
  have lim: "max_send_wr caps \<le> 65503" "max_send_sge caps \<le> 32"
    using assms(1) by (auto simp: new_send_queue_def mlx4_limits_new_def IB_SQ_MAX_SPARE_def ib_sq_headroom_def
        IB_MAX_HEADROOM_def IB_SQ_MIN_WQE_SHIFT_def drop_bit_eq_div split: if_splits)
  obtain s where s: "next_power_of_two ?sz = Inr (2 ^ s)" "?sz \<le> 2 ^ s" "s \<le> 10"
    by (rule next_power_of_two_le [of ?sz 10]) (use lim ov in \<open>simp_all add: DATA_SEGMENT_def\<close>)
  have "(2 :: nat) ^ 5 < 2 ^ s" using s(2) ov(1) assms(2) by (simp add: DATA_SEGMENT_def)
  then have "5 < s" by (rule pow2_lessD)
  then have s6: "6 \<le> s" by simp
  define spare where "spare = ib_sq_headroom s"
  have "(2 :: nat) ^ 6 \<le> 2 ^ s" using s6 by (intro power_increasing) auto
  then have "2048 div 2 ^ s \<le> (2048 :: nat) div 2 ^ 6" by (intro div_le_mono2) auto
  then have sp: "spare \<le> 33" "0 < spare" by (simp_all add: spare_def ib_sq_headroom_def IB_MAX_HEADROOM_def drop_bit_eq_div)
  let ?n = "max (max_send_wr caps) 256 + spare"
  obtain k where k: "next_power_of_two ?n = Inr (2 ^ k)" "?n \<le> 2 ^ k" "k \<le> 16"
    by (rule next_power_of_two_le [of ?n 16]) (use lim sp in simp_all)
  have q: "wqe_cnt q = 2 ^ k" "max_post q = 2 ^ k - spare" "max_gs q = (min 1024 (2 ^ s) - send_wqe_overhead t) div 16" "wqe_shift q = s"
    "wq_buffer q = None" "wq_head q = 0" "wq_tail q = 0" "wq_metas q = replicate (2 ^ k) None" "\<not> divergence_reported q"
    "spare_wqes q = Some spare"
    using assms(1) s(1) k(1) by (auto simp: new_send_queue_def Let_def spare_def mlx4_limits_new_def DATA_SEGMENT_def split: if_splits)
  have "(2 :: nat) ^ k * 2 ^ s \<le> 2 ^ 26" using k(3) s(3) by (intro pow2_mult_le) auto
  then have sz: "wq_size q = 2 ^ k * 2 ^ s" "2 ^ k * 2 ^ s \<le> (67108864 :: nat)" by (simp_all add: wq_size_def q push_bit_eq_mult)
  have gs: "send_wqe_overhead t + 16 * max_gs q \<le> 2 ^ s" using s(2) ov assms(2) by (auto simp: q min_def)
  have "\<exists>j. (2 :: nat) ^ k = 2 ^ j \<and> j \<le> 16" using k(3) by blast
  then show ?thesis using sz assms(3) s6 k(2) sp gs by (simp add: empty_queue_def sq_wf_def ring_wf_def q(1,2,4-10))
qed

lemma init_send_queue_ok:
  assumes "ring_wf q"
  shows "\<exists>b. init_send_queue q i n = Inr (Inr (), q\<lparr>wq_buffer := Some b\<rparr>) \<and> length b = length (the (wq_buffer q))"
  using assms
proof (induction n arbitrary: q i)
  case 0
  then obtain b where "wq_buffer q = Some b" by (auto simp: ring_wf_def)
  then show ?case by (intro exI [of _ b]) simp
next
  case (Suc n)
  obtain b where b: "wq_buffer q = Some b" "wqe_cnt q * 2 ^ wqe_shift q \<le> length b" using Suc.prems by (auto simp: ring_wf_def)
  have "(2 :: nat) ^ 4 \<le> 2 ^ wqe_shift q" using Suc.prems by (intro power_increasing) (auto simp: ring_wf_def)
  then have off: "wqe_byte_offset q i + 16 \<le> length b"
    using slot_bound [OF Suc.prems, of i] b(2) by (simp add: wqe_offset [OF Suc.prems])
  let ?ws = "[(wqe_byte_offset q i, be32 (push_bit 31 1)), (wqe_byte_offset q i + 4, be32 (push_bit (wqe_shift q - 4) 1))]"
  define b1 where "b1 = stores ?ws b"
  have p: "put_segment q (wqe_byte_offset q i) CONTROL_SEGMENT ?ws = Inr (q\<lparr>wq_buffer := Some b1\<rparr>)" "get_in_buffer q (wqe_byte_offset q i) CONTROL_SEGMENT"
    using put_Some [OF b(1), of "wqe_byte_offset q i" CONTROL_SEGMENT ?ws] off by (simp_all add: b1_def CONTROL_SEGMENT_def get_in_buffer_def b(1))
  have l1: "length b1 = length b" using off by (simp add: b1_def stores_def store_length)
  then have r1: "ring_wf (q\<lparr>wq_buffer := Some b1\<rparr>)" using Suc.prems b by (auto simp: ring_wf_def)
  obtain b2 where b2: "stamp_wqebb (q\<lparr>wq_buffer := Some b1\<rparr>) i = Inr (Inr (), q\<lparr>wq_buffer := Some b2\<rparr>)" "length b2 = length b1"
    using stamp_wqebb_slot [OF r1, of b1 i] by (auto simp: only_slot_def)
  have r2: "ring_wf (q\<lparr>wq_buffer := Some b2\<rparr>)" using Suc.prems b l1 b2(2) by (auto simp: ring_wf_def)
  obtain b3 where "init_send_queue (q\<lparr>wq_buffer := Some b2\<rparr>) (i + 1) n = Inr (Inr (), q\<lparr>wq_buffer := Some b3\<rparr>)" "length b3 = length b2"
    using Suc.IH [OF r2, of "i + 1"] by auto
  then show ?case using p b2 l1 b(1) by (intro exI [of _ b3]) (simp add: Let_def)
qed

lemma outstanding_empty: "empty_queue q \<Longrightarrow> outstanding (q\<lparr>wq_buffer := b\<rparr>) [] 0"
  by (simp add: empty_queue_def outstanding_def meta_of_def)

text \<open>What the code relies on of \<open>mmap\<close>: the memory has the size that was asked for.\<close>

definition mmap_sized :: "(nat \<Rightarrow> byte list option) \<Rightarrow> bool" where
  "mmap_sized mmap \<longleftrightarrow> (\<forall>n b. mmap n = Some b \<longrightarrow> length b = n)"

definition qp_wf :: "queue_pair \<Rightarrow> bool" where
  "qp_wf qp \<longleftrightarrow> sq_wf (qp_type qp) (sq qp) \<and> rq_wf (rq qp) \<and> qp_number qp < 2 ^ 24"

lemma div_ceil_ge: "0 < b \<Longrightarrow> a \<le> div_ceil a b * b"
proof -
  assume b: "0 < b"
  have "a + b - 1 = (a + b - 1) div b * b + (a + b - 1) mod b" by simp
  moreover have "(a + b - 1) mod b < b" using b by simp
  ultimately show ?thesis using b unfolding div_ceil_def by linarith
qed

lemma qp_create_buffers:
  assumes m: "mmap_sized mmap" and r: "new_receive_queue mlx4_limits_new caps = Inr (Inr rq0)"
    and s: "new_send_queue mlx4_limits_new caps t = Inr (Inr sq0)" and g: "1 \<le> max_send_sge caps"
    and mem: "mmap (div_ceil (wq_size rq0 + wq_size sq0) 4096 * 4096) = Some mem" and bell: "mmap 4 \<noteq> None"
  obtains b1 b2 where "rq_wf (rq0\<lparr>wq_buffer := Some b1\<rparr>)" "sq_wf t (sq0\<lparr>wq_buffer := Some b2\<rparr>)"
    "qp_create mlx4_limits_new caps t mmap verb = (case verb of Inl e \<Rightarrow> Inr (Inl e)
       | Inr num \<Rightarrow> Inr (Inr \<lparr>qp_type = t, qp_number = num, qp_state = Reset, rq = rq0\<lparr>wq_buffer := Some b1\<rparr>,
           sq = sq0\<lparr>wq_buffer := Some b2\<rparr>, receive_wqe_counter = 0, qp_rings = []\<rparr>))"
proof -
  have len: "wq_size rq0 + wq_size sq0 \<le> length mem"
    using m mem div_ceil_ge [of 4096 "wq_size rq0 + wq_size sq0"] by (simp add: mmap_sized_def)
  have sizes: "wq_size rq0 \<le> 67108864" "wq_size sq0 \<le> 67108864"
    using new_receive_queue_wf [OF r, of "replicate (wq_size rq0) 0"] new_send_queue_wf [OF s g, of "replicate (wq_size sq0) 0"]
    by (simp_all add: empty_queue_def)
  let ?buffer = "map (\<lambda>_. 0) mem :: byte list" and ?rf = "wqe_shift rq0 > wqe_shift sq0"
  define split where "split = (if ?rf then wq_size rq0 else wq_size sq0)"
  define rb where "rb = (if ?rf then take split ?buffer else drop split ?buffer)"
  define sb where "sb = (if ?rf then drop split ?buffer else take split ?buffer)"
  have l: "wq_size rq0 \<le> length rb" "wq_size sq0 \<le> length sb" "\<not> split > length ?buffer"
    using len by (auto simp: split_def rb_def sb_def)
  have wr: "rq_wf (rq0\<lparr>wq_buffer := Some rb\<rparr>)" using new_receive_queue_wf [OF r l(1)] by simp
  have ws: "sq_wf t (sq0\<lparr>wq_buffer := Some sb\<rparr>)" using new_send_queue_wf [OF s g l(2)] by simp
  then have rw: "ring_wf (sq0\<lparr>wq_buffer := Some sb\<rparr>)" by (simp add: sq_wf_def)
  obtain sb' where sb': "init_send_queue (sq0\<lparr>wq_buffer := Some sb\<rparr>) 0 (wqe_cnt (sq0\<lparr>wq_buffer := Some sb\<rparr>)) =
      Inr (Inr (), sq0\<lparr>wq_buffer := Some sb'\<rparr>)" "length sb' = length sb"
    using init_send_queue_ok [OF rw] by fastforce
  have ws': "sq_wf t (sq0\<lparr>wq_buffer := Some sb'\<rparr>)" using ws sb'(2) by (auto simp: sq_wf_def ring_wf_def)
  obtain d where d: "mmap 4 = Some d" using bell by auto
  have "\<not> wq_size rq0 + wq_size sq0 \<ge> 2 ^ 32" using sizes by simp
  then have "qp_create mlx4_limits_new caps t mmap verb = (case verb of Inl e \<Rightarrow> Inr (Inl e)
       | Inr num \<Rightarrow> Inr (Inr \<lparr>qp_type = t, qp_number = num, qp_state = Reset, rq = rq0\<lparr>wq_buffer := Some rb\<rparr>,
           sq = sq0\<lparr>wq_buffer := Some sb'\<rparr>, receive_wqe_counter = 0, qp_rings = []\<rparr>))"
    unfolding qp_create_def r s and_then.simps sum.case Let_def mem d option.case split_def [symmetric] rb_def [symmetric]
      sb_def [symmetric] sb'(1) prod.case using l(3) by (simp only: if_False)
  then show ?thesis using that [OF wr ws'] by blast
qed

lemma qp_create_ok:
  assumes m: "mmap_sized mmap" and g: "1 \<le> max_send_sge caps" and c: "qp_create mlx4_limits_new caps t mmap verb = Inr (Inr qp)"
  shows "sq_wf t (sq qp) \<and> rq_wf (rq qp) \<and> outstanding (sq qp) [] 0 \<and> outstanding (rq qp) [] 0 \<and> qp_type qp = t \<and>
    wq_head (sq qp) = 0 \<and> wq_head (rq qp) = 0 \<and> qp_state qp = Reset \<and> Inr (qp_number qp) = verb \<and> \<not> divergence_reported (rq qp) \<and> (\<exists>s \<le> 33. spare_wqes (sq qp) = Some s)"
proof -
  obtain rq0 where r: "new_receive_queue mlx4_limits_new caps = Inr (Inr rq0)"
    using c by (auto simp: qp_create_def elim!: and_then_InrE split: sum.splits)
  obtain sq0 where s: "new_send_queue mlx4_limits_new caps t = Inr (Inr sq0)"
    using c by (auto simp: qp_create_def elim!: and_then_InrE split: sum.splits)
  obtain mem where mem: "mmap (div_ceil (wq_size rq0 + wq_size sq0) 4096 * 4096) = Some mem"
    using c by (auto simp: qp_create_def r s Let_def split: if_splits option.splits)
  have bell: "mmap 4 \<noteq> None" using c by (cases "mmap 4") (simp_all add: qp_create_def r s Let_def mem split: if_splits)
  obtain b1 b2 where b: "rq_wf (rq0\<lparr>wq_buffer := Some b1\<rparr>)" "sq_wf t (sq0\<lparr>wq_buffer := Some b2\<rparr>)"
    "qp_create mlx4_limits_new caps t mmap verb = (case verb of Inl e \<Rightarrow> Inr (Inl e)
       | Inr num \<Rightarrow> Inr (Inr \<lparr>qp_type = t, qp_number = num, qp_state = Reset, rq = rq0\<lparr>wq_buffer := Some b1\<rparr>,
           sq = sq0\<lparr>wq_buffer := Some b2\<rparr>, receive_wqe_counter = 0, qp_rings = []\<rparr>))"
    using qp_create_buffers [OF m r s g mem bell] .
  obtain num where n: "verb = Inr num" "qp = \<lparr>qp_type = t, qp_number = num, qp_state = Reset, rq = rq0\<lparr>wq_buffer := Some b1\<rparr>,
      sq = sq0\<lparr>wq_buffer := Some b2\<rparr>, receive_wqe_counter = 0, qp_rings = []\<rparr>"
    using b(3) c by (auto split: sum.splits)
  have e: "empty_queue rq0" "empty_queue sq0" "\<exists>s \<le> 33. spare_wqes sq0 = Some s"
    using new_receive_queue_wf [OF r, of "replicate (wq_size rq0) 0"] new_send_queue_wf [OF s g, of "replicate (wq_size sq0) 0"] by simp_all
  then show ?thesis using b(1,2) n outstanding_empty by (simp add: empty_queue_def)
qed

section \<open>Queue pairs in use\<close>

text \<open>
  A queue pair from its creation on, together with the signaled sends and the receives that are not
  completed, and the number of sends that no completion will give back. The card completes the
  requests of a queue in the order of posting and reports the low 16 bits of the entry's index. The
  32 bit counters have not wrapped.
\<close>

inductive qp_reach :: "queue_pair \<Rightarrow> outs \<Rightarrow> nat \<Rightarrow> outs \<Rightarrow> bool" where
  Created: "mmap_sized mmap \<Longrightarrow> 1 \<le> max_send_sge caps \<Longrightarrow> num < 2 ^ 24 \<Longrightarrow>
    qp_create mlx4_limits_new caps t mmap (Inr num) = Inr (Inr qp) \<Longrightarrow> qp_reach qp [] 0 []"
| Modified: "qp_reach qp S L R \<Longrightarrow> modify_qp verb qp st = (r, qp') \<Longrightarrow> qp_reach qp' S L R"
| Sent: "qp_reach qp S L R \<Longrightarrow> list_all sendable wrs \<Longrightarrow> wq_head (sq qp) + 33 + length wrs < 2 ^ 32 \<Longrightarrow>
    post_send qp wrs = Inr (r, qp') \<Longrightarrow> n = wq_head (sq qp') - wq_head (sq qp) \<Longrightarrow>
    new_outs (wq_head (sq qp)) 1 (take n wrs) = (S', k) \<Longrightarrow> qp_reach qp' (S @ S') (L + k - 1) R"
| Received: "qp_reach qp S L R \<Longrightarrow> wq_head (rq qp) + length wrs < 2 ^ 32 - 1 \<Longrightarrow>
    post_receive qp wrs = Inr (r, qp') \<Longrightarrow> n = wq_head (rq qp') - wq_head (rq qp) \<Longrightarrow>
    qp_reach qp' S L (R @ recv_outs (wq_head (rq qp)) (take n wrs))"
| SendDone: "qp_reach qp ((p, i, c) # S) L R \<Longrightarrow> qp_resolve_completion qp (p mod 2 ^ 16) True = Inr (x, qp') \<Longrightarrow> qp_reach qp' S L R"
| ReceiveDone: "qp_reach qp S L ((p, i, c) # R) \<Longrightarrow> qp_resolve_completion qp (p mod 2 ^ 16) False = Inr (x, qp') \<Longrightarrow> qp_reach qp' S L R"

text \<open>The receives are in consecutive entries, from the tail on, and the tail agrees with the card.\<close>

definition tight :: "work_queue \<Rightarrow> outs \<Rightarrow> bool" where
  "tight q R \<longleftrightarrow> (\<forall>j < length R. fst (R ! j) = wq_tail q + j \<and> snd (snd (R ! j)) = 1) \<and> \<not> divergence_reported q"

lemma tight_given_back: "tight q R \<Longrightarrow> given_back R = length R"
proof -
  assume "tight q R"
  then have "\<forall>x \<in> set R. snd (snd x) = 1" by (metis in_set_conv_nth tight_def)
  then show ?thesis by (induction R) auto
qed

lemma tight_append:
  assumes "tight q R" and "outstanding q R 0" and "wq_tail q' = wq_tail q" and "divergence_reported q' = divergence_reported q"
  shows "tight q' (R @ recv_outs (wq_head q) wrs)"
proof -
  have "wq_head q = wq_tail q + length R" using assms(2) tight_given_back [OF assms(1)] unfolding outstanding_def by simp
  then show ?thesis using assms(1,3,4) by (auto simp: tight_def nth_append recv_outs_def)
qed

definition qp_ok :: "queue_pair \<Rightarrow> outs \<Rightarrow> nat \<Rightarrow> outs \<Rightarrow> bool" where
  "qp_ok qp S L R \<longleftrightarrow> qp_wf qp \<and> (\<exists>s \<le> 33. spare_wqes (sq qp) = Some s) \<and> outstanding (sq qp) S L \<and>
     outstanding (rq qp) R 0 \<and> tight (rq qp) R"

lemma post_send_ok:
  assumes "qp_ok qp S L R" and "list_all sendable wrs" and "wq_head (sq qp) + 33 + length wrs < 2 ^ 32" and "qp_state qp = ReadyToSend"
  obtains r qp' n where "post_send qp wrs = Inr (r, qp')" "posted (qp_type qp) (sq qp) wrs n (sq qp')" "stopped (sq qp) wrs n (sq qp') r"
    "qp_ok qp' (S @ fst (new_outs (wq_head (sq qp)) 1 (take n wrs))) (L + snd (new_outs (wq_head (sq qp)) 1 (take n wrs)) - 1) R"
    "rq qp' = rq qp" "qp_rings qp' = (if is_ok r \<and> wrs \<noteq> [] then push_bit 8 (qp_number qp) # qp_rings qp else qp_rings qp)"
proof (cases "wrs = []")
  case True
  have "post_send qp wrs = Inr (Inr (), qp)" "posted (qp_type qp) (sq qp) wrs 0 (sq qp)" "stopped (sq qp) wrs 0 (sq qp) (Inr ())"
    using assms(4) True by (simp_all add: post_send_def posted_def same_ring_def stopped_def)
  then show ?thesis using that [of "Inr ()" qp 0] assms(1) True by simp
next
  case False
  obtain s where s: "spare_wqes (sq qp) = Some s" "s \<le> 33" using assms(1) by (auto simp: qp_ok_def)
  have pre: "sq_wf (qp_type qp) (sq qp)" "outstanding (sq qp) S L" using assms(1) by (simp_all add: qp_ok_def qp_wf_def)
  have sendables: "\<forall>wr \<in> set wrs. sendable wr" using assms(2) by (simp add: list_all_iff)
  obtain r q n where q: "post_send_loop (qp_type qp) (sq qp) 1 wrs = Inr (r, q)" "sq_wf (qp_type qp) q" "posted (qp_type qp) (sq qp) wrs n q"
    "stopped (sq qp) wrs n q r"
    "outstanding q (S @ fst (new_outs (wq_head (sq qp)) 1 (take n wrs))) (L + snd (new_outs (wq_head (sq qp)) 1 (take n wrs)) - 1)"
    using post_send_loop_ok [OF pre(1) sendables s(1) _ pre(2), of 1] assms(3) s(2) by auto
  let ?qp = "case r of Inl _ \<Rightarrow> qp\<lparr>sq := q\<rparr> | Inr _ \<Rightarrow> qp\<lparr>sq := q, qp_rings := push_bit 8 (qp_number qp) # qp_rings qp\<rparr>"
  have num: "qp_number qp < 2 ^ 24" using assms(1) by (simp add: qp_ok_def qp_wf_def)
  have "post_send qp wrs = Inr (r, ?qp)"
    using False assms(4) q(1) num by (auto simp: post_send_def ring_qp_doorbell_def split: sum.split)
  moreover have "spare_wqes q = Some s" using q(3) s(1) by (simp add: posted_def same_ring_def)
  then have "qp_ok ?qp (S @ fst (new_outs (wq_head (sq qp)) 1 (take n wrs))) (L + snd (new_outs (wq_head (sq qp)) 1 (take n wrs)) - 1) R"
    using assms(1) q(2,5) s(2) by (auto simp: qp_ok_def qp_wf_def split: sum.split)
  moreover have "sq ?qp = q" "rq ?qp = rq qp" "qp_rings ?qp = (if is_ok r \<and> wrs \<noteq> [] then push_bit 8 (qp_number qp) # qp_rings qp else qp_rings qp)"
    using False by (cases r; simp)+
  ultimately show ?thesis using that [of r ?qp n] q(3,4) by simp
qed

lemma post_receive_ok:
  assumes "qp_ok qp S L R" and "wq_head (rq qp) + length wrs < 2 ^ 32 - 1" and "qp_state qp = ReadyToReceive \<or> qp_state qp = ReadyToSend"
  obtains r qp' n where "post_receive qp wrs = Inr (r, qp')" "received (rq qp) wrs n (rq qp')" "recv_stopped (rq qp) wrs n (rq qp') r"
    "qp_ok qp' S L (R @ recv_outs (wq_head (rq qp)) (take n wrs))" "sq qp' = sq qp"
    "receive_wqe_counter qp' = (if is_ok r \<and> wrs \<noteq> [] then wq_head (rq qp') mod 2 ^ 16 else receive_wqe_counter qp)"
proof -
  have pre: "rq_wf (rq qp)" "outstanding (rq qp) R 0" using assms(1) by (simp_all add: qp_ok_def qp_wf_def)
  obtain r q n where q: "post_receive_loop (rq qp) wrs = Inr (r, q)" "rq_wf q" "received (rq qp) wrs n q" "recv_stopped (rq qp) wrs n q r"
    "outstanding q (R @ recv_outs (wq_head (rq qp)) (take n wrs)) 0" "divergence_reported q = divergence_reported (rq qp)"
    using post_receive_loop_ok [OF pre(1) assms(2) pre(2)] by blast
  let ?qp = "if is_ok r \<and> wrs \<noteq> [] then qp\<lparr>rq := q, receive_wqe_counter := wq_head q AND 0xffff\<rparr> else qp\<lparr>rq := q\<rparr>"
  have "post_receive qp wrs = Inr (r, ?qp)"
    using assms(3) q(1) by (auto simp: post_receive_def split: sum.split)
  moreover have "wq_head q AND 0xffff = wq_head q mod 2 ^ 16" using and_pow2_minus_1 [of "wq_head q" 16] by simp
  moreover have "tight q (R @ recv_outs (wq_head (rq qp)) (take n wrs))"
    using tight_append [of "rq qp" R q "take n wrs"] assms(1) q(3,6) by (simp add: qp_ok_def received_def same_ring_def)
  then have "qp_ok ?qp S L (R @ recv_outs (wq_head (rq qp)) (take n wrs))"
    using assms(1) q(2,5) by (simp add: qp_ok_def qp_wf_def)
  ultimately show ?thesis using that [of r ?qp n] q(3,4) by simp
qed

lemma send_done_ok:
  assumes "qp_ok qp ((p, i, c) # S) L R"
  obtains qp' where "qp_resolve_completion qp (p mod 2 ^ 16) True = Inr (Some i, qp')" "qp_ok qp' S L R" "rq qp' = rq qp"
    "wq_tail (sq qp') = wq_tail (sq qp) + c" "divergence_reported (sq qp') \<longleftrightarrow> divergence_reported (sq qp) \<or>
       wq_tail (sq qp) mod wqe_cnt (sq qp) \<noteq> p mod wqe_cnt (sq qp)"
proof -
  have o: "outstanding (sq qp) ((p, i, c) # S) L" "sq_wf (qp_type qp) (sq qp)" using assms by (simp_all add: qp_ok_def qp_wf_def)
  then have r: "ring_wf (sq qp)" by (simp add: sq_wf_def)
  show ?thesis
  proof (rule resolve_outstanding [OF r o(1)])
    fix q assume q: "wq_resolve_completion (sq qp) (p mod 2 ^ 16) = Inr (Some i, q)" "outstanding q S L" "ring_wf q"
      "wq_tail q = wq_tail (sq qp) + c" "wq_head q = wq_head (sq qp)" "max_post q = max_post (sq qp)" "spare_wqes q = spare_wqes (sq qp)"
      "max_gs q = max_gs (sq qp)" "wqe_shift q = wqe_shift (sq qp)" "wqe_cnt q = wqe_cnt (sq qp)" "wq_buffer q = wq_buffer (sq qp)"
      "divergence_reported q \<longleftrightarrow> divergence_reported (sq qp) \<or> wq_tail (sq qp) mod wqe_cnt (sq qp) \<noteq> p mod wqe_cnt (sq qp)"
    have "qp_ok (qp\<lparr>sq := q\<rparr>) S L R" using assms q(2,3,6-10) by (simp add: qp_ok_def qp_wf_def sq_wf_def)
    then show ?thesis using that [of "qp\<lparr>sq := q\<rparr>"] q(1,4,12) by (simp add: qp_resolve_completion_def)
  qed
qed

lemma receive_done_ok:
  assumes "qp_ok qp S L ((p, i, c) # R)"
  obtains qp' where "qp_resolve_completion qp (p mod 2 ^ 16) False = Inr (Some i, qp')" "qp_ok qp' S L R" "sq qp' = sq qp"
    "wq_tail (rq qp') = wq_tail (rq qp) + 1"
proof -
  have first: "p = wq_tail (rq qp)" "c = 1" "\<not> divergence_reported (rq qp)" using assms by (auto simp: qp_ok_def tight_def)
  have rest: "fst (R ! j) = wq_tail (rq qp) + 1 + j \<and> snd (snd (R ! j)) = 1" if "j < length R" for j
  proof -
    have "Suc j < length ((p, i, c) # R) \<longrightarrow> fst (((p, i, c) # R) ! Suc j) = wq_tail (rq qp) + Suc j \<and> snd (snd (((p, i, c) # R) ! Suc j)) = 1"
      using assms unfolding qp_ok_def tight_def by blast
    then show ?thesis using that by simp
  qed
  have o: "outstanding (rq qp) ((p, i, c) # R) 0" "rq_wf (rq qp)" using assms by (simp_all add: qp_ok_def qp_wf_def)
  then have r: "ring_wf (rq qp)" by (simp add: rq_wf_def)
  show ?thesis
  proof (rule resolve_outstanding [OF r o(1)])
    fix q assume q: "wq_resolve_completion (rq qp) (p mod 2 ^ 16) = Inr (Some i, q)" "outstanding q R 0" "ring_wf q"
      "wq_tail q = wq_tail (rq qp) + c" "wq_head q = wq_head (rq qp)" "max_post q = max_post (rq qp)" "spare_wqes q = spare_wqes (rq qp)"
      "max_gs q = max_gs (rq qp)" "wqe_shift q = wqe_shift (rq qp)" "wqe_cnt q = wqe_cnt (rq qp)" "wq_buffer q = wq_buffer (rq qp)"
      "divergence_reported q \<longleftrightarrow> divergence_reported (rq qp) \<or> wq_tail (rq qp) mod wqe_cnt (rq qp) \<noteq> p mod wqe_cnt (rq qp)"
    have "tight q R" using rest q(4,12) first by (simp add: tight_def)
    then have "qp_ok (qp\<lparr>rq := q\<rparr>) S L R" using assms q(2,3,6-10) by (simp add: qp_ok_def qp_wf_def rq_wf_def)
    then show ?thesis using that [of "qp\<lparr>rq := q\<rparr>"] q(1,4) first by (simp add: qp_resolve_completion_def)
  qed
qed

lemma qp_reach_ok: "qp_reach qp S L R \<Longrightarrow> qp_ok qp S L R"
proof (induction rule: qp_reach.induct)
  case (Created mmap caps num t qp)
  then show ?case using qp_create_ok [OF Created(1,2,4)] by (auto simp: qp_ok_def qp_wf_def tight_def)
next
  case (Modified qp S L R verb st r qp')
  then show ?case by (auto simp: modify_qp_def qp_ok_def qp_wf_def split: sum.splits option.splits)
next
  case (Sent qp S L R wrs r qp' n S' k)
  show ?case
  proof (cases "qp_state qp = ReadyToSend")
    case True
    obtain r1 qp1 n1 where p: "post_send qp wrs = Inr (r1, qp1)" "posted (qp_type qp) (sq qp) wrs n1 (sq qp1)"
      "qp_ok qp1 (S @ fst (new_outs (wq_head (sq qp)) 1 (take n1 wrs))) (L + snd (new_outs (wq_head (sq qp)) 1 (take n1 wrs)) - 1) R"
      using post_send_ok [OF Sent.IH Sent.hyps(2,3) True] by blast
    have "qp1 = qp'" "n1 = n" using p(1,2) Sent.hyps(4,5) by (auto simp: posted_def)
    then show ?thesis using p(3) Sent.hyps(6) by simp
  next
    case False
    then have "qp' = qp" using Sent.hyps(4) by (simp add: post_send_def)
    then show ?thesis using Sent.IH Sent.hyps(5,6) by simp
  qed
next
  case (Received qp S L R wrs r qp' n)
  show ?case
  proof (cases "qp_state qp = ReadyToReceive \<or> qp_state qp = ReadyToSend")
    case True
    obtain r1 qp1 n1 where p: "post_receive qp wrs = Inr (r1, qp1)" "received (rq qp) wrs n1 (rq qp1)"
      "qp_ok qp1 S L (R @ recv_outs (wq_head (rq qp)) (take n1 wrs))"
      using post_receive_ok [OF Received.IH Received.hyps(2) True] by blast
    have "qp1 = qp'" "n1 = n" using p(1,2) Received.hyps(3,4) by (auto simp: received_def)
    then show ?thesis using p(3) by simp
  next
    case False
    then have "qp' = qp" using Received.hyps(3) by (simp add: post_receive_def)
    then show ?thesis using Received.IH Received.hyps(4) by (simp add: recv_outs_def)
  qed
next
  case (SendDone qp p i c S L R x qp')
  show ?case using send_done_ok [OF SendDone.IH] SendDone.hyps(2) by (metis Inr_inject prod.inject)
next
  case (ReceiveDone qp S L p i c R x qp')
  show ?case using receive_done_ok [OF ReceiveDone.IH] ReceiveDone.hyps(2) by (metis Inr_inject prod.inject)
qed

text \<open>A queue pair that is ready to send, for the examples below.\<close>

definition example_caps :: qp_caps where
  "example_caps = \<lparr>max_send_wr = 256, max_recv_wr = 256, max_send_sge = 1, max_recv_sge = 1, max_inline_data = 0\<rparr>"

definition example_wr :: "64 word \<Rightarrow> send_flags \<Rightarrow> send_wr" where
  "example_wr i flags = \<lparr>sw_id = i, sw_payload = Sges [\<lparr>sge_addr = 0x1000, sge_length = 64, sge_lkey = 7\<rparr>], sw_flags = flags, sw_op = Send\<rparr>"

lemma example_wr_sendable [simp]: "sendable (example_wr i flags)"
  by (simp add: example_wr_def sendable_def send_opcode_def)

lemma example_queues:
  obtains rq0 sq0 where "new_receive_queue mlx4_limits_new example_caps = Inr (Inr rq0)" "new_send_queue mlx4_limits_new example_caps RC = Inr (Inr sq0)"
    "max_post sq0 = 479" "max_gs sq0 = 2"
proof -
  have n: "next_power_of_two 256 = Inr 256" "next_power_of_two (Suc 0) = Inr 1" "next_power_of_two 48 = Inr 64" "next_power_of_two 289 = Inr 512"
    "ilog2 16 = 4" "ilog2 64 = 6"
    by (simp_all add: next_power_of_two_def ilog2_def bit_length.simps)
  have h: "IB_SQ_MAX_SPARE = 33" "ib_sq_headroom 6 = 33"
    by (simp_all add: IB_SQ_MAX_SPARE_def ib_sq_headroom_def IB_MAX_HEADROOM_def IB_SQ_MIN_WQE_SHIFT_def drop_bit_eq_div)
  have "\<exists>rq0. new_receive_queue mlx4_limits_new example_caps = Inr (Inr rq0)"
    by (simp add: n h new_receive_queue_def mlx4_limits_new_def example_caps_def DATA_SEGMENT_def)
  moreover have "\<exists>sq0. new_send_queue mlx4_limits_new example_caps RC = Inr (Inr sq0) \<and> max_post sq0 = 479 \<and> max_gs sq0 = 2"
    by (simp add: n h new_send_queue_def mlx4_limits_new_def example_caps_def send_wqe_overhead_def DATA_SEGMENT_def
        CONTROL_SEGMENT_def REMOTE_SEGMENT_def)
  ultimately show ?thesis using that by blast
qed

lemma example_qp:
  obtains qp where "qp_reach qp [] 0 []" "qp_state qp = ReadyToSend" "qp_type qp = RC" "wq_head (sq qp) = 0" "wq_head (rq qp) = 0"
    "max_post (sq qp) = 479" "max_gs (sq qp) = 2"
proof -
  let ?mmap = "\<lambda>n. Some (replicate n 0) :: byte list option"
  have m: "mmap_sized ?mmap" "1 \<le> max_send_sge example_caps" by (simp_all add: mmap_sized_def example_caps_def)
  obtain rq0 sq0 where q: "new_receive_queue mlx4_limits_new example_caps = Inr (Inr rq0)" "new_send_queue mlx4_limits_new example_caps RC = Inr (Inr sq0)"
    "max_post sq0 = 479" "max_gs sq0 = 2" using example_queues by blast
  obtain qp where c: "qp_create mlx4_limits_new example_caps RC ?mmap (Inr 5) = Inr (Inr qp)" "max_post (sq qp) = 479" "max_gs (sq qp) = 2"
    by (rule qp_create_buffers [OF m(1) q(1,2) m(2) refl, of "Inr 5"]) (use q(3,4) in simp_all)
  have "wq_head (rq qp) = 0" "wq_head (sq qp) = 0" "qp_type qp = RC"
    using qp_create_ok [OF m c(1)] by simp_all
  moreover have "qp_reach qp [] 0 []" using qp_reach.Created [OF m _ c(1)] by simp
  ultimately show ?thesis using that [of "qp\<lparr>qp_state := ReadyToSend\<rparr>"] c(2,3)
    using qp_reach.Modified [of qp "[]" 0 "[]" "Inr ()" "Some ReadyToSend" "Inr ()"] by (simp add: modify_qp_def)
qed



text \<open>
  C37. Completions give back the identifiers in the order of posting: when the card reports the
  oldest uncompleted request of a queue by the low 16 bits of its entry's index, the identifier that
  the caller gave to that request comes back, the entries up to it are free again, and the same holds
  for the next one. For the receive queue the tail always agrees with the card.
\<close>

theorem completions_in_order:
  assumes "qp_reach qp S L R"
  shows "(\<forall>p i c S'. S = (p, i, c) # S' \<longrightarrow> (\<exists>qp'. qp_resolve_completion qp (p mod 2 ^ 16) True = Inr (Some i, qp') \<and>
      qp_reach qp' S' L R \<and> wq_tail (sq qp') = wq_tail (sq qp) + c)) \<and>
    (\<forall>p i c R'. R = (p, i, c) # R' \<longrightarrow> (\<exists>qp'. qp_resolve_completion qp (p mod 2 ^ 16) False = Inr (Some i, qp') \<and>
      qp_reach qp' S L R' \<and> wq_tail (rq qp') = wq_tail (rq qp) + 1 \<and> \<not> divergence_reported (rq qp')))"
proof (intro conjI allI impI)
  fix p i c S' assume "S = (p, i, c) # S'"
  then have r: "qp_reach qp ((p, i, c) # S') L R" using assms by simp
  obtain qp' where "qp_resolve_completion qp (p mod 2 ^ 16) True = Inr (Some i, qp')" "wq_tail (sq qp') = wq_tail (sq qp) + c"
    using send_done_ok [OF qp_reach_ok [OF r]] by blast
  then show "\<exists>qp'. qp_resolve_completion qp (p mod 2 ^ 16) True = Inr (Some i, qp') \<and> qp_reach qp' S' L R \<and> wq_tail (sq qp') = wq_tail (sq qp) + c"
    using qp_reach.SendDone [OF r] by blast
next
  fix p i c R' assume "R = (p, i, c) # R'"
  then have r: "qp_reach qp S L ((p, i, c) # R')" using assms by simp
  obtain qp' where "qp_resolve_completion qp (p mod 2 ^ 16) False = Inr (Some i, qp')" "wq_tail (rq qp') = wq_tail (rq qp) + 1" "qp_ok qp' S L R'"
    using receive_done_ok [OF qp_reach_ok [OF r]] by blast
  then show "\<exists>qp'. qp_resolve_completion qp (p mod 2 ^ 16) False = Inr (Some i, qp') \<and> qp_reach qp' S L R' \<and>
      wq_tail (rq qp') = wq_tail (rq qp) + 1 \<and> \<not> divergence_reported (rq qp')"
    using qp_reach.ReceiveDone [OF r] by (auto simp: qp_ok_def tight_def)
qed

text \<open>One call whose requests all fit posts all of them.\<close>

lemma post_send_all:
  assumes "qp_reach qp S L R" and "list_all sendable wrs" and "wq_head (sq qp) + 33 + length wrs < 2 ^ 32" and "qp_state qp = ReadyToSend"
    and "list_all (fits (sq qp)) wrs" and "wq_head (sq qp) + length wrs < wq_tail (sq qp) + max_post (sq qp)"
  obtains qp' where "post_send qp wrs = Inr (Inr (), qp')" "qp_state qp' = ReadyToSend" "max_post (sq qp') = max_post (sq qp)"
    "qp_reach qp' (S @ fst (new_outs (wq_head (sq qp)) 1 wrs)) (L + snd (new_outs (wq_head (sq qp)) 1 wrs) - 1) R"
proof (rule post_send_ok [OF qp_reach_ok [OF assms(1)] assms(2-4)])
  fix r qp' n
  assume p: "post_send qp wrs = Inr (r, qp')" "posted (qp_type qp) (sq qp) wrs n (sq qp')" "stopped (sq qp) wrs n (sq qp') r"
  have "fits (sq qp) (wrs ! n)" if "n < length wrs" using assms(5) that by (simp add: list_all_length)
  moreover have "wq_tail (sq qp) \<le> wq_head (sq qp)" using qp_reach_ok [OF assms(1)] by (simp add: qp_ok_def qp_wf_def sq_wf_def ring_wf_def)
  ultimately have n: "r = Inr ()" "n = length wrs" using p(2,3) assms(6) by (auto simp: stopped_def posted_def same_ring_def)
  have st: "qp_state qp' = qp_state qp" using p(1) assms(4)
    by (auto simp: post_send_def ring_qp_doorbell_def elim!: and_then_InrE split: if_splits sum.splits)
  have "qp_reach qp' (S @ fst (new_outs (wq_head (sq qp)) 1 wrs)) (L + snd (new_outs (wq_head (sq qp)) 1 wrs) - 1) R"
    using qp_reach.Sent [OF assms(1-3) p(1) refl, of "fst (new_outs (wq_head (sq qp)) 1 wrs)" "snd (new_outs (wq_head (sq qp)) 1 wrs)"] p(2) n
    by (simp add: posted_def)
  moreover have "max_post (sq qp') = max_post (sq qp)" using p(2) by (simp add: posted_def same_ring_def)
  ultimately show ?thesis using that p(1) n(1) st assms(4) by simp
qed

text \<open>An unsignaled and a signaled send: the completion gives back both entries.\<close>

lemma example_sent:
  obtains qp qp' where "qp_reach qp [] 0 []" "post_send qp [example_wr 1 0, example_wr 2 SIGNALED] = Inr (Inr (), qp')"
    "qp_reach qp' [(1, 2, 2)] 0 []"
proof -
  let ?wrs = "[example_wr 1 0, example_wr 2 SIGNALED]"
  obtain qp where qp: "qp_reach qp [] 0 []" "qp_state qp = ReadyToSend" "wq_head (sq qp) = 0" "max_post (sq qp) = 479" "max_gs (sq qp) = 2"
    using example_qp by blast
  have f: "list_all (fits (sq qp)) ?wrs" using qp(5) by (simp add: fits_def example_wr_def)
  obtain qp' where p: "post_send qp ?wrs = Inr (Inr (), qp')" "qp_reach qp' (fst (new_outs 0 1 ?wrs)) (snd (new_outs 0 1 ?wrs) - 1) []"
    using post_send_all [OF qp(1) _ _ qp(2) f] qp(3,4) by auto
  have "new_outs 0 1 ?wrs = ([(1, 2, 2)], 1)" by (simp add: example_wr_def has_flag_def SIGNALED_def)
  then have "qp_reach qp' [(1, 2, 2)] 0 []" using p(2) by simp
  then show ?thesis using that qp(1) p(1) by blast
qed

theorem completions_in_order_witness:
  "\<exists>qp qp' qp''. qp_reach qp [] 0 [] \<and> post_send qp [example_wr 1 0, example_wr 2 SIGNALED] = Inr (Inr (), qp') \<and>
    qp_resolve_completion qp' 1 True = Inr (Some 2, qp'') \<and> wq_tail (sq qp'') = wq_tail (sq qp') + 2"
proof -
  obtain qp qp' where qp: "qp_reach qp [] 0 []" "post_send qp [example_wr 1 0, example_wr 2 SIGNALED] = Inr (Inr (), qp')"
    "qp_reach qp' [(1, 2, 2)] 0 []" by (rule example_sent)
  then show ?thesis using completions_in_order [OF qp(3)] by auto
qed

text \<open>
  C40. Sends without the flag \<open>SIGNALED\<close> at the end of a call are never given back (\<open>L\<close> counts them;
  no completion lowers it): a queue pair with \<open>max_post - 1\<close> of them refuses every further send, even
  when the card has completed everything.
\<close>

theorem unsignaled_sends_lost:
  assumes "qp_reach qp S L R" and "max_post (sq qp) \<le> L + 1" and "qp_state qp = ReadyToSend"
  shows "post_send qp (wr # wrs) = Inr (Inl (Other ''send queue would overflow''), qp)"
proof -
  have ok: "outstanding (sq qp) S L" "ring_wf (sq qp)" using qp_reach_ok [OF assms(1)] by (auto simp: qp_ok_def qp_wf_def sq_wf_def)
  have "L \<le> wq_head (sq qp) - wq_tail (sq qp)" using ok(1) unfolding outstanding_def by auto
  moreover have "wq_head (sq qp) - wq_tail (sq qp) \<le> wqe_cnt (sq qp)" using ok(1) unfolding outstanding_def by blast
  moreover obtain k where "wqe_cnt (sq qp) = 2 ^ k" "k \<le> 16" using ok(2) by (auto simp: ring_wf_def)
  then have "wqe_cnt (sq qp) \<le> 65536" using power_increasing [of k 16 "2 :: nat"] by simp
  ultimately have "would_overflow (sq qp) = Inr True" using ok(2) assms(2) by (simp add: would_overflow_def ring_wf_def)
  then show ?thesis using assms(3) by (simp add: post_send_def)
qed

lemma new_outs_unsignaled: "\<not> has_flag (sw_flags wr) SIGNALED \<Longrightarrow> new_outs h c (replicate n wr) = ([], c + n)"
  by (induction n arbitrary: h c) auto

theorem unsignaled_sends_lost_witness:
  "\<exists>qp qp'. qp_reach qp [] 0 [] \<and> post_send qp (replicate 478 (example_wr 1 0)) = Inr (Inr (), qp') \<and> qp_reach qp' [] 478 [] \<and>
    post_send qp' [example_wr 2 SIGNALED] = Inr (Inl (Other ''send queue would overflow''), qp')"
proof -
  let ?wrs = "replicate 478 (example_wr 1 0)"
  obtain qp where qp: "qp_reach qp [] 0 []" "qp_state qp = ReadyToSend" "wq_head (sq qp) = 0" "max_post (sq qp) = 479" "max_gs (sq qp) = 2"
    using example_qp by blast
  have f: "list_all (fits (sq qp)) ?wrs" "list_all sendable ?wrs" using qp(5) by (simp_all add: fits_def example_wr_def list_all_iff sendable_def send_opcode_def)
  have "\<not> has_flag (sw_flags (example_wr 1 0)) SIGNALED" by (simp add: example_wr_def has_flag_def SIGNALED_def)
  then have n: "new_outs 0 1 ?wrs = ([], 479)" using new_outs_unsignaled [of "example_wr 1 0" 0 1 478] by simp
  obtain qp' where p: "post_send qp ?wrs = Inr (Inr (), qp')" "qp_reach qp' [] 478 []" "qp_state qp' = ReadyToSend" "max_post (sq qp') = 479"
    using post_send_all [OF qp(1) f(2) _ qp(2) f(1)] qp(3,4) n by auto
  then show ?thesis using unsignaled_sends_lost [of qp' "[]" 478 "[]" "example_wr 2 SIGNALED" "[]"] qp(1) by auto
qed

end
