(* ===== verification/Mlx4Cq.thy ===== *)
theory Mlx4Cq
  imports Mlx4QueueCalls
begin

text \<open>
  The completion queues of the user-space InfiniBand driver
  (\<open>library/ibverbs/src/provider/mlx4/completion_queue.rs\<close>) and how they lead back to the requests of the queue
  pairs. An entry (CQE) is a record of the fields of \<open>CompletionQueueEntry\<close>; the card writes its owner
  bit last and the driver reads it first, so an entry of the driver is complete and is read as a
  whole. The card itself is a step of the relation \<open>cq_reach\<close>.
\<close>

section \<open>Work completions\<close>

datatype wc_status =
    Success | LocalLengthError | LocalQpOperationError | LocalProtError | WrFlushError | MwBindError | BadResponseError
  | LocalAccessError | RemoteInvalidRequestError | RemoteAccessError | RemoteOperationError | TransportRetryExceededError
  | RnrRetryExceededError | RemoteAbortedErr | GeneralError

datatype wc_opcode =
    WcSend | WcRdmaWrite | WcRdmaRead | WcCompareAndSwap | WcFetchAdd | WcLocalInvalidate | WcRecv | WcRecvRdmaWithImm

definition IBV_WC_GRH :: "32 word" where "IBV_WC_GRH = 1"
definition IBV_WC_WITH_IMM :: "32 word" where "IBV_WC_WITH_IMM = 2"

record work_completion =
  wc_wr_id :: "64 word"
  wc_status :: wc_status
  wc_opcode :: wc_opcode
  wc_vendor_err :: "32 word"
  wc_byte_len :: "32 word"
  wc_imm_data :: "32 word"
  wc_qp_num :: nat
  wc_src_qp :: "32 word"
  wc_flags :: "32 word"
  wc_pkey_index :: "16 word"
  wc_slid :: "16 word"
  wc_sl :: "8 word"
  wc_dlid_path_bits :: "8 word"

definition wc_default :: work_completion where
  "wc_default = \<lparr>wc_wr_id = 0, wc_status = GeneralError, wc_opcode = WcLocalInvalidate, wc_vendor_err = 0, wc_byte_len = 0,
     wc_imm_data = 0, wc_qp_num = 0, wc_src_qp = 0, wc_flags = 0, wc_pkey_index = 0, wc_slid = 0, wc_sl = 0, wc_dlid_path_bits = 0\<rparr>"

definition parse_syndrome :: "nat \<Rightarrow> wc_status" where
  "parse_syndrome syndrome = (case map_of
     [(0x01, LocalLengthError), (0x02, LocalQpOperationError), (0x04, LocalProtError), (0x05, WrFlushError), (0x06, MwBindError),
      (0x10, BadResponseError), (0x11, LocalAccessError), (0x12, RemoteInvalidRequestError), (0x13, RemoteAccessError),
      (0x14, RemoteOperationError), (0x15, TransportRetryExceededError), (0x16, RnrRetryExceededError), (0x22, RemoteAbortedErr)] syndrome of
       Some s \<Rightarrow> s | None \<Rightarrow> GeneralError)"

datatype queue_pair_opcode =
    OpNop | OpSendInval | OpRdmaWrite | OpRdmaWriteImm | OpSend | OpSendImm | OpLso | OpRdmaRead | OpAtomicCs | OpAtomicFa
  | OpMaskedAtomicCs | OpMaskedAtomicFa | OpBindMw | OpFmr | OpLocalInval | OpConfigCmd

definition qp_opcode_from_repr :: "nat \<Rightarrow> queue_pair_opcode option" where
  "qp_opcode_from_repr = map_of
     [(0x00, OpNop), (0x01, OpSendInval), (0x08, OpRdmaWrite), (0x09, OpRdmaWriteImm), (0x0a, OpSend), (0x0b, OpSendImm), (0x0e, OpLso),
      (0x10, OpRdmaRead), (0x11, OpAtomicCs), (0x12, OpAtomicFa), (0x14, OpMaskedAtomicCs), (0x15, OpMaskedAtomicFa), (0x18, OpBindMw),
      (0x19, OpFmr), (0x1b, OpLocalInval), (0x1f, OpConfigCmd)]"

datatype receive_opcode = RecvRdmaWriteImm | RecvSend | RecvSendImm | RecvSendInval

definition receive_opcode_from_repr :: "nat \<Rightarrow> receive_opcode option" where
  "receive_opcode_from_repr = map_of [(0, RecvRdmaWriteImm), (1, RecvSend), (2, RecvSendImm), (3, RecvSendInval)]"

section \<open>Entries\<close>

record cqe =
  cqe_qp_number :: nat
  immed_rss_invalid :: "32 word"
  cqe_g :: bool
  cqe_mlpath :: "8 word"
  cqe_rqpn :: "32 word"
  cqe_sl :: "8 word"
  cqe_slid :: "16 word"
  cqe_byte_cnt :: "32 word"
  cqe_wqe_index :: nat
  cqe_checksum :: nat
  cqe_owner :: nat
  cqe_is_send :: bool
  cqe_opcode :: nat

type_synonym qps = "nat \<rightharpoonup> queue_pair"

definition ctx_resolve_completion :: "qps \<Rightarrow> nat \<Rightarrow> nat \<Rightarrow> bool \<Rightarrow> (64 word option \<times> qps) run" where
  "ctx_resolve_completion qps qp_num wqe_index is_send = (case qps qp_num of
       None \<Rightarrow> Inr (None, qps)
     | Some qp \<Rightarrow> and_then (qp_resolve_completion qp wqe_index is_send) (\<lambda>(r, qp'). Inr (r, qps(qp_num \<mapsto> qp'))))"

text \<open>What a completion of a send says about the operation.\<close>

definition send_completion :: "cqe \<Rightarrow> queue_pair_opcode \<Rightarrow> work_completion \<Rightarrow> work_completion" where
  "send_completion e opcode wc = (case opcode of
       OpRdmaWrite \<Rightarrow> wc\<lparr>wc_opcode := WcRdmaWrite\<rparr>
     | OpRdmaWriteImm \<Rightarrow> wc\<lparr>wc_opcode := WcRdmaWrite, wc_flags := wc_flags wc OR IBV_WC_WITH_IMM\<rparr>
     | OpSend \<Rightarrow> wc\<lparr>wc_opcode := WcSend\<rparr>
     | OpSendImm \<Rightarrow> wc\<lparr>wc_opcode := WcSend, wc_flags := wc_flags wc OR IBV_WC_WITH_IMM\<rparr>
     | OpSendInval \<Rightarrow> wc\<lparr>wc_opcode := WcSend\<rparr>
     | OpRdmaRead \<Rightarrow> wc\<lparr>wc_opcode := WcRdmaRead, wc_byte_len := cqe_byte_cnt e\<rparr>
     | OpAtomicCs \<Rightarrow> wc\<lparr>wc_opcode := WcCompareAndSwap, wc_byte_len := 8\<rparr>
     | OpMaskedAtomicCs \<Rightarrow> wc\<lparr>wc_opcode := WcCompareAndSwap, wc_byte_len := 8\<rparr>
     | OpAtomicFa \<Rightarrow> wc\<lparr>wc_opcode := WcFetchAdd, wc_byte_len := 8\<rparr>
     | OpMaskedAtomicFa \<Rightarrow> wc\<lparr>wc_opcode := WcFetchAdd, wc_byte_len := 8\<rparr>
     | OpLocalInval \<Rightarrow> wc\<lparr>wc_opcode := WcLocalInvalidate\<rparr>
     | _ \<Rightarrow> wc)"

definition receive_completion :: "cqe \<Rightarrow> receive_opcode \<Rightarrow> work_completion \<Rightarrow> work_completion run" where
  "receive_completion e opcode wc0 =
     (let wc = wc0\<lparr>wc_byte_len := cqe_byte_cnt e\<rparr> in
      and_then (case opcode of
          RecvRdmaWriteImm \<Rightarrow> Inr (wc\<lparr>wc_opcode := WcRecvRdmaWithImm, wc_flags := wc_flags wc OR IBV_WC_WITH_IMM, wc_imm_data := immed_rss_invalid e\<rparr>)
        | RecvSendInval \<Rightarrow> Inl (PanicMsg ''not yet implemented: set invalidate_rkey'')
        | RecvSend \<Rightarrow> Inr (wc\<lparr>wc_opcode := WcRecv\<rparr>)
        | RecvSendImm \<Rightarrow> Inr (wc\<lparr>wc_opcode := WcRecv, wc_flags := wc_flags wc OR IBV_WC_WITH_IMM, wc_imm_data := immed_rss_invalid e\<rparr>)) (\<lambda>wc1.
      Inr (wc1\<lparr>wc_src_qp := cqe_rqpn e, wc_dlid_path_bits := cqe_mlpath e,
        wc_flags := (if cqe_g e then wc_flags wc1 OR IBV_WC_GRH else wc_flags wc1),
        wc_pkey_index := ucast (immed_rss_invalid e AND 0x7f), wc_slid := cqe_slid e, wc_sl := cqe_sl e\<rparr>)))"

definition CQE_OPCODE_ERROR :: nat where "CQE_OPCODE_ERROR = 0x1e"

text \<open>The part of \<open>poll_one\<close> that handles an entry of the driver.\<close>

definition complete_cqe :: "qps \<Rightarrow> cqe \<Rightarrow> ((io_error + bool) \<times> work_completion \<times> qps) run" where
  "complete_cqe qps e =
     and_then (ctx_resolve_completion qps (cqe_qp_number e) (cqe_wqe_index e) (cqe_is_send e)) (\<lambda>(r, qps1).
     let wc = wc_default\<lparr>wc_qp_num := cqe_qp_number e\<rparr> in
     case r of
       None \<Rightarrow> Inr (Inr True, wc\<lparr>wc_status := GeneralError\<rparr>, qps1)
     | Some wr_id \<Rightarrow>
         let wc1 = wc\<lparr>wc_wr_id := wr_id\<rparr> in
         if cqe_opcode e = CQE_OPCODE_ERROR
         then Inr (Inr True, wc1\<lparr>wc_vendor_err := of_nat (cqe_checksum e div 256), wc_status := parse_syndrome (cqe_checksum e mod 256)\<rparr>, qps1)
         else
           let wc2 = wc1\<lparr>wc_status := Success, wc_flags := 0\<rparr> in
           if cqe_is_send e then (case qp_opcode_from_repr (cqe_opcode e) of
               None \<Rightarrow> Inr (Inl (Other ''invalid opcode''), wc2, qps1)
             | Some opcode \<Rightarrow> Inr (Inr True, send_completion e opcode wc2, qps1))
           else (case receive_opcode_from_repr (cqe_opcode e) of
               None \<Rightarrow> Inr (Inl (Other ''invalid opcode''), wc2, qps1)
             | Some opcode \<Rightarrow> and_then (receive_completion e opcode wc2) (\<lambda>wc3. Inr (Inr True, wc3, qps1))))"

section \<open>The queue\<close>

text \<open>
  \<open>update_consumer_index\<close> and \<open>arm_consumer_index\<close> are the doorbell record, \<open>cq_rings\<close> the writes to the
  doorbell register (number, command, sequence number, index), the latest first.
\<close>

record completion_queue =
  cq_number :: nat
  num_entries :: nat
  cq_buffer :: "cqe list"
  update_consumer_index :: nat
  arm_consumer_index :: nat
  arm_sequence_number :: nat
  consumer_index :: nat
  cq_rings :: "(nat \<times> nat \<times> nat \<times> nat) list"

definition get_cqe_sw :: "completion_queue \<Rightarrow> nat \<Rightarrow> cqe option" where
  "get_cqe_sw cq index =
     (let e = cq_buffer cq ! (index AND (num_entries cq - 1)) in
      if cqe_owner e \<noteq> (index div num_entries cq) mod 2 then None else Some e)"

definition poll_one :: "qps \<Rightarrow> completion_queue \<Rightarrow> nat \<Rightarrow> ((io_error + bool) \<times> work_completion \<times> qps) run" where
  "poll_one qps cq index = (case get_cqe_sw cq index of
       Some e \<Rightarrow> complete_cqe qps e
     | None \<Rightarrow> Inr (Inr False, wc_default, qps))"

text \<open>The loop of \<open>poll\<close>, with room for \<open>n\<close> more completions; it ends with the index that it reached.\<close>

fun poll_loop :: "qps \<Rightarrow> completion_queue \<Rightarrow> nat \<Rightarrow> nat \<Rightarrow> ((io_error + unit) \<times> work_completion list \<times> qps \<times> nat) run" where
  "poll_loop qps cq ci 0 = Inr (Inr (), [], qps, ci)"
| "poll_loop qps cq ci (Suc n) = and_then (poll_one qps cq ci) (\<lambda>(r, wc, qps1). case r of
       Inl e \<Rightarrow> Inr (Inl e, [], qps1, ci)
     | Inr found \<Rightarrow>
         if \<not> found then Inr (Inr (), [], qps1, ci)
         else if ci + 1 \<ge> 2 ^ 32 then Inl ArithOverflow
         else and_then (poll_loop qps1 cq (ci + 1) n) (\<lambda>(r2, wcs, qps2, ci2). Inr (r2, wc # wcs, qps2, ci2)))"

definition poll :: "qps \<Rightarrow> completion_queue \<Rightarrow> nat \<Rightarrow> ((io_error + unit) \<times> work_completion list \<times> qps \<times> completion_queue) run" where
  "poll qps cq n = and_then (poll_loop qps cq (consumer_index cq) n) (\<lambda>(r, wcs, qps1, ci). case r of
       Inl e \<Rightarrow> Inr (Inl e, wcs, qps1, cq\<lparr>consumer_index := ci\<rparr>)
     | Inr _ \<Rightarrow> Inr (Inr (), wcs, qps1, cq\<lparr>consumer_index := ci, update_consumer_index := ci AND 0xffffff\<rparr>))"

definition ARM_NEXT :: nat where "ARM_NEXT = 2"

definition ring_cq_doorbell :: "completion_queue \<Rightarrow> nat \<Rightarrow> nat \<Rightarrow> nat \<Rightarrow> completion_queue run" where
  "ring_cq_doorbell cq cmd cmd_sn ci =
     (if cq_number cq \<ge> 2 ^ 24 \<or> cmd_sn \<ge> 2 ^ 3 \<or> ci \<ge> 2 ^ 24 then Inl AssertFailed
      else Inr (cq\<lparr>cq_rings := (cq_number cq, cmd, cmd_sn, ci) # cq_rings cq\<rparr>))"

definition arm :: "completion_queue \<Rightarrow> completion_queue run" where
  "arm cq =
     (let sn = arm_sequence_number cq AND 3; ci = consumer_index cq AND 0xffffff in
      ring_cq_doorbell (cq\<lparr>arm_consumer_index := push_bit 28 sn OR push_bit 24 ARM_NEXT OR ci\<rparr>) ARM_NEXT sn ci)"

text \<open>
  Creation: \<open>verb\<close> is the answer to \<open>CreateCq\<close>, the number of the queue and what the entries are after
  the kernel has handed the buffer to the card.
\<close>

definition cq_create :: "int \<Rightarrow> (nat \<Rightarrow> byte list option) \<Rightarrow> (io_error + nat \<times> cqe list) \<Rightarrow> (io_error + completion_queue) run" where
  "cq_create min_num_entries mmap verb =
     (if min_num_entries < 0 then Inr (Inl (InvalidInput ''cq_entries must be positive''))
      else and_then (next_power_of_two (nat min_num_entries)) (\<lambda>p.
        let n = max p 1 in
        case mmap (div_ceil (n * 32) 4096 * 4096) of
          None \<Rightarrow> Inr (Inl (Other ''failed to allocate CQE buffer''))
        | Some _ \<Rightarrow> (case mmap 8 of
            None \<Rightarrow> Inr (Inl (Other ''failed to allocate CQ doorbell''))
          | Some _ \<Rightarrow> (case verb of
              Inl e \<Rightarrow> Inr (Inl e)
            | Inr (num, entries) \<Rightarrow>
                and_then (arm \<lparr>cq_number = num, num_entries = n, cq_buffer = entries, update_consumer_index = 0, arm_consumer_index = 0,
                  arm_sequence_number = 1, consumer_index = 0, cq_rings = []\<rparr>) (\<lambda>cq. Inr (Inr cq))))))"

section \<open>The queue and the card\<close>

text \<open>
  The reachable states of a queue, with the entries that the card has written and the driver has not
  taken: after creation the card owns all entries (the owner bit is 1), it writes the next free entry
  with the owner bit of its round, and it never overruns the queue.
\<close>

definition card_write :: "completion_queue \<Rightarrow> nat \<Rightarrow> cqe \<Rightarrow> completion_queue" where
  "card_write cq p e = cq\<lparr>cq_buffer := (cq_buffer cq)[p mod num_entries cq := e\<lparr>cqe_owner := (p div num_entries cq) mod 2\<rparr>]\<rparr>"

inductive cq_reach :: "completion_queue \<Rightarrow> cqe list \<Rightarrow> bool" where
  Created: "cq_create n mmap (Inr (num, entries)) = Inr (Inr cq) \<Longrightarrow> length entries = num_entries cq \<Longrightarrow>
    list_all (\<lambda>e. cqe_owner e = 1) entries \<Longrightarrow> cq_reach cq []"
| Written: "cq_reach cq es \<Longrightarrow> length es < num_entries cq \<Longrightarrow> p = consumer_index cq + length es \<Longrightarrow>
    cq_reach (card_write cq p e) (es @ [e\<lparr>cqe_owner := (p div num_entries cq) mod 2\<rparr>])"
| Polled: "cq_reach cq es \<Longrightarrow> poll qps cq n = Inr (r, wcs, qps', cq') \<Longrightarrow> m = consumer_index cq' - consumer_index cq \<Longrightarrow>
    cq_reach cq' (drop m es)"
| Armed: "cq_reach cq es \<Longrightarrow> arm cq = Inr cq' \<Longrightarrow> cq_reach cq' es"

text \<open>What \<open>poll\<close> promises: it takes entries from the front, in order, until it has enough or there are none.\<close>

fun deliver :: "qps \<Rightarrow> cqe list \<Rightarrow> nat \<Rightarrow> ((io_error + unit) \<times> work_completion list \<times> qps \<times> nat) run" where
  "deliver qps es 0 = Inr (Inr (), [], qps, 0)"
| "deliver qps [] (Suc n) = Inr (Inr (), [], qps, 0)"
| "deliver qps (e # es) (Suc n) = and_then (complete_cqe qps e) (\<lambda>(r, wc, qps1). case r of
       Inl err \<Rightarrow> Inr (Inl err, [], qps1, 0)
     | Inr _ \<Rightarrow> and_then (deliver qps1 es n) (\<lambda>(r2, wcs, qps2, m). Inr (r2, wc # wcs, qps2, m + 1)))"

section \<open>Polling takes the entries in order\<close>

definition slot_ok :: "completion_queue \<Rightarrow> cqe list \<Rightarrow> nat \<Rightarrow> bool" where
  "slot_ok cq es j \<longleftrightarrow>
     (if j < length es
      then cq_buffer cq ! ((consumer_index cq + j) mod num_entries cq) = es ! j \<and>
        cqe_owner (es ! j) = (consumer_index cq + j) div num_entries cq mod 2
      else cqe_owner (cq_buffer cq ! ((consumer_index cq + j) mod num_entries cq)) \<noteq> (consumer_index cq + j) div num_entries cq mod 2)"

definition cq_ok :: "completion_queue \<Rightarrow> cqe list \<Rightarrow> bool" where
  "cq_ok cq es \<longleftrightarrow> (\<exists>k. num_entries cq = 2 ^ k) \<and> length (cq_buffer cq) = num_entries cq \<and> length es \<le> num_entries cq \<and>
     (\<forall>j < num_entries cq. slot_ok cq es j)"

lemma cq_ok_slot: "cq_ok cq es \<Longrightarrow> j < num_entries cq \<Longrightarrow> slot_ok cq es j"
  by (simp add: cq_ok_def)

lemma cq_ok_cong:
  "cq_buffer cq' = cq_buffer cq \<Longrightarrow> num_entries cq' = num_entries cq \<Longrightarrow> consumer_index cq' = consumer_index cq \<Longrightarrow> cq_ok cq' es = cq_ok cq es"
  by (simp add: cq_ok_def slot_ok_def)

lemma cq_ok_pos: "cq_ok cq es \<Longrightarrow> 0 < num_entries cq"
  by (auto simp: cq_ok_def)

lemma get_cqe_head: "cq_ok cq es \<Longrightarrow> get_cqe_sw cq (consumer_index cq) = (case es of [] \<Rightarrow> None | e # _ \<Rightarrow> Some e)"
proof -
  assume ok: "cq_ok cq es"
  then obtain k where "num_entries cq = 2 ^ k" by (auto simp: cq_ok_def)
  then have idx: "consumer_index cq AND (num_entries cq - 1) = consumer_index cq mod num_entries cq" by (simp only: and_pow2_minus_1)
  show ?thesis unfolding get_cqe_sw_def idx Let_def using cq_ok_slot [OF ok cq_ok_pos [OF ok]] by (cases es) (simp_all add: slot_ok_def)
qed

lemma cq_ok_advance:
  assumes ok: "cq_ok cq (e # es)"
  shows "cq_ok (cq\<lparr>consumer_index := Suc (consumer_index cq)\<rparr>) es"
proof -
  let ?n = "num_entries cq" and ?c = "consumer_index cq" and ?b = "cq_buffer cq"
  have n: "0 < ?n" by (rule cq_ok_pos [OF ok])
  have "slot_ok (cq\<lparr>consumer_index := Suc ?c\<rparr>) es j" if j: "j < ?n" for j
  proof (cases "Suc j < ?n")
    case True
    then show ?thesis using cq_ok_slot [OF ok True] by (cases "j < length es") (simp_all add: slot_ok_def)
  next
    case False
    then have jn: "Suc (?c + j) = ?c + ?n" using j by simp
    have "\<not> j < length es" using False j ok by (simp add: cq_ok_def)
    moreover have "cqe_owner (?b ! (?c mod ?n)) = ?c div ?n mod 2" using cq_ok_slot [OF ok n] by (simp add: slot_ok_def)
    moreover have "Suc (?c + j) mod ?n = ?c mod ?n" "Suc (?c + j) div ?n = Suc (?c div ?n)"
      unfolding jn using n div_add_self2 [of ?n ?c] by simp_all
    moreover have "Suc (?c div ?n) mod 2 \<noteq> ?c div ?n mod 2" by (simp add: mod_Suc)
    ultimately show ?thesis by (simp add: slot_ok_def)
  qed
  then show ?thesis using ok by (simp add: cq_ok_def)
qed

lemma cq_ok_drop:
  "cq_ok (cq\<lparr>consumer_index := ci\<rparr>) es \<Longrightarrow> m \<le> length es \<Longrightarrow> cq_ok (cq\<lparr>consumer_index := ci + m\<rparr>) (drop m es)"
proof (induction m arbitrary: ci es)
  case (Suc m)
  then obtain e es' where es: "es = e # es'" by (cases es) auto
  have "cq_ok (cq\<lparr>consumer_index := Suc ci\<rparr>) es'" using cq_ok_advance [of "cq\<lparr>consumer_index := ci\<rparr>" e es'] Suc.prems(1) by (simp add: es)
  then show ?case using Suc.IH [of "Suc ci" es'] Suc.prems(2) by (simp add: es)
qed simp

lemma cq_ok_write:
  assumes ok: "cq_ok cq es" and l: "length es < num_entries cq" and p: "p = consumer_index cq + length es"
  shows "cq_ok (card_write cq p e) (es @ [e\<lparr>cqe_owner := p div num_entries cq mod 2\<rparr>])"
proof -
  let ?n = "num_entries cq" and ?c = "consumer_index cq"
  have len: "length (cq_buffer cq) = ?n" using ok by (simp add: cq_ok_def)
  have other: "(?c + j) mod ?n \<noteq> p mod ?n" if "j < ?n" "j \<noteq> length es" for j
  proof (cases "j < length es")
    case True
    then show ?thesis using l p by (intro mod_neq) auto
  next
    case False
    then have "p mod ?n \<noteq> (?c + j) mod ?n" using that p by (intro mod_neq) auto
    then show ?thesis by simp
  qed
  have at: "p mod ?n < ?n" using cq_ok_pos [OF ok] by simp
  have "slot_ok (card_write cq p e) (es @ [e\<lparr>cqe_owner := p div ?n mod 2\<rparr>]) j" if j: "j < ?n" for j
    using cq_ok_slot [OF ok j] other [OF j] at len p
    by (cases "j = length es"; cases "j < length es") (simp_all add: slot_ok_def card_write_def nth_append)
  then show ?thesis using ok l by (simp add: cq_ok_def card_write_def)
qed

lemma arm_same: "arm cq = Inr cq' \<Longrightarrow> cq_buffer cq' = cq_buffer cq \<and> num_entries cq' = num_entries cq \<and> consumer_index cq' = consumer_index cq"
  by (auto simp: arm_def ring_cq_doorbell_def Let_def split: if_splits)

lemma complete_more: "complete_cqe qps e = Inr (Inr found, wc, qps') \<Longrightarrow> found"
  by (auto simp: complete_cqe_def Let_def elim!: and_then_InrE split: option.splits if_splits)

lemma poll_loop_deliver:
  assumes "cq_ok (cq\<lparr>consumer_index := ci\<rparr>) es"
  shows "poll_loop qps cq ci n = and_then (deliver qps es n) (\<lambda>(r, wcs, q, m). Inr (r, wcs, q, ci + m)) \<or>
    poll_loop qps cq ci n = Inl ArithOverflow \<and> 2 ^ 32 \<le> ci + n"
  using assms
proof (induction n arbitrary: qps ci es)
  case (Suc n)
  have g: "get_cqe_sw cq ci = (case es of [] \<Rightarrow> None | e # _ \<Rightarrow> Some e)"
    using get_cqe_head [OF Suc.prems] by (simp add: get_cqe_sw_def)
  show ?case
  proof (cases es)
    case Nil
    then show ?thesis using g by (simp add: poll_one_def)
  next
    case (Cons e es')
    have ok: "cq_ok (cq\<lparr>consumer_index := Suc ci\<rparr>) es'" using cq_ok_advance [of "cq\<lparr>consumer_index := ci\<rparr>" e es'] Suc.prems by (simp add: Cons)
    show ?thesis
    proof (cases "complete_cqe qps e")
      case (Inl x)
      then show ?thesis using g by (simp add: poll_one_def Cons)
    next
      case (Inr y)
      obtain r wc q where y: "y = (r, wc, q)" by (cases y)
      show ?thesis
      proof (cases r)
        case (Inl err)
        then show ?thesis using g Inr y by (simp add: poll_one_def Cons)
      next
        case found: (Inr found)
        then have "found" using complete_more Inr y by blast
        then have c: "complete_cqe qps e = Inr (Inr True, wc, q)" using Inr y found by simp
        have l: "poll_loop qps cq ci (Suc n) = (if ci + 1 \<ge> 2 ^ 32 then Inl ArithOverflow
            else and_then (poll_loop q cq (Suc ci) n) (\<lambda>(r2, wcs, qps2, ci2). Inr (r2, wc # wcs, qps2, ci2)))"
          using g c by (simp add: poll_one_def Cons)
        show ?thesis using Suc.IH [OF ok, of q] unfolding l
          by (cases "deliver q es' n") (auto simp: Cons c split: prod.split)
      qed
    qed
  qed
qed simp

lemma deliver_count: "deliver qps es n = Inr (r, wcs, q, m) \<Longrightarrow> m \<le> length es \<and> m \<le> n \<and> length wcs = m"
proof (induction qps es n arbitrary: r wcs q m rule: deliver.induct)
  case (3 qps e es n)
  then show ?case by (fastforce elim!: and_then_InrE split: sum.splits prod.splits)
qed auto

lemma cq_create_ok:
  assumes c: "cq_create n mmap (Inr (num, entries)) = Inr (Inr cq)" and l: "length entries = num_entries cq"
    and o: "list_all (\<lambda>e. cqe_owner e = 1) entries"
  shows "cq_ok cq []"
proof -
  obtain p where p: "next_power_of_two (nat n) = Inr p" using c by (auto simp: cq_create_def elim!: and_then_InrE split: if_splits)
  then obtain k where k: "p = 2 ^ k" by (auto simp: next_power_of_two_def Let_def split: if_splits intro: that [of 0])
  have m: "max p (Suc 0) = 2 ^ k" using k one_le_power [of "2 :: nat" k] by (simp add: max_absorb1)
  have cq: "num_entries cq = 2 ^ k \<and> cq_buffer cq = entries \<and> consumer_index cq = 0"
    using c p by (auto simp: cq_create_def Let_def m dest!: arm_same elim!: and_then_InrE split: if_splits option.splits)
  have "cqe_owner (entries ! j) = 1" if "j < 2 ^ k" for j using o l cq that by (simp add: list_all_length)
  then show ?thesis using cq l by (auto simp: cq_ok_def slot_ok_def)
qed

lemma poll_ok:
  assumes ok: "cq_ok cq es" and p: "poll qps cq n = Inr (r, wcs, qps', cq')"
  shows "cq_ok cq' (drop (consumer_index cq' - consumer_index cq) es)"
proof -
  have ok': "cq_ok (cq\<lparr>consumer_index := consumer_index cq\<rparr>) es" using ok by simp
  obtain ci where l: "poll_loop qps cq (consumer_index cq) n = Inr (r, wcs, qps', ci)"
      and cq': "cq' = cq\<lparr>consumer_index := ci\<rparr> \<or> cq' = cq\<lparr>consumer_index := ci, update_consumer_index := ci AND 0xffffff\<rparr>"
    using p by (auto simp: poll_def elim!: and_then_InrE split: sum.splits)
  obtain m where m: "deliver qps es n = Inr (r, wcs, qps', m)" "ci = consumer_index cq + m"
    using poll_loop_deliver [OF ok', of qps n] l by (cases "deliver qps es n") auto
  have "cq_ok (cq\<lparr>consumer_index := ci\<rparr>) (drop m es)" using cq_ok_drop [OF ok'] deliver_count [OF m(1)] m(2) by simp
  moreover have "consumer_index cq' - consumer_index cq = m" using cq' m(2) by auto
  moreover have "cq_ok cq' es' = cq_ok (cq\<lparr>consumer_index := ci\<rparr>) es'" for es' using cq' by (intro cq_ok_cong) auto
  ultimately show ?thesis by simp
qed

lemma cq_reach_ok: "cq_reach cq es \<Longrightarrow> cq_ok cq es"
proof (induction rule: cq_reach.induct)
  case (Created n mmap num entries cq)
  then show ?case by (rule cq_create_ok)
next
  case (Written cq es p e)
  then show ?case using cq_ok_write by simp
next
  case (Polled cq es qps n r wcs qps' cq' m)
  then show ?case using poll_ok by blast
next
  case (Armed cq es cq')
  then show ?case using arm_same [of cq cq'] cq_ok_cong [of cq' cq es] by simp
qed

text \<open>
  C38. A completion queue is a queue: \<open>poll\<close> takes the entries that the card has written in the order
  of writing, as many as there is room for and never one that is stale or half written, although the
  ring is reused and only the owner bit tells the rounds apart. It then tells the card how far it got.
\<close>

theorem poll_fifo:
  assumes "cq_reach cq es" and "consumer_index cq + n < 2 ^ 32"
  shows "poll qps cq n = and_then (deliver qps es n) (\<lambda>(r, wcs, qps', m).
    let ci = consumer_index cq + m in
    Inr (r, wcs, qps', case r of Inl _ \<Rightarrow> cq\<lparr>consumer_index := ci\<rparr>
      | Inr _ \<Rightarrow> cq\<lparr>consumer_index := ci, update_consumer_index := ci mod 2 ^ 24\<rparr>))"
proof -
  have "cq_ok (cq\<lparr>consumer_index := consumer_index cq\<rparr>) es" using cq_reach_ok [OF assms(1)] by simp
  from poll_loop_deliver [OF this, of qps n] assms(2)
  have l: "poll_loop qps cq (consumer_index cq) n = and_then (deliver qps es n) (\<lambda>(r, wcs, q, m). Inr (r, wcs, q, consumer_index cq + m))"
    by auto
  have a: "c AND 0xffffff = c mod 2 ^ 24" for c :: nat using and_pow2_minus_1 [of c 24] by simp
  show ?thesis unfolding poll_def l a by (cases "deliver qps es n") (auto simp: Let_def split: sum.split)
qed

text \<open>A queue of two entries, and an entry that the card writes.\<close>

definition example_cqe :: cqe where
  "example_cqe = \<lparr>cqe_qp_number = 5, immed_rss_invalid = 0, cqe_g = False, cqe_mlpath = 0, cqe_rqpn = 0, cqe_sl = 0, cqe_slid = 0,
     cqe_byte_cnt = 0, cqe_wqe_index = 1, cqe_checksum = 0, cqe_owner = 1, cqe_is_send = True, cqe_opcode = 0xa\<rparr>"

lemma example_cq:
  obtains cq where "cq_reach cq [example_cqe\<lparr>cqe_owner := 0\<rparr>]" "consumer_index cq = 0"
proof -
  let ?mmap = "\<lambda>n. Some (replicate n 0) :: byte list option" and ?es = "replicate 2 example_cqe"
  have "next_power_of_two 2 = Inr 2" by (simp add: next_power_of_two_def bit_length.simps)
  then obtain cq where c: "cq_create 2 ?mmap (Inr (9, ?es)) = Inr (Inr cq)" "num_entries cq = 2" "consumer_index cq = 0"
    by (simp add: cq_create_def arm_def ring_cq_doorbell_def Let_def)
  have "cq_reach cq []" using cq_reach.Created [OF c(1)] c(2) by (simp add: list_all_iff example_cqe_def)
  from cq_reach.Written [OF this _ refl, of example_cqe]
  have "cq_reach (card_write cq 0 example_cqe) [example_cqe\<lparr>cqe_owner := 0\<rparr>]" using c(2,3) by simp
  moreover have "consumer_index (card_write cq 0 example_cqe) = 0" using c(3) by (simp add: card_write_def)
  ultimately show ?thesis by (rule that)
qed

theorem poll_fifo_witness:
  "\<exists>cq. cq_reach cq [example_cqe\<lparr>cqe_owner := 0\<rparr>] \<and> poll Map.empty cq 4 =
    Inr (Inr (), [wc_default\<lparr>wc_qp_num := 5\<rparr>], Map.empty, cq\<lparr>consumer_index := 1, update_consumer_index := 1\<rparr>)"
proof -
  obtain cq where cq: "cq_reach cq [example_cqe\<lparr>cqe_owner := 0\<rparr>]" "consumer_index cq = 0" by (rule example_cq)
  have "deliver Map.empty [example_cqe\<lparr>cqe_owner := 0\<rparr>] 4 = Inr (Inr (), [wc_default\<lparr>wc_qp_num := 5\<rparr>], Map.empty, 1)"
    by (simp add: numeral_eq_Suc complete_cqe_def ctx_resolve_completion_def example_cqe_def wc_default_def)
  then show ?thesis using poll_fifo [OF cq(1), of 4 Map.empty] cq by auto
qed

section \<open>Completions of requests\<close>

text \<open>
  What the completion queue relies on of a queue of a queue pair: a completion of the oldest request
  returns its identifier. \<open>side\<close> tells the send queue from the receive queue.
\<close>

locale request_queue =
  fixes pending :: "queue_pair \<Rightarrow> outs \<Rightarrow> bool" and side :: bool
  assumes resolve_head: "pending qp ((p, i, c) # rest) \<Longrightarrow> \<exists>qp'. qp_resolve_completion qp (p mod 2 ^ 16) side = Inr (Some i, qp') \<and> pending qp' rest"

text \<open>An entry that reports the success of a request, and the entries for the oldest requests.\<close>

definition reports :: "bool \<Rightarrow> nat \<Rightarrow> cqe \<Rightarrow> nat \<times> 64 word \<times> nat \<Rightarrow> bool" where
  "reports side qp_num e req \<longleftrightarrow> cqe_qp_number e = qp_num \<and> cqe_is_send e = side \<and> cqe_wqe_index e = fst req mod 2 ^ 16 \<and>
     (if side then qp_opcode_from_repr (cqe_opcode e) \<noteq> None else cqe_opcode e < 3)"

definition completes :: "bool \<Rightarrow> nat \<Rightarrow> cqe list \<Rightarrow> outs \<Rightarrow> bool" where
  "completes side qp_num es reqs \<longleftrightarrow> length es \<le> length reqs \<and> list_all2 (reports side qp_num) es (take (length es) reqs)"

lemma completes_Cons:
  "completes side qp_num (e # es) reqs \<Longrightarrow> \<exists>req reqs'. reqs = req # reqs' \<and> reports side qp_num e req \<and> completes side qp_num es reqs'"
  by (cases reqs) (auto simp: completes_def)

lemma send_completion_same: "wc_wr_id (send_completion e opc wc) = wc_wr_id wc \<and> wc_status (send_completion e opc wc) = wc_status wc \<and>
    wc_qp_num (send_completion e opc wc) = wc_qp_num wc"
  by (cases opc) (simp_all add: send_completion_def)

lemma receive_completion_same:
  "opc \<noteq> RecvSendInval \<Longrightarrow> \<exists>wc'. receive_completion e opc wc = Inr wc' \<and> wc_wr_id wc' = wc_wr_id wc \<and> wc_status wc' = wc_status wc \<and>
    wc_qp_num wc' = wc_qp_num wc"
  by (cases opc) (simp_all add: receive_completion_def Let_def)

lemma complete_success:
  assumes "reports side qp_num e req" and "ctx_resolve_completion qps qp_num (fst req mod 2 ^ 16) side = Inr (Some i, qps')"
  shows "\<exists>wc. complete_cqe qps e = Inr (Inr True, wc, qps') \<and> wc_wr_id wc = i \<and> wc_status wc = Success \<and> wc_qp_num wc = qp_num"
proof (cases side)
  case True
  then obtain opc where opc: "qp_opcode_from_repr (cqe_opcode e) = Some opc" using assms(1) by (auto simp: reports_def)
  have "cqe_opcode e \<noteq> CQE_OPCODE_ERROR" using opc by (auto simp: qp_opcode_from_repr_def CQE_OPCODE_ERROR_def)
  then show ?thesis using assms True opc by (auto simp: complete_cqe_def reports_def Let_def send_completion_same)
next
  case False
  then have "cqe_opcode e = 0 \<or> cqe_opcode e = 1 \<or> cqe_opcode e = 2" using assms(1) by (auto simp: reports_def)
  then obtain opc where opc: "receive_opcode_from_repr (cqe_opcode e) = Some opc" "opc \<noteq> RecvSendInval" "cqe_opcode e \<noteq> CQE_OPCODE_ERROR"
    by (auto simp: receive_opcode_from_repr_def CQE_OPCODE_ERROR_def)
  let ?wc = "wc_default\<lparr>wc_qp_num := qp_num, wc_wr_id := i, wc_status := Success, wc_flags := 0\<rparr>"
  obtain wc where "receive_completion e opc ?wc = Inr wc" "wc_wr_id wc = i" "wc_status wc = Success" "wc_qp_num wc = qp_num"
    using receive_completion_same [OF opc(2), of e ?wc] by auto
  then show ?thesis using assms False opc by (auto simp: complete_cqe_def reports_def Let_def)
qed

context request_queue
begin

lemma deliver_reports:
  "qps qp_num = Some qp \<Longrightarrow> pending qp reqs \<Longrightarrow> completes side qp_num es reqs \<Longrightarrow>
    \<exists>wcs qp'. deliver qps es n = Inr (Inr (), wcs, qps(qp_num \<mapsto> qp'), min n (length es)) \<and> pending qp' (drop (min n (length es)) reqs) \<and>
      map wc_wr_id wcs = map (fst \<circ> snd) (take (min n (length es)) reqs) \<and> list_all (\<lambda>wc. wc_status wc = Success \<and> wc_qp_num wc = qp_num) wcs"
proof (induction n arbitrary: qps qp reqs es)
  case 0
  then show ?case by (intro exI [of _ "[]"] exI [of _ qp]) (auto simp: fun_upd_idem)
next
  case (Suc n)
  show ?case
  proof (cases es)
    case Nil
    then show ?thesis using Suc.prems by (intro exI [of _ "[]"] exI [of _ qp]) (auto simp: fun_upd_idem)
  next
    case (Cons e es')
    obtain p i c reqs' where r: "reqs = (p, i, c) # reqs'" "reports side qp_num e (p, i, c)" "completes side qp_num es' reqs'"
      using completes_Cons Suc.prems(3) Cons by (metis prod_cases3)
    obtain qp1 where qp1: "qp_resolve_completion qp (p mod 2 ^ 16) side = Inr (Some i, qp1)" "pending qp1 reqs'"
      using resolve_head Suc.prems(2) r(1) by blast
    have "ctx_resolve_completion qps qp_num (fst (p, i, c) mod 2 ^ 16) side = Inr (Some i, qps(qp_num \<mapsto> qp1))"
      using Suc.prems(1) qp1(1) by (simp add: ctx_resolve_completion_def)
    from complete_success [OF r(2) this] obtain wc where wc: "complete_cqe qps e = Inr (Inr True, wc, qps(qp_num \<mapsto> qp1))"
      "wc_wr_id wc = i" "wc_status wc = Success" "wc_qp_num wc = qp_num" by blast
    obtain wcs qp' where d: "deliver (qps(qp_num \<mapsto> qp1)) es' n = Inr (Inr (), wcs, qps(qp_num \<mapsto> qp'), min n (length es'))"
      "pending qp' (drop (min n (length es')) reqs')" "map wc_wr_id wcs = map (fst \<circ> snd) (take (min n (length es')) reqs')"
      "list_all (\<lambda>wc. wc_status wc = Success \<and> wc_qp_num wc = qp_num) wcs"
      using Suc.IH [OF _ qp1(2) r(3), of "qps(qp_num \<mapsto> qp1)"] unfolding fun_upd_upd fun_upd_same by blast
    have "deliver qps es (Suc n) = Inr (Inr (), wc # wcs, qps(qp_num \<mapsto> qp'), min n (length es') + 1)"
      unfolding Cons deliver.simps wc(1) and_then.simps prod.case sum.case d(1) ..
    moreover have "min (Suc n) (length es) = min n (length es') + 1" by (simp add: Cons)
    ultimately show ?thesis using d(2-4) wc(2-4) by (intro exI [of _ "wc # wcs"] exI [of _ qp']) (simp add: r(1) del: fun_upd_apply)
  qed
qed

end

definition pending_on :: "bool \<Rightarrow> queue_pair \<Rightarrow> outs \<Rightarrow> bool" where
  "pending_on side qp reqs \<longleftrightarrow> (if side then \<exists>L R. qp_reach qp reqs L R else \<exists>S L. qp_reach qp S L reqs)"

interpretation sends: request_queue "pending_on True" True
proof
  fix qp p i c rest assume "pending_on True qp ((p, i, c) # rest)"
  then obtain L R where r: "qp_reach qp ((p, i, c) # rest) L R" by (auto simp: pending_on_def)
  obtain qp' where "qp_resolve_completion qp (p mod 2 ^ 16) True = Inr (Some i, qp')"
    using send_done_ok [OF qp_reach_ok [OF r]] by blast
  then show "\<exists>qp'. qp_resolve_completion qp (p mod 2 ^ 16) True = Inr (Some i, qp') \<and> pending_on True qp' rest"
    using qp_reach.SendDone [OF r] by (auto simp: pending_on_def)
qed

interpretation receives: request_queue "pending_on False" False
proof
  fix qp p i c rest assume "pending_on False qp ((p, i, c) # rest)"
  then obtain S L where r: "qp_reach qp S L ((p, i, c) # rest)" by (auto simp: pending_on_def)
  obtain qp' where "qp_resolve_completion qp (p mod 2 ^ 16) False = Inr (Some i, qp')"
    using receive_done_ok [OF qp_reach_ok [OF r]] by blast
  then show "\<exists>qp'. qp_resolve_completion qp (p mod 2 ^ 16) False = Inr (Some i, qp') \<and> pending_on False qp' rest"
    using qp_reach.ReceiveDone [OF r] by (auto simp: pending_on_def)
qed

text \<open>
  C39. From the request to its completion: when the entries in a completion queue report the oldest
  requests of a queue pair, \<open>poll\<close> returns for each of them a successful completion with the identifier
  that the caller gave to the request, in the order of posting, and afterwards exactly the other
  requests are outstanding. This holds for the send queue (\<open>side\<close>) and for the receive queue.
\<close>

theorem poll_reports_requests:
  assumes "cq_reach cq es" and "consumer_index cq + n < 2 ^ 32" and "qps qp_num = Some qp" and "pending_on side qp reqs"
    and "completes side qp_num es reqs"
  shows "\<exists>wcs qp' cq'. poll qps cq n = Inr (Inr (), wcs, qps(qp_num \<mapsto> qp'), cq') \<and> cq_reach cq' (drop n es) \<and>
    pending_on side qp' (drop (length wcs) reqs) \<and> length wcs = min n (length es) \<and>
    map wc_wr_id wcs = map (fst \<circ> snd) (take (length wcs) reqs) \<and> list_all (\<lambda>wc. wc_status wc = Success \<and> wc_qp_num wc = qp_num) wcs"
proof -
  obtain wcs qp' where d: "deliver qps es n = Inr (Inr (), wcs, qps(qp_num \<mapsto> qp'), min n (length es))"
    "pending_on side qp' (drop (min n (length es)) reqs)" "map wc_wr_id wcs = map (fst \<circ> snd) (take (min n (length es)) reqs)"
    "list_all (\<lambda>wc. wc_status wc = Success \<and> wc_qp_num wc = qp_num) wcs"
    using sends.deliver_reports [of qps qp_num qp reqs es n] receives.deliver_reports [of qps qp_num qp reqs es n] assms(3-5)
    by (cases side) auto
  have l: "length wcs = min n (length es)" using deliver_count [OF d(1)] by simp
  have "cq_ok (cq\<lparr>consumer_index := consumer_index cq\<rparr>) es" using cq_reach_ok [OF assms(1)] by simp
  from poll_loop_deliver [OF this, of qps n] d(1) assms(2)
  have "poll_loop qps cq (consumer_index cq) n = Inr (Inr (), wcs, qps(qp_num \<mapsto> qp'), consumer_index cq + min n (length es))" by auto
  then obtain cq' where p: "poll qps cq n = Inr (Inr (), wcs, qps(qp_num \<mapsto> qp'), cq')" "consumer_index cq' = consumer_index cq + min n (length es)"
    by (auto simp: poll_def)
  have "cq_reach cq' (drop n es)" using cq_reach.Polled [OF assms(1) p(1) refl] p(2) by (cases "n \<le> length es") (simp_all add: min_def)
  then show ?thesis using p(1) d l by auto
qed

theorem poll_reports_requests_witness:
  "\<exists>cq qp wcs qp' cq'. qp_reach qp [(1, 2, 2)] 0 [] \<and> poll [5 \<mapsto> qp] cq 4 = Inr (Inr (), wcs, [5 \<mapsto> qp'], cq') \<and>
    map wc_wr_id wcs = [2] \<and> pending_on True qp' []"
proof -
  obtain cq where cq: "cq_reach cq [example_cqe\<lparr>cqe_owner := 0\<rparr>]" "consumer_index cq = 0" by (rule example_cq)
  obtain qp0 qp where qp: "qp_reach qp [(1, 2, 2)] 0 []" by (rule example_sent)
  have "pending_on True qp [(1, 2, 2)]" using qp by (auto simp: pending_on_def)
  moreover have "completes True 5 [example_cqe\<lparr>cqe_owner := 0\<rparr>] [(1, 2, 2)]"
    by (simp add: completes_def reports_def example_cqe_def qp_opcode_from_repr_def)
  ultimately obtain wcs qp' cq' where p: "poll [5 \<mapsto> qp] cq 4 = Inr (Inr (), wcs, [5 \<mapsto> qp'], cq')" "length wcs = 1"
    "pending_on True qp' (drop (length wcs) [(1, 2, 2)])" "map wc_wr_id wcs = map (fst \<circ> snd) (take (length wcs) [(1, 2, 2)])"
    using poll_reports_requests [OF cq(1), of 4 "[5 \<mapsto> qp]" 5 qp True "[(1, 2, 2)]"] cq(2) by auto
  from p(2-4) have "map wc_wr_id wcs = [2]" "pending_on True qp' []" by simp_all
  with qp p(1) show ?thesis by (intro exI [of _ cq] exI [of _ qp] exI [of _ wcs] exI [of _ qp'] exI [of _ cq'] conjI)
qed

end
