(* ===== verification/Spec2Isabelle.thy ===== *)
theory Spec2Isabelle
  imports Dram Frames FramesLf PagingProps UserCopy Shm Pipe SchedulerProps TextBuffer NamingCalls Mlx4Cq
begin

text \<open>
  A verification development for D3OS, a research operating system in Rust (\<open>src/os\<close>): a kernel with
  paging, a scheduler for several cores, named objects and pipes, and a user-space driver for
  InfiniBand cards of the type mlx4. Paths below are relative to \<open>src/os/kernel/src\<close> unless they
  begin with \<open>library\<close>.

  \<^bold>\<open>The parts and how they interact.\<close> At boot \<open>memory/dram.rs\<close> collects the memory map and takes the
  reserved regions out of the available ones; one of two page frame allocators (\<open>memory/frames.rs\<close>,
  \<open>memory/frames_lf.rs\<close>) starts from the result and serves \<open>memory/mod.rs\<close>. Page tables
  (\<open>memory/pages.rs\<close>) take frames from there; an address space (\<open>memory/vmm.rs\<close>) is a set of areas
  (\<open>memory/vma.rs\<close>) over a page table; shared memory (\<open>memory/shm.rs\<close>) maps the same frames into several
  address spaces. The scheduler (\<open>process/scheduler.rs\<close>) runs the threads, wait queues
  (\<open>sync/wait_queue.rs\<close>) are built on it, pipes on these, and the naming service (\<open>naming\<close>) gives files,
  directories, pipes and the state of the kernel names and handles. System calls return through
  \<open>library/syscall\<close>. Applications edit text in \<open>library/text_buffer\<close> and reach the InfiniBand card
  through \<open>library/ibverbs\<close>.

  \<^bold>\<open>Conventions.\<close> A computation that may abort has the type \<open>'a run = panic + 'a\<close>: panics, failed
  assertions, unwrapped empty values, indices out of range and arithmetic overflow (the overflow checks
  of the dev profile) are values on the left; an \<open>Err\<close> of the code is an inner sum. State is passed
  explicitly, structures are records with the fields of the source, loops are recursive functions over
  the loop variables. Pages and frames are numbers, addresses are byte addresses. Code of other packages
  is an argument of the definitions, and what the kernel relies on is a named predicate with an
  instance: \<open>llfree_spec\<close> (the LLFree allocator), \<open>fifo_spec\<close> (the queue of a pipe), \<open>chan_spec\<close> (the
  channels between cores), \<open>mmap_sized\<close> (the mapping of memory). Interfaces between components are the locales
  \<open>frame_allocator\<close> and \<open>exact_frame_allocator\<close> (interpreted by the free list), \<open>finite_map\<close> (by the ordered
  lists that stand for \<open>BTreeMap\<close>), \<open>editor\<close> (by the piece table) and \<open>request_queue\<close> (by the send and the
  receive queue of a queue pair).

  \<^bold>\<open>Theories.\<close>
  \<^item> \<open>Prelude\<close>: computations that may panic; lists of intervals in canonical form and the sets they cover.
  \<^item> \<open>Dram\<close> (\<open>memory/dram.rs\<close>): region sets with in-place merging, finalisation, the boot allocator.
    Insertion keeps the canonical form and adds exactly the new bytes; finalisation partitions the
    memory; boot allocation is an exact first fit; every reachable memory map is well formed.
  \<^item> \<open>FrameAlloc\<close> (\<open>memory/mod.rs\<close>), \<open>Frames\<close> (\<open>memory/frames.rs\<close>), \<open>FramesLf\<close> (\<open>memory/frames_lf.rs\<close>): the
    contract of a frame allocator, from which it follows once that no frame has two owners, and its two
    implementations; first fit, fusion of released blocks, detection of double frees, reservation of
    ranges in power-of-two chunks.
  \<^item> \<open>Paging\<close>, \<open>PagingProps\<close> (\<open>memory/pages.rs\<close>): the four-level tables as trees and every walker over
    them. One lemma on walks through a range of pages carries mapping, unmapping and changes of flags:
    each changes exactly the translations of its range. A copied space translates like the original.
  \<^item> \<open>BTree\<close>: the ordered maps of the standard library with their range queries.
  \<^item> \<open>Vma\<close>, \<open>Vmm\<close>, \<open>VmmProps\<close> (\<open>memory/vma.rs\<close>, \<open>memory/vmm.rs\<close>): areas stay sorted, disjoint and in
    bounds; allocation at a page is exact and the search finds the lowest gap; areas with memory are mapped exactly.
  \<^item> \<open>UserCopy\<close> (\<open>memory/vmm.rs\<close>): checked copies to and from user memory and loading into another
    address space, over an explicit physical memory.
  \<^item> \<open>Shm\<close> (\<open>memory/shm.rs\<close>): shared memory objects with the gap between the two critical sections of a
    deletion; tables and frames stay consistent over every history, attachments share frames.
  \<^item> \<open>Errno\<close> (\<open>library/syscall/src/return_vals.rs\<close>): results in the return register.
  \<^item> \<open>Pipe\<close> (\<open>sync/wait_queue.rs\<close>, the pipes of \<open>naming/tmpfs.rs\<close>): reading and writing as atomic steps
    of two threads; under every interleaving the reader gets what was written, in order, and a
    transfer can always be completed.
  \<^item> \<open>Scheduler\<close>, \<open>SchedulerProps\<close> (\<open>process/scheduler.rs\<close>): all operations on the queues of a core and
    the messages between cores; a thread is never at two places, and on one core a ready thread runs
    after as many timer interrupts as there are threads before it.
  \<^item> \<open>TextBuffer\<close> (\<open>library/text_buffer\<close>): the piece table refines the plain text; undo and redo are inverse.
  \<^item> \<open>Naming\<close>, \<open>NamingProps\<close>, \<open>NamingCalls\<close> (\<open>naming\<close>, the statistics of \<open>process\<close>): both file systems,
    paths, handles and the calls of the service; references stay valid, creation changes one path,
    files keep their content, handles are unique, directories are listed completely.
  \<^item> \<open>Mlx4Queue\<close>, \<open>Mlx4QueueProps\<close>, \<open>Mlx4QueueCalls\<close>
    (\<open>library/ibverbs/src/provider/mlx4/queue_pair.rs\<close>): rings of work requests as bytes that the card
    reads. Entries are written completely and never over one that the card may still need, and
    completions return the identifiers in the order of posting; sends without a completion at the end
    of a call are lost capacity.
  \<^item> \<open>Mlx4Cq\<close> (\<open>completion_queue.rs\<close> beside it): completion queues are FIFO although only the owner bit
    separates the rounds, and \<open>poll\<close> returns the identifiers of the requests that the card completed.
  \<^item> this theory: both frame allocators start from the same memory.

  \<^bold>\<open>Bounds.\<close> Loops whose end depends on data have termination proofs, there is no fuel. Counters of
  64 bits (addresses, sizes) have their overflow written out; where a theorem assumes that a counter has
  not reached its end (the 32 bit positions of the InfiniBand queues) the assumption is a
  premise. The sizes of queue pairs are those of \<open>Mlx4Context::new\<close>, with at least one segment per send.

  \<^bold>\<open>Not modelled.\<close>
  \<^item> Code whose effect is on hardware: boot and interrupt entry, the drivers under \<open>device\<close> (APIC, PCI,
    timers, disks, network cards, virtio, the kernel half of the InfiniBand driver with its firmware commands),
    loading CR3, switching stacks, per-core registers.
  \<^item> Forwarding to other packages: the network stack (smoltcp), the kernel heap, block storage.
  \<^item> The functions of \<open>syscall\<close>, which convert raw pointers and forward to the services, and the
    libraries of wrappers around system calls (\<open>concurrent\<close>, \<open>mm\<close>, \<open>time\<close>, \<open>runtime\<close> and others).
  \<^item> \<open>library/libc\<close>, functions over raw C pointers for the ported games; the graphics and terminal libraries.
  \<^item> Creating and ending processes and user threads, which is loading of programs and assembly; only
    the parts that the scheduler and the process file system read.
  \<^item> Applications: interactive programs, benchmarks and tests.
  \<^item> Locks are critical sections that are one step; where the code releases a lock in the middle of an
    operation the steps are separate (shared memory, pipes, messages of the scheduler).
\<close>

section \<open>Boot: from the memory map to the frame allocator\<close>

text \<open>
  C11. Both page frame allocators start from the same free memory. Once the memory map of the
  loader is finalised, the free list of \<open>frames.rs\<close> and the LLFree binding of \<open>frames_lf.rs\<close>
  are initialised without a panic and hold exactly the frames that were available and not
  reserved, although one is built from the available regions and the other by taking the
  reserved regions out of all memory.
\<close>

theorem allocators_agree:
  assumes wf: "wf_dram d" "\<not> DRAM_FINALIZED d"
      "rs_count (AVAILABLE_REGIONS d) + rs_count (RESERVED_REGIONS d) < MAX_REGIONS"
    and spec: "llfree_spec max_order (DRAM_LIMIT d div PAGE_SIZE) linv lfree get put"
    and new: "new (DRAM_LIMIT d div PAGE_SIZE) = Some s" "linv s" "lfree s = {..<DRAM_LIMIT d div PAGE_SIZE}"
  shows "\<exists>d' head s'. finalize d = Inr d' \<and> frames_init d' [] = Inr head \<and>
    lf_init new get max_order d' = Inr s' \<and> wf_list head \<and> linv s' \<and> lfree s' = free_set head \<and>
    free_set head = {f. f * PAGE_SIZE \<in> bytes_of (AVAILABLE_REGIONS d) - bytes_of (RESERVED_REGIONS d)}"
proof -
  have sub: "bytes_of (AVAILABLE_REGIONS d) \<subseteq> {..<DRAM_LIMIT d}"
    and sets: "wf_set (AVAILABLE_REGIONS d)" "wf_set (RESERVED_REGIONS d)"
    using wf(1) by (auto simp: wf_dram_def)
  obtain d' where fin: "finalize d = Inr d'" using finalize_total [OF sets sub wf(2,3)] by blast
  note r = finalize_refines [OF sets sub fin] and wf' = finalize_wf [OF fin wf(1)]
  have lim: "DRAM_LIMIT d' = DRAM_LIMIT d" using r by blast
  obtain head where head: "frames_init d' [] = Inr head" "wf_list head"
    "free_set head = {f. f * PAGE_SIZE \<in> bytes_of (AVAILABLE_REGIONS d')}"
    using frames_init_ok [OF wf'] r by blast
  obtain s' where s': "lf_init new get max_order d' = Inr s'" "linv s'"
    "lfree s' = {..<DRAM_LIMIT d div PAGE_SIZE} - {f. f * PAGE_SIZE \<in> bytes_of (RESERVED_REGIONS d')}"
    using lf_init_ok [of max_order d' linv lfree get put new s] spec new wf' r unfolding lim by blast
  have below: "f * PAGE_SIZE < DRAM_LIMIT d \<longleftrightarrow> f < DRAM_LIMIT d div PAGE_SIZE" for f
    by (rule frames_below_limit [OF limit_aligned [OF wf(1)]])
  have "bytes_of (AVAILABLE_REGIONS d') \<subseteq> {..<DRAM_LIMIT d}" using r sub by blast
  then have "lfree s' = free_set head" using r below unfolding s'(3) head(3) by auto
  with fin head s' r show ?thesis by auto
qed

theorem allocators_agree_witness:
  "\<exists>d' head s'. finalize example_dram = Inr d' \<and> frames_init d' [] = Inr head \<and>
     lf_init (\<lambda>n. Some {..<n}) demo_get 5 d' = Inr s' \<and> s' = free_set head \<and>
     free_set head = {1, 2} \<union> {5..<16}"
proof -
  have lim: "DRAM_LIMIT example_dram div PAGE_SIZE = 16" by (simp add: example_dram_def)
  have fresh: "\<not> DRAM_FINALIZED example_dram"
    "rs_count (AVAILABLE_REGIONS example_dram) + rs_count (RESERVED_REGIONS example_dram) < MAX_REGIONS"
    by (simp_all add: example_dram_def MAX_REGIONS_def)
  have "{f. f * PAGE_SIZE \<in> bytes_of (AVAILABLE_REGIONS example_dram) -
        bytes_of (RESERVED_REGIONS example_dram)} = {1, 2} \<union> {5..<16}"
    by (auto simp: example_dram_def bytes_of_def)
  then show ?thesis
    using allocators_agree [OF example_dram_wf fresh demo_spec, of "\<lambda>n. Some {..<n}" "{..<16}"]
    by (simp add: lim) blast
qed

end
